(* ===== verification/Prelude.thy ===== *)
theory Prelude
  imports "HOL-Library.Word" "HOL-Library.Multiset"
begin

text \<open>
  Shared vocabulary of the development: the machine types of the Go code, its errors as
  values, operations that may fail and change a state, Hoare triples over them, and the
  facts on 64-bit words and lists that the component theories use.
\<close>

subsection \<open>Machine types\<close>

type_synonym u64 = "64 word"
type_synonym byte = "8 word"
type_synonym address = "160 word"   \<comment> \<open>\<^verbatim>\<open>common.Address\<close>, \<^verbatim>\<open>[20]byte\<close>\<close>
type_synonym hash = "256 word"      \<comment> \<open>\<^verbatim>\<open>common.Hash\<close>, \<^verbatim>\<open>[32]byte\<close>\<close>

text \<open>
  Facts that move a goal on words to natural numbers are collected in \<open>u64\<close>; facts that
  compute a triple are collected in \<open>wp\<close>.
\<close>

named_theorems u64 \<open>word comparisons and arithmetic as natural numbers\<close>
named_theorems wp \<open>Hoare triples of the operations\<close>

lemmas [u64] = word_le_nat_alt word_less_nat_alt unat_plus_if' unat_sub_if_size
  word_size unat_eq_nat_uint [symmetric]

lemma unat_u64_bound: "unat (x::u64) < 18446744073709551616"
  using unsigned_less [of x] by simp

lemma unat_plus_exact:
  "unat (a::u64) + unat b < 18446744073709551616 \<Longrightarrow> unat (a + b) = unat a + unat b"
  by (simp add: unat_plus_if')

lemma unat_Suc_below_max: "unat (i::u64) < 18446744073709551615 \<Longrightarrow> unat (i + 1) = unat i + 1"
  using unat_plus_exact [of i 1] by simp

lemma unat_word_of_int_exact:
  "0 \<le> k \<Longrightarrow> k < 18446744073709551616 \<Longrightarrow> unat (word_of_int k :: u64) = nat k"
  by (simp add: uint_word_of_int flip: nat_uint_eq)

lemma unat_minus_exact: "(b::u64) \<le> a \<Longrightarrow> unat (a - b) = unat a - unat b"
  by (simp add: unat_sub word_le_nat_alt)

lemma word_eq_unat: "(a::u64) = b \<longleftrightarrow> unat a = unat b"
  by (simp add: word_unat_eq_iff)

text \<open>\<open>word_of_nat\<close> over an offset: the loops of the code count blocks upward.\<close>

lemma unat_offset:
  "unat (a::u64) + k < 18446744073709551616 \<Longrightarrow> unat (a + of_nat k) = unat a + k"
  by (simp add: unat_plus_if' unat_of_nat)

lemma offset_inject:
  "unat (a::u64) + j < 18446744073709551616 \<Longrightarrow> unat a + k < 18446744073709551616 \<Longrightarrow>
   a + of_nat j = a + of_nat k \<longleftrightarrow> j = k"
  by (auto simp: word_eq_unat unat_offset)

subsection \<open>Errors as values\<close>

text \<open>
  An \<^verbatim>\<open>error\<close> of the code: a message, an error wrapped by \<^verbatim>\<open>errors.Wrap\<close> or
  \<^verbatim>\<open>fmt.Errorf("... %w")\<close> (the formatted arguments of the message are left out), or
  GORM's \<^verbatim>\<open>ErrRecordNotFound\<close>. \<open>Panic\<close> is a run-time panic (nil dereference, index out
  of range), which ends the process; \<open>OutOfFuel\<close> marks a loop that was cut off by the
  fuel of its model, never a result of the code.
\<close>

datatype go_error =
    ErrMsg string
  | Wrapped string go_error
  | RecordNotFound
  | Panic string
  | OutOfFuel

text \<open>\<^verbatim>\<open>errors.Is(err, gorm.ErrRecordNotFound)\<close> looks through wrapping.\<close>

fun is_not_found :: "go_error \<Rightarrow> bool" where
  "is_not_found RecordNotFound = True"
| "is_not_found (Wrapped _ e) = is_not_found e"
| "is_not_found _ = False"

text \<open>Pure results, \<^verbatim>\<open>(T, error)\<close>.\<close>

definition bindR :: "go_error + 'a \<Rightarrow> ('a \<Rightarrow> go_error + 'b) \<Rightarrow> go_error + 'b" where
  "bindR r f = (case r of Inl e \<Rightarrow> Inl e | Inr x \<Rightarrow> f x)"

definition wrapR :: "string \<Rightarrow> go_error + 'a \<Rightarrow> go_error + 'a" where
  "wrapR msg r = (case r of Inl e \<Rightarrow> Inl (Wrapped msg e) | Inr x \<Rightarrow> Inr x)"

primrec foldR :: "('b \<Rightarrow> 'a \<Rightarrow> go_error + 'b) \<Rightarrow> 'b \<Rightarrow> 'a list \<Rightarrow> go_error + 'b" where
  "foldR f b [] = Inr b"
| "foldR f b (x # xs) = bindR (f b x) (\<lambda>b'. foldR f b' xs)"

primrec mapR :: "('a \<Rightarrow> go_error + 'b) \<Rightarrow> 'a list \<Rightarrow> go_error + 'b list" where
  "mapR f [] = Inr []"
| "mapR f (x # xs) = bindR (f x) (\<lambda>y. bindR (mapR f xs) (\<lambda>ys. Inr (y # ys)))"

lemma bindR_simps [simp]:
  "bindR (Inl e) f = Inl e" "bindR (Inr x) f = f x"
  by (simp_all add: bindR_def)

lemma bindR_Inr_iff [simp]: "bindR r f = Inr y \<longleftrightarrow> (\<exists>x. r = Inr x \<and> f x = Inr y)"
  by (cases r) auto

lemma wrapR_simps [simp]:
  "wrapR msg (Inl e) = Inl (Wrapped msg e)" "wrapR msg (Inr x) = Inr x"
  by (simp_all add: wrapR_def)

lemma wrapR_Inr_iff [simp]: "wrapR msg r = Inr x \<longleftrightarrow> r = Inr x"
  by (cases r) auto

lemma mapR_Inr_iff:
  "mapR f xs = Inr ys \<longleftrightarrow> length ys = length xs \<and> (\<forall>i < length xs. f (xs ! i) = Inr (ys ! i))"
proof (induction xs arbitrary: ys)
  case (Cons x xs)
  show ?case
  proof (cases ys)
    case (Cons y zs)
    then show ?thesis using Cons.IH [of zs] by (auto simp: nth_Cons split: nat.splits)
  qed auto
qed auto

lemma foldR_append:
  "foldR f b (xs @ ys) = bindR (foldR f b xs) (\<lambda>b'. foldR f b' ys)"
proof (induction xs arbitrary: b)
  case (Cons x xs)
  then show ?case by (cases "f b x") auto
qed simp

lemma foldR_invariant:
  assumes "foldR f b xs = Inr c" and "I b"
    and "\<And>b x b'. x \<in> set xs \<Longrightarrow> I b \<Longrightarrow> f b x = Inr b' \<Longrightarrow> I b'"
  shows "I c"
  using assms by (induction xs arbitrary: b) auto

subsection \<open>Operations with effects\<close>

text \<open>
  An operation takes the state and returns its result, or the error it returned, with the
  state it leaves: an error does not undo the effects before it.
\<close>

type_synonym ('s, 'a) io = "'s \<Rightarrow> (go_error + 'a) \<times> 's"

definition ret :: "'a \<Rightarrow> ('s, 'a) io" where
  "ret x = (\<lambda>s. (Inr x, s))"

definition throw :: "go_error \<Rightarrow> ('s, 'a) io" where
  "throw e = (\<lambda>s. (Inl e, s))"

text \<open>\<^verbatim>\<open>x, err := m(); if err != nil { return err }; ...\<close>\<close>

definition bindE :: "('s, 'a) io \<Rightarrow> ('a \<Rightarrow> ('s, 'b) io) \<Rightarrow> ('s, 'b) io" where
  "bindE m f = (\<lambda>s. case m s of (Inl e, s') \<Rightarrow> (Inl e, s') | (Inr x, s') \<Rightarrow> f x s')"

definition liftR :: "go_error + 'a \<Rightarrow> ('s, 'a) io" where
  "liftR r = (\<lambda>s. (r, s))"

definition wrapE :: "string \<Rightarrow> ('s, 'a) io \<Rightarrow> ('s, 'a) io" where
  "wrapE msg m = (\<lambda>s. case m s of (r, s') \<Rightarrow> (wrapR msg r, s'))"

definition mapE :: "('a \<Rightarrow> 'b) \<Rightarrow> ('s, 'a) io \<Rightarrow> ('s, 'b) io" where
  "mapE f m = bindE m (\<lambda>x. ret (f x))"

primrec foldE :: "('b \<Rightarrow> 'a \<Rightarrow> ('s, 'b) io) \<Rightarrow> 'b \<Rightarrow> 'a list \<Rightarrow> ('s, 'b) io" where
  "foldE f b [] = ret b"
| "foldE f b (x # xs) = bindE (f b x) (\<lambda>b'. foldE f b' xs)"

lemma ret_apply [simp]: "ret x s = (Inr x, s)"
  by (simp add: ret_def)

lemma throw_apply [simp]: "throw e s = (Inl e, s)"
  by (simp add: throw_def)

lemma liftR_apply [simp]: "liftR r s = (r, s)"
  by (simp add: liftR_def)

lemma bindE_Inr_iff:
  "bindE m f s = (Inr y, s') \<longleftrightarrow> (\<exists>x s1. m s = (Inr x, s1) \<and> f x s1 = (Inr y, s'))"
  by (auto simp: bindE_def split: prod.splits sum.splits)

lemma bindE_Inl_iff:
  "bindE m f s = (Inl e, s') \<longleftrightarrow>
     m s = (Inl e, s') \<or> (\<exists>x s1. m s = (Inr x, s1) \<and> f x s1 = (Inl e, s'))"
  by (auto simp: bindE_def split: prod.splits sum.splits)

lemma wrapE_Inr_iff: "wrapE msg m s = (Inr x, s') \<longleftrightarrow> m s = (Inr x, s')"
  by (auto simp: wrapE_def split: prod.splits)

lemma wrapE_not_fuel [simp]: "wrapE msg m s \<noteq> (Inl OutOfFuel, s')"
  by (auto simp: wrapE_def wrapR_def split: prod.splits sum.splits)

lemma mapE_Inr_iff: "mapE f m s = (Inr y, s') \<longleftrightarrow> (\<exists>x. m s = (Inr x, s') \<and> y = f x)"
  by (auto simp: mapE_def bindE_Inr_iff)

lemma mapE_Inl_iff: "mapE f m s = (Inl e, s') \<longleftrightarrow> m s = (Inl e, s')"
  by (auto simp: mapE_def bindE_Inl_iff)

lemma bindE_ret [simp]: "bindE (ret x) f = f x"
  by (simp add: bindE_def fun_eq_iff)

lemma bindE_assoc: "bindE (bindE m f) g = bindE m (\<lambda>x. bindE (f x) g)"
  by (auto simp: bindE_def fun_eq_iff split: prod.splits sum.splits)

lemma foldE_append: "foldE f b (xs @ ys) = bindE (foldE f b xs) (\<lambda>b'. foldE f b' ys)"
  by (induction xs arbitrary: b) (simp_all add: bindE_assoc)

lemma foldE_snoc_Inr:
  "foldE f b (xs @ [x]) s = (Inr c, s') \<longleftrightarrow>
     (\<exists>b1 s1. foldE f b xs s = (Inr b1, s1) \<and> f b1 x s1 = (Inr c, s'))"
  by (auto simp: foldE_append bindE_Inr_iff)

lemma bindE_run_Inr: "m s = (Inr x, s') \<Longrightarrow> bindE m f s = f x s'"
  by (simp add: bindE_def)

lemma bindE_run_Inl: "m s = (Inl e, s') \<Longrightarrow> bindE m f s = (Inl e, s')"
  by (simp add: bindE_def)

lemma wrapE_run_Inr: "m s = (Inr x, s') \<Longrightarrow> wrapE msg m s = (Inr x, s')"
  by (simp add: wrapE_def)

lemmas io_run = bindE_run_Inr bindE_run_Inl wrapE_run_Inr

subsection \<open>Triples\<close>

text \<open>
  \<open>triple P m Q R\<close>: from every state in \<open>P\<close>, \<open>m\<close> ends in \<open>Q\<close> of its result when it
  succeeds and in \<open>R\<close> when it returns an error. Every operation ends (a loop that may
  not is bounded by fuel), so a triple is total correctness but for \<open>OutOfFuel\<close>.
\<close>

definition triple ::
  "('s \<Rightarrow> bool) \<Rightarrow> ('s, 'a) io \<Rightarrow> ('a \<Rightarrow> 's \<Rightarrow> bool) \<Rightarrow> (go_error \<Rightarrow> 's \<Rightarrow> bool) \<Rightarrow> bool" where
  "triple P m Q R \<longleftrightarrow>
     (\<forall>s r s'. P s \<longrightarrow> m s = (r, s') \<longrightarrow> (case r of Inl e \<Rightarrow> R e s' | Inr x \<Rightarrow> Q x s'))"

abbreviation keeps :: "('s \<Rightarrow> bool) \<Rightarrow> ('s, 'a) io \<Rightarrow> bool" where
  "keeps I m \<equiv> triple I m (\<lambda>_. I) (\<lambda>_. I)"

lemma tripleI:
  assumes "\<And>s x s'. P s \<Longrightarrow> m s = (Inr x, s') \<Longrightarrow> Q x s'"
    and "\<And>s e s'. P s \<Longrightarrow> m s = (Inl e, s') \<Longrightarrow> R e s'"
  shows "triple P m Q R"
  using assms by (auto simp: triple_def split: sum.splits)

lemma triple_Inr: "triple P m Q R \<Longrightarrow> P s \<Longrightarrow> m s = (Inr x, s') \<Longrightarrow> Q x s'"
  by (fastforce simp: triple_def)

lemma triple_Inl: "triple P m Q R \<Longrightarrow> P s \<Longrightarrow> m s = (Inl e, s') \<Longrightarrow> R e s'"
  by (fastforce simp: triple_def)

lemma keepsD: "keeps I m \<Longrightarrow> m s = (r, s') \<Longrightarrow> I s \<Longrightarrow> I s'"
  by (cases r) (auto dest: triple_Inr triple_Inl)

lemma keepsI: "(\<And>s r s'. I s \<Longrightarrow> m s = (r, s') \<Longrightarrow> I s') \<Longrightarrow> keeps I m"
  by (rule tripleI) blast+

lemma triple_post:
  "triple P m Q R \<Longrightarrow> P s \<Longrightarrow> (\<And>x s'. Q x s' \<Longrightarrow> I s') \<Longrightarrow> (\<And>e s'. R e s' \<Longrightarrow> I s') \<Longrightarrow>
   I (snd (m s))"
  by (cases "m s"; cases "fst (m s)") (fastforce simp: triple_def)+

lemma triple_conseq:
  assumes "triple P m Q R" and "\<And>s. P' s \<Longrightarrow> P s"
    and "\<And>x s. Q x s \<Longrightarrow> Q' x s" and "\<And>e s. R e s \<Longrightarrow> R' e s"
  shows "triple P' m Q' R'"
  using assms by (fastforce simp: triple_def split: sum.splits)

lemma triple_ret [wp]: "(\<And>s. P s \<Longrightarrow> Q x s) \<Longrightarrow> triple P (ret x) Q R"
  by (simp add: triple_def)

lemma triple_throw [wp]: "(\<And>s. P s \<Longrightarrow> R e s) \<Longrightarrow> triple P (throw e) Q R"
  by (simp add: triple_def)

lemma triple_liftR [wp]:
  "(\<And>s x. P s \<Longrightarrow> r = Inr x \<Longrightarrow> Q x s) \<Longrightarrow> (\<And>s e. P s \<Longrightarrow> r = Inl e \<Longrightarrow> R e s) \<Longrightarrow>
   triple P (liftR r) Q R"
  by (auto simp: triple_def split: sum.splits)

lemma triple_bind:
  "triple P m Q' R \<Longrightarrow> (\<And>x. triple (Q' x) (f x) Q R) \<Longrightarrow> triple P (bindE m f) Q R"
  by (rule tripleI) (auto simp: bindE_Inr_iff bindE_Inl_iff dest: triple_Inr triple_Inl)

lemma triple_wrap: "triple P m Q (\<lambda>_. R) \<Longrightarrow> triple P (wrapE msg m) Q (\<lambda>_. R)"
  by (fastforce simp: triple_def wrapE_def wrapR_def split: prod.splits sum.splits)

lemma triple_if [wp]:
  "(c \<Longrightarrow> triple P m Q R) \<Longrightarrow> (\<not> c \<Longrightarrow> triple P n Q R) \<Longrightarrow> triple P (if c then m else n) Q R"
  by simp

lemma triple_foldE:
  assumes "\<And>b x. x \<in> set xs \<Longrightarrow> triple (I b) (f b x) I R"
  shows "triple (I b0) (foldE f b0 xs) I R"
  using assms
  by (induction xs arbitrary: b0) (auto intro!: triple_ret intro: triple_bind)

lemma keeps_bind [wp]: "keeps I m \<Longrightarrow> (\<And>x. keeps I (f x)) \<Longrightarrow> keeps I (bindE m f)"
  by (rule triple_bind)

lemma keeps_wrap [wp]: "keeps I m \<Longrightarrow> keeps I (wrapE msg m)"
  by (rule triple_wrap)

lemma keeps_map [wp]: "keeps I m \<Longrightarrow> keeps I (mapE f m)"
  by (simp add: mapE_def wp)

lemma keeps_foldE [wp]: "(\<And>b x. x \<in> set xs \<Longrightarrow> keeps I (f b x)) \<Longrightarrow> keeps I (foldE f b xs)"
  by (rule triple_foldE)

lemma keeps_conj: "keeps I m \<Longrightarrow> keeps J m \<Longrightarrow> keeps (\<lambda>s. I s \<and> J s) m"
  by (fastforce simp: triple_def split: sum.splits)

lemma keeps_pair [simp]: "keeps I (Pair (Inr x))"
  by (simp add: triple_def)

text \<open>A result that depends on the code's state only: what a succeeding run returned.\<close>

lemma foldE_Inr_invariant:
  assumes "foldE f b xs s = (Inr c, s')" and "I b s"
    and "\<And>b x s b' s'. x \<in> set xs \<Longrightarrow> I b s \<Longrightarrow> f b x s = (Inr b', s') \<Longrightarrow> I b' s'"
  shows "I c s'"
  using assms
proof (induction xs arbitrary: b s)
  case (Cons x xs)
  then obtain b' s1 where "f b x s = (Inr b', s1)" "foldE f b' xs s1 = (Inr c, s')"
    by (auto simp: bindE_Inr_iff)
  with Cons.prems(2,3) Cons.IH show ?case by (meson list.set_intros)
qed simp

text \<open>A step that keeps \<open>g\<close> either ends the run, with \<open>g\<close> as before, or is followed by the rest.\<close>

lemma keeps_bind_go:
  assumes "keeps (\<lambda>x. g x = g w) m" "bindE m f w = (r, w')" "\<not> (g w' = g w \<and> r \<noteq> Inr z)"
  obtains y w1 where "m w = (Inr y, w1)" "g w1 = g w" "f y w1 = (r, w')"
proof -
  obtain r1 w1 where m: "m w = (r1, w1)" by force
  have "g w1 = g w" using keepsD [OF assms(1) m] by simp
  with m assms(2,3) that show ?thesis by (cases r1) (auto simp: bindE_def)
qed

end
