(* ===== verification/Go_Text.thy ===== *)
theory Go_Text
  imports Prelude
begin

text \<open>
  The functions of Go's \<^verbatim>\<open>strings\<close>, \<^verbatim>\<open>encoding/hex\<close>, \<^verbatim>\<open>fmt\<close> and \<^verbatim>\<open>path/filepath\<close> packages that the
  indexer calls, on text of ASCII characters: a Go string is a list of bytes, here of
  \<open>char\<close>. On other bytes \<^verbatim>\<open>ToLower\<close>, \<^verbatim>\<open>TrimSpace\<close> and \<^verbatim>\<open>EqualFold\<close> of Go read UTF-8,
  which is not modelled.
\<close>

subsection \<open>\<^verbatim>\<open>strings\<close>\<close>

abbreviation code :: "char \<Rightarrow> nat" where
  "code c \<equiv> of_char c"

definition is_space :: "char \<Rightarrow> bool" where
  "is_space c \<longleftrightarrow> code c \<in> {9, 10, 11, 12, 13, 32}"

definition TrimSpace :: "string \<Rightarrow> string" where
  "TrimSpace s = rev (dropWhile is_space (rev (dropWhile is_space s)))"

definition lower_char :: "char \<Rightarrow> char" where
  "lower_char c = (if 65 \<le> code c \<and> code c \<le> 90 then char_of (code c + 32) else c)"

definition ToLower :: "string \<Rightarrow> string" where
  "ToLower s = map lower_char s"

definition HasPrefix :: "string \<Rightarrow> string \<Rightarrow> bool" where
  "HasPrefix s p \<longleftrightarrow> take (length p) s = p"

definition TrimPrefix :: "string \<Rightarrow> string \<Rightarrow> string" where
  "TrimPrefix s p = (if HasPrefix s p then drop (length p) s else s)"

definition EqualFold :: "string \<Rightarrow> string \<Rightarrow> bool" where
  "EqualFold s t \<longleftrightarrow> ToLower s = ToLower t"

lemma code_lower_char [simp]:
  "code (lower_char c) = (if 65 \<le> code c \<and> code c \<le> 90 then code c + 32 else code c)"
  by (simp add: lower_char_def)

lemma lower_char_idem [simp]: "lower_char (lower_char c) = lower_char c"
  by (auto simp: lower_char_def)

lemma ToLower_idem [simp]: "ToLower (ToLower s) = ToLower s"
  by (simp add: ToLower_def)

lemma length_ToLower [simp]: "length (ToLower s) = length s"
  by (simp add: ToLower_def)

lemma HasPrefix_append [simp]: "HasPrefix (p @ s) p"
  by (simp add: HasPrefix_def)

lemma TrimPrefix_append [simp]: "TrimPrefix (p @ s) p = s"
  by (simp add: TrimPrefix_def)

lemma dropWhile_id: "(s = [] \<or> \<not> P (hd s)) \<Longrightarrow> dropWhile P s = s"
  by (cases s) auto

lemma TrimSpace_idem [simp]: "TrimSpace (TrimSpace s) = TrimSpace s"
proof -
  define a where "a = dropWhile is_space s"
  define b where "b = dropWhile is_space (rev a)"
  have b: "b = [] \<or> \<not> is_space (hd b)"
    using hd_dropWhile [of is_space "rev a"] by (auto simp: b_def)
  have a: "a = [] \<or> \<not> is_space (hd a)"
    using hd_dropWhile [of is_space s] by (auto simp: a_def)
  obtain ys where ys: "rev a = ys @ b"
    using takeWhile_dropWhile_id [of is_space "rev a"] by (metis b_def)
  have "rev b = [] \<or> \<not> is_space (hd (rev b))"
  proof (cases "b = []")
    case False
    from ys have "a = rev b @ rev ys" by (metis rev_append rev_rev_ident)
    with False have "hd a = hd (rev b)" "a \<noteq> []" by auto
    with a show ?thesis by simp
  qed simp
  then have "dropWhile is_space (rev b) = rev b" by (rule dropWhile_id)
  moreover have "dropWhile is_space b = b" using b by (rule dropWhile_id)
  ultimately show ?thesis by (simp add: TrimSpace_def a_def [symmetric] b_def [symmetric])
qed

lemma TrimSpace_id:
  assumes "\<And>c. c \<in> set s \<Longrightarrow> \<not> is_space c"
  shows "TrimSpace s = s"
proof -
  have "dropWhile is_space t = t" if "set t \<subseteq> set s" for t
    using that assms by (cases t) auto
  then show ?thesis by (simp add: TrimSpace_def)
qed

subsection \<open>\<^verbatim>\<open>encoding/hex\<close>\<close>

definition hex_digit :: "nat \<Rightarrow> char" where
  "hex_digit n = (if n < 10 then char_of (48 + n) else char_of (87 + n))"

text \<open>\<^verbatim>\<open>fromHexChar\<close>: both cases are digits.\<close>

definition hex_val :: "char \<Rightarrow> nat option" where
  "hex_val c =
     (let n = code c in
      if 48 \<le> n \<and> n \<le> 57 then Some (n - 48)
      else if 97 \<le> n \<and> n \<le> 102 then Some (n - 87)
      else if 65 \<le> n \<and> n \<le> 70 then Some (n - 55)
      else None)"

primrec EncodeToString :: "byte list \<Rightarrow> string" where
  "EncodeToString [] = []"
| "EncodeToString (b # bs) =
     hex_digit (unat b div 16) # hex_digit (unat b mod 16) # EncodeToString bs"

text \<open>Evaluation skips the digits of zero bytes.\<close>

lemma hex_digit_zero: "hex_digit 0 = CHR ''0''"
  by code_simp

lemma EncodeToString_code [code]:
  "EncodeToString [] = []"
  "EncodeToString (b # bs) =
     (if b = 0 then CHR ''0'' # CHR ''0'' # EncodeToString bs
      else hex_digit (unat b div 16) # hex_digit (unat b mod 16) # EncodeToString bs)"
  by (simp_all add: hex_digit_zero)

fun DecodeString :: "string \<Rightarrow> go_error + byte list" where
  "DecodeString [] = Inr []"
| "DecodeString [c] =
     (case hex_val c of None \<Rightarrow> Inl (ErrMsg ''invalid byte'') | Some _ \<Rightarrow> Inl (ErrMsg ''odd length hex string''))"
| "DecodeString (c # d # s) =
     (case hex_val c of None \<Rightarrow> Inl (ErrMsg ''invalid byte'')
      | Some h \<Rightarrow>
        (case hex_val d of None \<Rightarrow> Inl (ErrMsg ''invalid byte'')
         | Some l \<Rightarrow> bindR (DecodeString s) (\<lambda>bs. Inr (of_nat (16 * h + l) # bs))))"

lemma code_hex_digit: "n < 16 \<Longrightarrow> code (hex_digit n) = (if n < 10 then 48 + n else 87 + n)"
  by (simp add: hex_digit_def)

lemma hex_val_hex_digit [simp]: "n < 16 \<Longrightarrow> hex_val (hex_digit n) = Some n"
  by (auto simp: hex_val_def code_hex_digit)

lemma hex_digit_inject: "m < 16 \<Longrightarrow> n < 16 \<Longrightarrow> hex_digit m = hex_digit n \<longleftrightarrow> m = n"
  by (metis hex_val_hex_digit option.inject)

lemma unat_byte_bound: "unat (b::byte) < 256"
  using unsigned_less [of b] by simp

lemma byte_nibbles: "(of_nat (16 * (unat b div 16) + unat b mod 16) :: byte) = b"
  by (simp add: mult.commute)

lemma nibble_bounds: "unat (b::byte) div 16 < 16" "unat (b::byte) mod 16 < 16"
  using unat_byte_bound [of b] by auto

theorem hex_round_trip [simp]: "DecodeString (EncodeToString bs) = Inr bs"
  by (induction bs) (simp_all add: nibble_bounds byte_nibbles del: of_nat_add of_nat_mult)

lemma length_EncodeToString [simp]: "length (EncodeToString bs) = 2 * length bs"
  by (induction bs) auto

lemma EncodeToString_inject: "EncodeToString as = EncodeToString bs \<longleftrightarrow> as = bs"
  by (metis Inr_inject hex_round_trip)

lemma hex_val_bound: "hex_val c = Some n \<Longrightarrow> n < 16"
  by (auto simp: hex_val_def Let_def split: if_splits)

lemma hex_val_None_iff:
  "hex_val c \<noteq> None \<longleftrightarrow> code c \<in> {48..57} \<union> {65..70} \<union> {97..102}"
  by (auto simp: hex_val_def Let_def)

lemma DecodeString_length: "DecodeString s = Inr bs \<Longrightarrow> length s = 2 * length bs"
  by (induction s arbitrary: bs rule: DecodeString.induct)
     (auto split: option.splits)

lemma DecodeString_accepts:
  "(\<exists>bs. DecodeString s = Inr bs) \<longleftrightarrow> even (length s) \<and> (\<forall>c \<in> set s. hex_val c \<noteq> None)"
  by (induction s rule: DecodeString.induct) (auto split: option.splits)

lemma hex_val_lower [simp]: "hex_val (lower_char c) = hex_val c"
  by (simp add: hex_val_def Let_def)

lemma DecodeString_ToLower [simp]: "DecodeString (ToLower s) = DecodeString s"
  by (induction s rule: DecodeString.induct) (simp_all add: ToLower_def split: option.splits)

lemma lower_hex_digit: "n < 16 \<Longrightarrow> lower_char (hex_digit n) = hex_digit n"
  by (auto simp: lower_char_def code_hex_digit)

lemma ToLower_EncodeToString [simp]: "ToLower (EncodeToString bs) = EncodeToString bs"
  by (induction bs) (simp_all add: ToLower_def nibble_bounds lower_hex_digit)

lemma EncodeToString_DecodeString:
  "DecodeString s = Inr bs \<Longrightarrow> EncodeToString bs = ToLower s"
proof (induction s arbitrary: bs rule: DecodeString.induct)
  case (3 c d s)
  then obtain h l bs' where hl: "hex_val c = Some h" "hex_val d = Some l"
      and bs: "DecodeString s = Inr bs'" "bs = of_nat (16 * h + l) # bs'"
    by (auto split: option.splits)
  have lt: "h < 16" "l < 16" using hl hex_val_bound by auto
  then have "16 * h + l < 256" by linarith
  then have u: "unat (of_nat (16 * h + l) :: byte) = 16 * h + l"
    by (subst unat_of_nat) simp
  have char: "hex_digit n = lower_char e" if "hex_val e = Some n" for e n
  proof -
    have "n < 16" using that by (rule hex_val_bound)
    then have "code (hex_digit n) = code (lower_char e)"
      using that by (auto simp: code_hex_digit hex_val_def Let_def split: if_splits)
    then show ?thesis by (metis char_of_char)
  qed
  have d: "(16 * h + l) div 16 = h" "(16 * h + l) mod 16 = l" using lt by auto
  show ?case
    unfolding bs(2) EncodeToString.simps u d
    using 3(1) [OF hl bs(1)] char [OF hl(1)] char [OF hl(2)]
    by (simp add: ToLower_def)
qed (auto simp: ToLower_def split: option.splits)

subsection \<open>\<^verbatim>\<open>%d\<close> of an unsigned number\<close>

fun decimal :: "nat \<Rightarrow> string" where
  "decimal n = (if n < 10 then [hex_digit n] else decimal (n div 10) @ [hex_digit (n mod 10)])"

declare decimal.simps [simp del]

lemma decimal_nonempty [simp]: "decimal n \<noteq> []"
  by (subst decimal.simps) simp

lemma decimal_inject: "decimal m = decimal n \<longleftrightarrow> m = n"
proof
  show "decimal m = decimal n \<Longrightarrow> m = n"
  proof (induction m arbitrary: n rule: decimal.induct)
    case (1 m)
    show ?case
    proof (cases "m < 10 \<or> n < 10")
      case True
      with "1.prems" show ?thesis
        by (auto simp: decimal.simps [of m] decimal.simps [of n] hex_digit_inject
            append_eq_Cons_conv Cons_eq_append_conv split: if_splits)
    next
      case False
      with "1.prems" have "decimal (m div 10) = decimal (n div 10)"
          and "hex_digit (m mod 10) = hex_digit (n mod 10)"
        by (simp_all add: decimal.simps [of m] decimal.simps [of n])
      with False "1.IH" have "m div 10 = n div 10" "m mod 10 = n mod 10"
        by (auto simp: hex_digit_inject)
      then show ?thesis by (metis div_mult_mod_eq)
    qed
  qed
qed simp

lemma no_space_decimal: "c \<in> set (decimal n) \<Longrightarrow> code c \<in> {48..57}"
proof (induction n arbitrary: c rule: decimal.induct)
  case (1 n)
  then show ?case
    by (cases "n < 10") (auto simp: decimal.simps [of n] code_hex_digit)
qed

subsection \<open>\<^verbatim>\<open>path/filepath\<close>\<close>

text \<open>
  \<^verbatim>\<open>filepath.Dir\<close> on Unix: the path up to its last slash, cleaned. The elements are put on a stack
  in reverse; \<open>elements\<close> cuts a path at its slashes.
\<close>

fun elements :: "string \<Rightarrow> string list" where
  "elements [] = [[]]"
| "elements (c # s) =
     (if c = CHR ''/'' then [] # elements s
      else case elements s of e # es \<Rightarrow> (c # e) # es | [] \<Rightarrow> [[c]])"

definition clean_element :: "bool \<Rightarrow> string \<Rightarrow> string list \<Rightarrow> string list" where
  "clean_element rooted e stack =
     (if e = '''' \<or> e = ''.'' then stack
      else if e = ''..'' then
        (if stack \<noteq> [] \<and> hd stack \<noteq> ''..'' then tl stack else if rooted then stack else ''..'' # stack)
      else e # stack)"

primrec join_elements :: "string list \<Rightarrow> string" where
  "join_elements [] = ''''"
| "join_elements (e # es) = (if es = [] then e else e @ ''/'' @ join_elements es)"

definition filepath_Clean :: "string \<Rightarrow> string" where
  "filepath_Clean path =
     (let rooted = HasPrefix path ''/'';
          out = (if rooted then ''/'' else '''') @ join_elements (rev (fold (clean_element rooted) (elements path) []))
      in if out = '''' then ''.'' else out)"

definition filepath_Dir :: "string \<Rightarrow> string" where
  "filepath_Dir path = filepath_Clean (rev (dropWhile (\<lambda>c. c \<noteq> CHR ''/'') (rev path)))"

lemma filepath_Dir_examples:
  "map filepath_Dir [''./logs/indexer.log'', ''indexer.log'', ''/indexer.log'', ''/a//b/../c/x'', ''../../x''] =
     [''logs'', ''.'', ''/'', ''/a/c'', ''../..'']"
  by code_simp

end
