(* ===== verification/Chain_Types.thy ===== *)
theory Chain_Types
  imports Go_Text
begin

text \<open>
  The chain data of \<^verbatim>\<open>internal/chain/chain.go\<close>. A block, header, receipt or transaction of
  the indexer holds one of two third-party values, chosen by its chain type. The
  third-party values are records of what the code reads from them; the three shapes of
  the wrapping struct (tag Avax with the \<^verbatim>\<open>avx\<close> pointer, tag Eth with the \<^verbatim>\<open>eth\<close> pointer,
  any other tag) are the constructors of \<open>chained\<close>: the client fills exactly the pointer
  its tag selects.
\<close>

subsection \<open>Third-party values, as the code observes them\<close>

record ext_log =              \<comment> \<open>\<^verbatim>\<open>types.Log\<close>\<close>
  lg_address :: address
  lg_topics :: "hash list"
  lg_data :: "byte list"
  lg_block_number :: u64
  lg_tx_hash :: hash
  lg_index :: u64

record ext_tx =               \<comment> \<open>\<^verbatim>\<open>types.Transaction\<close>\<close>
  tx_hash :: hash
  tx_to :: "address option"
  tx_data :: "byte list"
  tx_chain_id :: int
  tx_value :: int
  tx_gas_price :: int
  tx_gas :: u64

record ext_block =            \<comment> \<open>\<^verbatim>\<open>types.Block\<close>\<close>
  bk_number :: int
  bk_time :: u64
  bk_hash :: hash
  bk_txs :: "ext_tx list"

record ext_header =           \<comment> \<open>\<^verbatim>\<open>types.Header\<close>\<close>
  hd_number :: int
  hd_time :: u64

record ext_receipt =          \<comment> \<open>\<^verbatim>\<open>types.Receipt\<close>\<close>
  rc_status :: u64
  rc_logs :: "ext_log list"

text \<open>
  The pure functions of go-ethereum's \<^verbatim>\<open>common\<close> and of the two \<^verbatim>\<open>types\<close> packages are
  parameters of the model. What the code relies on is stated by \<open>hash_hex_law\<close> and
  \<open>address_hex_law\<close>: \<^verbatim>\<open>Hex\<close> prints \<^verbatim>\<open>0x\<close> and then two hexadecimal digits per byte (for an
  address in the mixed case of EIP-55), and different values print differently.
\<close>

record common_lib =
  IsHexAddress :: "string \<Rightarrow> bool"
  HexToAddress :: "string \<Rightarrow> address"
  AddressHex :: "address \<Rightarrow> string"
  HexToHash :: "string \<Rightarrow> hash"
  BytesToHash :: "byte list \<Rightarrow> hash"
  HashHex :: "hash \<Rightarrow> string"
  AvaxSender :: "ext_tx \<Rightarrow> go_error + address"
  EthSender :: "ext_tx \<Rightarrow> go_error + address"

definition hash_hex_law :: "common_lib \<Rightarrow> bool" where
  "hash_hex_law L \<longleftrightarrow>
     (\<exists>bytes. inj bytes \<and> (\<forall>h. length (bytes h) = 32 \<and> HashHex L h = ''0x'' @ EncodeToString (bytes h)))"

definition address_hex_law :: "common_lib \<Rightarrow> bool" where
  "address_hex_law L \<longleftrightarrow>
     (\<exists>bytes. inj bytes \<and> (\<forall>a. length (bytes a) = 20 \<and>
        take 2 (AddressHex L a) = ''0x'' \<and>
        ToLower (drop 2 (AddressHex L a)) = EncodeToString (bytes a)))"

subsection \<open>\<^verbatim>\<open>ChainType\<close> and the wrapped values\<close>

definition ChainTypeAvax :: int where "ChainTypeAvax = 1"
definition ChainTypeEth :: int where "ChainTypeEth = 2"

definition ChainIDFlare :: int where "ChainIDFlare = 14"
definition ChainIDSongbird :: int where "ChainIDSongbird = 19"
definition ChainIDCoston :: int where "ChainIDCoston = 16"
definition ChainIDCoston2 :: int where "ChainIDCoston2 = 114"

text \<open>\<^verbatim>\<open>ChainID(chainID.Int64())\<close>: the low 64 bits, as a signed number.\<close>

definition ChainIDFromBigInt :: "int \<Rightarrow> int" where
  "ChainIDFromBigInt n = sint (word_of_int n :: 64 word)"

datatype 'a chained = AvaxData 'a | EthData 'a | NoData

type_synonym block = "ext_block chained"
type_synonym header = "ext_header chained"
type_synonym receipt = "ext_receipt chained"
type_synonym transaction = "ext_tx chained"

text \<open>A \<^verbatim>\<open>*big.Int\<close> result is \<open>None\<close> where the code returns nil.\<close>

fun Header_Number :: "header \<Rightarrow> int option" where
  "Header_Number (AvaxData h) = Some (hd_number h)"
| "Header_Number (EthData h) = Some (hd_number h)"
| "Header_Number NoData = None"

fun Header_Time :: "header \<Rightarrow> u64" where
  "Header_Time (AvaxData h) = hd_time h"
| "Header_Time (EthData h) = hd_time h"
| "Header_Time NoData = 0"

fun Block_Number :: "block \<Rightarrow> int option" where
  "Block_Number (AvaxData b) = Some (bk_number b)"
| "Block_Number (EthData b) = Some (bk_number b)"
| "Block_Number NoData = None"

fun Block_Time :: "block \<Rightarrow> u64" where
  "Block_Time (AvaxData b) = bk_time b"
| "Block_Time (EthData b) = bk_time b"
| "Block_Time NoData = 0"

fun Block_Hash :: "block \<Rightarrow> hash" where
  "Block_Hash (AvaxData b) = bk_hash b"
| "Block_Hash (EthData b) = bk_hash b"
| "Block_Hash NoData = 0"

fun Block_Transactions :: "block \<Rightarrow> transaction list" where
  "Block_Transactions (AvaxData b) = map AvaxData (bk_txs b)"
| "Block_Transactions (EthData b) = map EthData (bk_txs b)"
| "Block_Transactions NoData = []"

fun Receipt_Status :: "receipt \<Rightarrow> u64" where
  "Receipt_Status (AvaxData r) = rc_status r"
| "Receipt_Status (EthData r) = rc_status r"
| "Receipt_Status NoData = 0"

text \<open>
  The struct conversion \<^verbatim>\<open>avxTypes.Log(*e)\<close> of the Ethereum branch copies every field;
  both log types are observed through \<open>ext_log\<close>.
\<close>

definition avx_log :: "ext_log \<Rightarrow> ext_log" where
  "avx_log e = \<lparr>lg_address = lg_address e, lg_topics = lg_topics e, lg_data = lg_data e,
     lg_block_number = lg_block_number e, lg_tx_hash = lg_tx_hash e, lg_index = lg_index e\<rparr>"

fun Receipt_Logs :: "receipt \<Rightarrow> ext_log list" where
  "Receipt_Logs (AvaxData r) = rc_logs r"
| "Receipt_Logs (EthData r) = map avx_log (rc_logs r)"
| "Receipt_Logs NoData = []"

fun Tx_Hash :: "transaction \<Rightarrow> hash" where
  "Tx_Hash (AvaxData t) = tx_hash t"
| "Tx_Hash (EthData t) = tx_hash t"
| "Tx_Hash NoData = 0"

fun Tx_To :: "transaction \<Rightarrow> address option" where
  "Tx_To (AvaxData t) = tx_to t"
| "Tx_To (EthData t) = tx_to t"
| "Tx_To NoData = None"

fun Tx_Data :: "transaction \<Rightarrow> byte list" where
  "Tx_Data (AvaxData t) = tx_data t"
| "Tx_Data (EthData t) = tx_data t"
| "Tx_Data NoData = []"

fun Tx_ChainId :: "transaction \<Rightarrow> int option" where
  "Tx_ChainId (AvaxData t) = Some (tx_chain_id t)"
| "Tx_ChainId (EthData t) = Some (tx_chain_id t)"
| "Tx_ChainId NoData = None"

fun Tx_Value :: "transaction \<Rightarrow> int option" where
  "Tx_Value (AvaxData t) = Some (tx_value t)"
| "Tx_Value (EthData t) = Some (tx_value t)"
| "Tx_Value NoData = None"

fun Tx_GasPrice :: "transaction \<Rightarrow> int option" where
  "Tx_GasPrice (AvaxData t) = Some (tx_gas_price t)"
| "Tx_GasPrice (EthData t) = Some (tx_gas_price t)"
| "Tx_GasPrice NoData = None"

fun Tx_Gas :: "transaction \<Rightarrow> u64" where
  "Tx_Gas (AvaxData t) = tx_gas t"
| "Tx_Gas (EthData t) = tx_gas t"
| "Tx_Gas NoData = 0"

fun Tx_FromAddress :: "common_lib \<Rightarrow> transaction \<Rightarrow> go_error + address" where
  "Tx_FromAddress L (AvaxData t) = AvaxSender L t"
| "Tx_FromAddress L (EthData t) = EthSender L t"
| "Tx_FromAddress L NoData = Inl (ErrMsg ''wrong chain'')"

text \<open>\<^verbatim>\<open>x.Uint64()\<close> of a \<^verbatim>\<open>*big.Int\<close>: the low 64 bits; a nil receiver panics.\<close>

definition big_Uint64 :: "int option \<Rightarrow> go_error + u64" where
  "big_Uint64 n = (case n of None \<Rightarrow> Inl (Panic ''nil *big.Int'') | Some i \<Rightarrow> Inr (word_of_int i))"

lemma big_Uint64_simps [simp]:
  "big_Uint64 (Some i) = Inr (word_of_int i)" "big_Uint64 None = Inl (Panic ''nil *big.Int'')"
  by (simp_all add: big_Uint64_def)

lemma avx_log_id [simp]: "avx_log e = e"
  by (simp add: avx_log_def)

lemma map_avx_log [simp]: "map avx_log es = es"
  by (simp add: map_idI)

text \<open>
  The two chain types are interchangeable: the code reads the same data from a block
  whichever client delivered it.
\<close>

definition untag :: "'a chained \<Rightarrow> 'a option" where
  "untag v = (case v of AvaxData a \<Rightarrow> Some a | EthData a \<Rightarrow> Some a | NoData \<Rightarrow> None)"

lemma untag_simps [simp]:
  "untag (AvaxData a) = Some a" "untag (EthData a) = Some a" "untag NoData = None"
  by (simp_all add: untag_def)

lemma untag_reads:
  "untag b = Some x \<Longrightarrow> Block_Number b = Some (bk_number x) \<and> Block_Time b = bk_time x \<and>
     Block_Hash b = bk_hash x \<and> map untag (Block_Transactions b) = map Some (bk_txs x)"
  by (cases b) auto

lemma untag_header: "untag h = Some x \<Longrightarrow> Header_Number h = Some (hd_number x) \<and> Header_Time h = hd_time x"
  by (cases h) auto

lemma untag_receipt: "untag r = Some x \<Longrightarrow> Receipt_Status r = rc_status x \<and> Receipt_Logs r = rc_logs x"
  by (cases r) auto

lemma untag_tx:
  "untag t = Some x \<Longrightarrow> Tx_Hash t = tx_hash x \<and> Tx_To t = tx_to x \<and> Tx_Data t = tx_data x \<and>
     Tx_Value t = Some (tx_value x) \<and> Tx_GasPrice t = Some (tx_gas_price x) \<and> Tx_Gas t = tx_gas x"
  by (cases t) auto

end
