(* ===== verification/Config.thy ===== *)
theory Config
  imports Chain_Types
begin

text \<open>
  The configuration, \<^verbatim>\<open>internal/config\<close>: its records, the defaults and checks of
  \<^verbatim>\<open>config.go\<close>, the environment overrides, and the merging of the user's collectors with
  the built-in FSP ones (\<^verbatim>\<open>merge.go\<close>, \<^verbatim>\<open>fsp_defaults.go\<close>). The TOML decoder, the
  environment and the ABIs of the bound contracts are parameters. Left out are the
  floating-point \<^verbatim>\<open>NoNewBlocksDelayWarning\<close>, which only times a warning; the parsing of URLs is a
  parameter.
\<close>

subsection \<open>Records\<close>

record TransactionInfo =
  TxContractAddress :: string
  TxContractName :: string
  TxFuncSig :: string
  TxStatus :: bool
  TxCollectEvents :: bool

record LogInfo =
  LogContractAddress :: string
  LogContractName :: string
  LogTopic :: string

record IndexerConfig =
  BatchSize :: u64
  StartIndex :: u64
  StopIndex :: u64
  Mode :: string
  HistoryEpochs :: u64
  RpcConcurrency :: int
  LogRange :: u64
  NewBlockCheckMillis :: int
  CollectTransactions :: "TransactionInfo list"
  CollectLogs :: "LogInfo list"
  Confirmations :: u64

record DBConfig =
  Host :: string
  Port :: int
  Database :: string
  Username :: string
  Password :: string
  LogQueries :: bool
  HistoryDrop :: "u64 option"
  DropTableAtStart :: bool

record ChainConfig =
  NodeURL :: string
  APIKey :: string
  CfgChainType :: int

record TimeoutConfig =
  BackoffMaxElapsedTimeSeconds :: "int option"
  RPCTimeoutMillis :: int

record LoggerConfig =
  Level :: string
  File :: string
  MaxFileSize :: int
  Console :: bool

record Config =
  DB :: DBConfig
  Logger :: LoggerConfig
  Chain :: ChainConfig
  Indexer :: IndexerConfig
  Timeout :: TimeoutConfig

definition IndexerModeFull :: string where "IndexerModeFull = ''full''"
definition IndexerModeFsp :: string where "IndexerModeFsp = ''fsp''"

definition IsFspMode :: "IndexerConfig \<Rightarrow> bool" where
  "IsFspMode c \<longleftrightarrow> Mode c = IndexerModeFsp"

subsection \<open>History drop\<close>

definition day :: nat where "day = 24 * 60 * 60"

definition mainnetMinHistoryDropSeconds :: u64 where "mainnetMinHistoryDropSeconds = of_nat (14 * day)"
definition testnetMinHistoryDropSeconds :: u64 where "testnetMinHistoryDropSeconds = of_nat (2 * day)"
definition maxHistoryDropSeconds :: u64 where "maxHistoryDropSeconds = of_nat (3650 * day)"

definition minHistoryDropSecondsByChain :: "int \<Rightarrow> u64 option" where
  "minHistoryDropSecondsByChain =
     (\<lambda>_. None)(ChainIDFlare \<mapsto> mainnetMinHistoryDropSeconds, ChainIDSongbird \<mapsto> mainnetMinHistoryDropSeconds,
                ChainIDCoston \<mapsto> testnetMinHistoryDropSeconds, ChainIDCoston2 \<mapsto> testnetMinHistoryDropSeconds)"

definition GetHistoryDrop :: "DBConfig \<Rightarrow> int \<Rightarrow> go_error + u64" where
  "GetHistoryDrop db chainIDBig =
     (let minHistoryDropSeconds =
            (case minHistoryDropSecondsByChain (ChainIDFromBigInt chainIDBig) of
               None \<Rightarrow> mainnetMinHistoryDropSeconds | Some s \<Rightarrow> s)
      in case HistoryDrop db of
           None \<Rightarrow> Inr minHistoryDropSeconds
         | Some historyDrop \<Rightarrow>
             if historyDrop \<noteq> 0 \<and> historyDrop < minHistoryDropSeconds
             then Inl (ErrMsg ''history drop too small'')
             else if maxHistoryDropSeconds < historyDrop
             then Inl (ErrMsg ''history drop too large'')
             else Inr historyDrop)"

text \<open>
  C27: history drop is either disabled, by an explicit 0 only, or it keeps at least 14 days
  on every chain but the two test chains (2 days there), and at most ten years.
\<close>

theorem history_drop_bounds:
  assumes "GetHistoryDrop db chainID = Inr secs"
  shows "secs = 0 \<and> HistoryDrop db = Some 0 \<or>
    (if ChainIDFromBigInt chainID \<in> {ChainIDCoston, ChainIDCoston2} then 2 * day else 14 * day) \<le> unat secs \<and>
    unat secs \<le> 3650 * day"
proof -
  have n: "unat (mainnetMinHistoryDropSeconds) = 14 * day" "unat testnetMinHistoryDropSeconds = 2 * day"
    "unat maxHistoryDropSeconds = 3650 * day"
    by (simp_all add: mainnetMinHistoryDropSeconds_def testnetMinHistoryDropSeconds_def maxHistoryDropSeconds_def day_def)
  then have o: "mainnetMinHistoryDropSeconds \<le> maxHistoryDropSeconds" "testnetMinHistoryDropSeconds \<le> maxHistoryDropSeconds"
    by (simp_all add: word_le_nat_alt day_def)
  define m where "m = (if ChainIDFromBigInt chainID \<in> {ChainIDCoston, ChainIDCoston2}
      then testnetMinHistoryDropSeconds else mainnetMinHistoryDropSeconds)"
  have "(case minHistoryDropSecondsByChain (ChainIDFromBigInt chainID) of
      None \<Rightarrow> mainnetMinHistoryDropSeconds | Some s \<Rightarrow> s) = m"
    by (auto simp: minHistoryDropSecondsByChain_def m_def ChainIDFlare_def ChainIDSongbird_def
        ChainIDCoston_def ChainIDCoston2_def)
  with assms o have "secs = 0 \<and> HistoryDrop db = Some 0 \<or> m \<le> secs \<and> secs \<le> maxHistoryDropSeconds"
    by (auto simp: GetHistoryDrop_def Let_def m_def not_less split: option.splits if_splits)
  with n show ?thesis by (auto simp: m_def word_le_nat_alt)
qed

subsection \<open>Building the configuration\<close>

definition defaultConfirmations :: u64 where "defaultConfirmations = 1"
definition defaultIndexerMode :: string where "defaultIndexerMode = IndexerModeFull"
definition defaultLogRange :: u64 where "defaultLogRange = 1000"
definition defaultRpcConcurrency :: int where "defaultRpcConcurrency = 100"
definition defaultBatchSize :: u64 where "defaultBatchSize = 1000"
definition maxHistoryEpochs :: u64 where "maxHistoryEpochs = 1000"

text \<open>\<^verbatim>\<open>strconv.Atoi\<close>: an optional sign and decimal digits, in the range of a 64-bit int.\<close>

definition digit_val :: "char \<Rightarrow> nat option" where
  "digit_val c = (if 48 \<le> code c \<and> code c \<le> 57 then Some (code c - 48) else None)"

primrec parse_digits :: "nat \<Rightarrow> string \<Rightarrow> nat option" where
  "parse_digits n [] = Some n"
| "parse_digits n (c # s) = (case digit_val c of None \<Rightarrow> None | Some d \<Rightarrow> parse_digits (10 * n + d) s)"

definition Atoi :: "string \<Rightarrow> go_error + int" where
  "Atoi s =
     (let neg = (s \<noteq> [] \<and> code (hd s) = 45);
          digits = (if s \<noteq> [] \<and> code (hd s) \<in> {43, 45} then tl s else s)
      in if digits = [] then Inl (ErrMsg ''invalid syntax'')
         else case parse_digits 0 digits of
                None \<Rightarrow> Inl (ErrMsg ''invalid syntax'')
              | Some n \<Rightarrow>
                  if (if neg then n \<le> 9223372036854775808 else n < 9223372036854775808)
                  then Inr (if neg then - int n else int n)
                  else Inl (ErrMsg ''value out of range''))"

datatype env_var = DB_HOST | DB_PORT | DB_DATABASE | DB_USERNAME | DB_PASSWORD | NODE_URL | NODE_API_KEY

fun envOverride :: "env_var \<Rightarrow> Config \<Rightarrow> string \<Rightarrow> Config" where
  "envOverride DB_HOST c v = c\<lparr>DB := (DB c)\<lparr>Host := v\<rparr>\<rparr>"
| "envOverride DB_PORT c v = (case Atoi v of Inr port \<Rightarrow> c\<lparr>DB := (DB c)\<lparr>Port := port\<rparr>\<rparr> | Inl _ \<Rightarrow> c)"
| "envOverride DB_DATABASE c v = c\<lparr>DB := (DB c)\<lparr>Database := v\<rparr>\<rparr>"
| "envOverride DB_USERNAME c v = c\<lparr>DB := (DB c)\<lparr>Username := v\<rparr>\<rparr>"
| "envOverride DB_PASSWORD c v = c\<lparr>DB := (DB c)\<lparr>Password := v\<rparr>\<rparr>"
| "envOverride NODE_URL c v = c\<lparr>Chain := (Chain c)\<lparr>NodeURL := v\<rparr>\<rparr>"
| "envOverride NODE_API_KEY c v = c\<lparr>Chain := (Chain c)\<lparr>APIKey := v\<rparr>\<rparr>"

text \<open>The code ranges over a Go map, whose \<open>order\<close> is not specified.\<close>

definition applyEnvOverrides :: "env_var list \<Rightarrow> (env_var \<Rightarrow> string option) \<Rightarrow> Config \<Rightarrow> Config" where
  "applyEnvOverrides order env cfg =
     fold (\<lambda>e c. case env e of None \<Rightarrow> c | Some val \<Rightarrow> envOverride e c val) order cfg"

lemma envOverride_commute:
  "e \<noteq> e' \<Longrightarrow> envOverride e (envOverride e' c v') v = envOverride e' (envOverride e c v) v'"
  by (cases e; cases e') (auto split: sum.split)

text \<open>
  C29: the environment overrides do not depend on the order in which Go walks the map of
  overrides: any two orders of the same variables give the same configuration.
\<close>

theorem env_overrides_any_order:
  assumes "mset order = mset order'" and "distinct order"
  shows "applyEnvOverrides order env cfg = applyEnvOverrides order' env cfg"
proof -
  have d: "distinct order'" using assms mset_eq_imp_distinct_iff by blast
  define f where "f = (\<lambda>e c. case env e of None \<Rightarrow> c | Some val \<Rightarrow> envOverride e c val)"
  have com: "f e \<circ> f e' = f e' \<circ> f e" for e e'
    by (cases "e = e'") (auto simp: f_def fun_eq_iff envOverride_commute split: option.split)
  have "fold f order = fold f order'" by (rule fold_multiset_equiv [OF _ assms(1)]) (rule com)
  then show ?thesis by (simp add: applyEnvOverrides_def f_def [symmetric])
qed

subsection \<open>The collectors of FSP mode\<close>

text \<open>
  \<^verbatim>\<open>fsp_defaults.go\<close>. \<open>abi\<close> is the parameter for the ABIs of the bound contracts: the topic
  of an event of a contract. A missing event panics when the package is loaded.
\<close>

type_synonym abi = "string \<Rightarrow> string \<Rightarrow> string option"

definition fspCollectTransactions :: "TransactionInfo list" where
  "fspCollectTransactions =
     [\<lparr>TxContractAddress = '''', TxContractName = ''Submission'', TxFuncSig = ''6c532fae'', TxStatus = False, TxCollectEvents = False\<rparr>,
      \<lparr>TxContractAddress = '''', TxContractName = ''Submission'', TxFuncSig = ''9d00c9fd'', TxStatus = False, TxCollectEvents = False\<rparr>,
      \<lparr>TxContractAddress = '''', TxContractName = ''Submission'', TxFuncSig = ''57eed580'', TxStatus = False, TxCollectEvents = False\<rparr>,
      \<lparr>TxContractAddress = '''', TxContractName = ''Relay'', TxFuncSig = ''b59589d1'', TxStatus = True, TxCollectEvents = True\<rparr>]"

definition getTopic :: "abi \<Rightarrow> string \<Rightarrow> string \<Rightarrow> go_error + string" where
  "getTopic abi meta eventName =
     (case abi meta eventName of None \<Rightarrow> Inl (Panic ''event not found in ABI'') | Some t \<Rightarrow> Inr t)"

definition named_log :: "string \<Rightarrow> string \<Rightarrow> LogInfo" where
  "named_log name topic = \<lparr>LogContractAddress = '''', LogContractName = name, LogTopic = topic\<rparr>"

definition rewardEpochEvents :: "(string \<times> string \<times> string) list" where
  "rewardEpochEvents =
     [(''FlareSystemsManager'', ''system'', ''VotePowerBlockSelected''),
      (''FlareSystemsManager'', ''system'', ''RandomAcquisitionStarted''),
      (''FlareSystemsManager'', ''system'', ''RewardEpochStarted''),
      (''FlareSystemsManager'', ''system'', ''SignUptimeVoteEnabled''),
      (''FlareSystemsManager'', ''system'', ''UptimeVoteSigned''),
      (''VoterRegistry'', ''registry'', ''VoterRegistered''),
      (''FlareSystemsCalculator'', ''calculator'', ''VoterRegistrationInfo''),
      (''Relay'', ''relay'', ''SigningPolicyInitialized''),
      (''FtsoRewardOffersManager'', ''offers'', ''InflationRewardsOffered''),
      (''FtsoRewardOffersManager'', ''offers'', ''RewardsOffered''),
      (''FastUpdateIncentiveManager'', ''fumanager'', ''InflationRewardsOffered''),
      (''FdcHub'', ''fdchub'', ''InflationRewardsOffered'')]"

definition rewardEpochLogs :: "abi \<Rightarrow> go_error + LogInfo list" where
  "rewardEpochLogs abi =
     bindR (foldR (\<lambda>ls (name, meta, event).
              bindR (getTopic abi meta event) (\<lambda>t. Inr (ls @ [named_log name t]))) [] rewardEpochEvents) (\<lambda>ls.
       Inr (ls @
         [named_log ''VoterRegistry'' ''0xbfb6cd90b6e2668916d9e034926c84f40bcf94094b0d625ec8eecfdeb2150ae1'',
          named_log ''FlareSystemsCalculator'' ''0xc49a5cabcc0776ace8cfd024e155bc303ee5e492b29d59f1ff7dbafa0b34a04b'']))"

definition roundLogs :: "LogInfo list" where
  "roundLogs = [named_log ''FastUpdater'' '''', named_log ''FastUpdateIncentiveManager'' '''', named_log ''FdcHub'' '''']"

text \<open>The lists are handed out as copies.\<close>

definition FspCollectTransactions :: "TransactionInfo list" where
  [simp]: "FspCollectTransactions = fspCollectTransactions"

definition FspRewardEpochLogs :: "LogInfo list \<Rightarrow> LogInfo list" where
  [simp]: "FspRewardEpochLogs rewardLogs = rewardLogs"

definition FspRoundLogs :: "LogInfo list" where
  [simp]: "FspRoundLogs = roundLogs"

text \<open>The keys under which two collectors are the same.\<close>

definition contractDedupKey :: "string \<Rightarrow> string \<Rightarrow> string" where
  "contractDedupKey contractAddress contractName =
     (let name = ToLower (TrimSpace contractName) in
      if name \<noteq> '''' then ''name:'' @ name
      else ''addr:'' @ ToLower (TrimSpace contractAddress))"

definition txDedupKey :: "TransactionInfo \<Rightarrow> string" where
  "txDedupKey tx =
     contractDedupKey (TxContractAddress tx) (TxContractName tx) @ ''|sig:'' @
       TrimPrefix (ToLower (TrimSpace (TxFuncSig tx))) ''0x''"

definition logDedupKey :: "LogInfo \<Rightarrow> string" where
  "logDedupKey log =
     contractDedupKey (LogContractAddress log) (LogContractName log) @ ''|topic:'' @
       ToLower (TrimSpace (LogTopic log))"

definition mergeTxInfo :: "TransactionInfo \<Rightarrow> TransactionInfo \<Rightarrow> TransactionInfo" where
  "mergeTxInfo base additional =
     \<lparr>TxContractAddress = (if TrimSpace (TxContractAddress base) = '''' then TxContractAddress additional else TxContractAddress base),
      TxContractName = (if TrimSpace (TxContractName base) = '''' then TxContractName additional else TxContractName base),
      TxFuncSig = (if TrimSpace (TxFuncSig base) = '''' then TxFuncSig additional else TxFuncSig base),
      TxStatus = (TxStatus base \<or> TxStatus additional),
      TxCollectEvents = (TxCollectEvents base \<or> TxCollectEvents additional)\<rparr>"

definition mergeLogInfo :: "LogInfo \<Rightarrow> LogInfo \<Rightarrow> LogInfo" where
  "mergeLogInfo base additional =
     \<lparr>LogContractAddress = (if TrimSpace (LogContractAddress base) = '''' then LogContractAddress additional else LogContractAddress base),
      LogContractName = (if TrimSpace (LogContractName base) = '''' then LogContractName additional else LogContractName base),
      LogTopic = (if TrimSpace (LogTopic base) = '''' then LogTopic additional else LogTopic base)\<rparr>"

text \<open>
  The list of collectors with the map from key to index that the code keeps beside it:
  \<open>index_of\<close> builds the map, \<open>add_collector\<close> is the body of the code's three loops.
\<close>

definition index_of :: "('c \<Rightarrow> string) \<Rightarrow> 'c list \<Rightarrow> string \<Rightarrow> nat option" where
  "index_of key cs = fold (\<lambda>i ix. ix(key (cs ! i) \<mapsto> i)) [0..<length cs] (\<lambda>_. None)"

definition add_collector ::
  "('c \<Rightarrow> string) \<Rightarrow> ('c \<Rightarrow> 'c \<Rightarrow> 'c) \<Rightarrow> 'c \<Rightarrow> 'c list \<times> (string \<Rightarrow> nat option) \<Rightarrow> 'c list \<times> (string \<Rightarrow> nat option)" where
  "add_collector key merge user = (\<lambda>(cs, ix).
     case ix (key user) of
       Some i \<Rightarrow> (cs[i := merge (cs ! i) user], ix)
     | None \<Rightarrow> (cs @ [user], ix(key user \<mapsto> length cs)))"

definition merge_collectors ::
  "('c \<Rightarrow> string) \<Rightarrow> ('c \<Rightarrow> 'c \<Rightarrow> 'c) \<Rightarrow> 'c list \<Rightarrow> 'c list \<Rightarrow> 'c list" where
  "merge_collectors key merge base users =
     fst (fold (add_collector key merge) users (base, index_of key base))"

definition FspCollectLogs :: "LogInfo list \<Rightarrow> LogInfo list" where
  "FspCollectLogs rewardLogs = merge_collectors logDedupKey (\<lambda>old _. old) (FspRewardEpochLogs rewardLogs) FspRoundLogs"

definition mergeFspCollectors ::
  "LogInfo list \<Rightarrow> TransactionInfo list \<Rightarrow> LogInfo list \<Rightarrow> TransactionInfo list \<times> LogInfo list" where
  "mergeFspCollectors rewardLogs userTxs userLogs =
     (merge_collectors txDedupKey mergeTxInfo FspCollectTransactions userTxs,
      merge_collectors logDedupKey mergeLogInfo (FspCollectLogs rewardLogs) userLogs)"

definition normalizeIndexerConfig :: "LogInfo list \<Rightarrow> IndexerConfig \<Rightarrow> go_error + IndexerConfig" where
  "normalizeIndexerConfig rewardLogs cfg =
     (let mode = ToLower (TrimSpace (Mode cfg));
          cfg = cfg\<lparr>Mode := if mode = '''' then defaultIndexerMode else mode\<rparr>
      in if Mode cfg \<noteq> IndexerModeFull \<and> Mode cfg \<noteq> IndexerModeFsp
         then Inl (ErrMsg ''invalid indexer mode'')
         else
           let cfg = (if Mode cfg = IndexerModeFsp
                      then (let (txs, logs) = mergeFspCollectors rewardLogs (CollectTransactions cfg) (CollectLogs cfg)
                            in cfg\<lparr>CollectTransactions := txs, CollectLogs := logs\<rparr>)
                      else cfg)
           in if maxHistoryEpochs < HistoryEpochs cfg then Inl (ErrMsg ''indexer.history_epochs too large'')
              else Inr (cfg\<lparr>LogRange := if LogRange cfg = 0 then defaultLogRange else LogRange cfg,
                            RpcConcurrency := if RpcConcurrency cfg \<le> 0 then defaultRpcConcurrency else RpcConcurrency cfg,
                            BatchSize := if BatchSize cfg = 0 then defaultBatchSize else BatchSize cfg\<rparr>))"

text \<open>
  \<^verbatim>\<open>parseConfigFile\<close> decodes the file over the defaults; \<open>decode\<close> returns the decoded
  configuration with the keys that it did not use.
\<close>

definition renamedKeys :: "string \<Rightarrow> string option" where
  "renamedKeys = (\<lambda>_. None)(''indexer.num_parallel_req'' \<mapsto> ''indexer.rpc_concurrency'',
                            ''timeout.timeout_millis'' \<mapsto> ''timeout.rpc_timeout_millis'')"

definition parseConfigFile :: "(Config \<Rightarrow> go_error + Config \<times> string list) \<Rightarrow> Config \<Rightarrow> go_error + Config" where
  "parseConfigFile decode cfg =
     bindR (wrapR ''error parsing config file'' (decode cfg)) (\<lambda>(cfg, undecoded).
       if \<exists>key \<in> set undecoded. renamedKeys key \<noteq> None then Inl (ErrMsg ''config key has been renamed'')
       else Inr cfg)"

definition defaultConfig :: Config where
  "defaultConfig =
     \<lparr>DB = \<lparr>Host = '''', Port = 0, Database = '''', Username = '''', Password = '''', LogQueries = False,
            HistoryDrop = None, DropTableAtStart = False\<rparr>,
      Logger = \<lparr>Level = '''', File = '''', MaxFileSize = 0, Console = False\<rparr>,
      Chain = \<lparr>NodeURL = '''', APIKey = '''', CfgChainType = ChainTypeAvax\<rparr>,
      Indexer = \<lparr>BatchSize = defaultBatchSize, StartIndex = 0, StopIndex = 0, Mode = defaultIndexerMode,
                 HistoryEpochs = 0, RpcConcurrency = defaultRpcConcurrency, LogRange = defaultLogRange,
                 NewBlockCheckMillis = 0, CollectTransactions = [], CollectLogs = [],
                 Confirmations = defaultConfirmations\<rparr>,
      Timeout = \<lparr>BackoffMaxElapsedTimeSeconds = None, RPCTimeoutMillis = 0\<rparr>\<rparr>"

definition BuildConfig ::
  "LogInfo list \<Rightarrow> (Config \<Rightarrow> go_error + Config \<times> string list) \<Rightarrow> env_var list \<Rightarrow> (env_var \<Rightarrow> string option) \<Rightarrow>
   go_error + Config" where
  "BuildConfig rewardLogs decode order env =
     bindR (parseConfigFile decode defaultConfig) (\<lambda>cfg.
       let cfg = applyEnvOverrides order env cfg in
       bindR (normalizeIndexerConfig rewardLogs (Indexer cfg)) (\<lambda>indexer. Inr (cfg\<lparr>Indexer := indexer\<rparr>)))"

text \<open>
  \<^verbatim>\<open>FullNodeURL\<close>: the parsing of a URL and the setting of a query parameter in it are
  parameters of the model.
\<close>

definition FullNodeURL ::
  "(string \<Rightarrow> go_error + 'u) \<Rightarrow> (string \<Rightarrow> string \<Rightarrow> 'u \<Rightarrow> 'u) \<Rightarrow> ChainConfig \<Rightarrow> go_error + 'u" where
  "FullNodeURL url_Parse set_query cc =
     bindR (wrapR ''error parsing node url'' (url_Parse (NodeURL cc))) (\<lambda>u.
       Inr (if APIKey cc \<noteq> '''' then set_query ''x-apikey'' (APIKey cc) u else u))"

subsection \<open>Callbacks\<close>

text \<open>\<^verbatim>\<open>callback.go\<close>: the callbacks run in the order in which they were added.\<close>

definition AddCallback :: "('t \<Rightarrow> 's \<Rightarrow> 's) \<Rightarrow> ('t \<Rightarrow> 's \<Rightarrow> 's) list \<Rightarrow> ('t \<Rightarrow> 's \<Rightarrow> 's) list" where
  "AddCallback f callbacks = callbacks @ [f]"

definition Call :: "('t \<Rightarrow> 's \<Rightarrow> 's) list \<Rightarrow> 't \<Rightarrow> 's \<Rightarrow> 's" where
  "Call callbacks config = fold (\<lambda>gc. gc config) callbacks"

text \<open>What the callbacks are given: the interface \<^verbatim>\<open>GlobalConfig\<close>, which \<^verbatim>\<open>Config\<close> implements.\<close>

record GlobalConfig =
  gc_LoggerConfig :: LoggerConfig
  gc_TimeoutConfig :: TimeoutConfig

definition Config_LoggerConfig :: "Config \<Rightarrow> LoggerConfig" where "Config_LoggerConfig c = Logger c"
definition Config_TimeoutConfig :: "Config \<Rightarrow> TimeoutConfig" where "Config_TimeoutConfig c = Timeout c"

definition as_GlobalConfig :: "Config \<Rightarrow> GlobalConfig" where
  "as_GlobalConfig c = \<lparr>gc_LoggerConfig = Config_LoggerConfig c, gc_TimeoutConfig = Config_TimeoutConfig c\<rparr>"

text \<open>
  The package variables \<^verbatim>\<open>BackoffMaxElapsedTime\<close> and \<^verbatim>\<open>RPCTimeout\<close>, in nanoseconds, the
  directories that were asked for and the configuration of the logger; and the callback that \<^verbatim>\<open>init\<close>
  registers. A duration is a signed 64-bit number; whether a directory could be made is ignored.
\<close>

record settings =
  BackoffMaxElapsedTime :: int
  RPCTimeout :: int
  MadeDirs :: "string list"
  LoggerSet :: "LoggerConfig option"

definition duration :: "int \<Rightarrow> int" where
  "duration n = sint (word_of_int n :: 64 word)"

definition default_settings :: settings where
  "default_settings =
     \<lparr>BackoffMaxElapsedTime = 5 * 60 * 1000000000, RPCTimeout = 5 * 1000000000, MadeDirs = [], LoggerSet = None\<rparr>"

definition init_callback :: "GlobalConfig \<Rightarrow> settings \<Rightarrow> settings" where
  "init_callback config s =
     (let tCfg = gc_TimeoutConfig config;
          s = (case BackoffMaxElapsedTimeSeconds tCfg of
                 None \<Rightarrow> s | Some n \<Rightarrow> s\<lparr>BackoffMaxElapsedTime := duration (n * 1000000000)\<rparr>);
          s = (if 0 < RPCTimeoutMillis tCfg then s\<lparr>RPCTimeout := duration (RPCTimeoutMillis tCfg * 1000000)\<rparr> else s);
          loggerCfg = gc_LoggerConfig config;
          s = (if File loggerCfg \<noteq> '''' then s\<lparr>MadeDirs := MadeDirs s @ [filepath_Dir (File loggerCfg)]\<rparr> else s)
      in s\<lparr>LoggerSet := Some loggerCfg\<rparr>)"

subsection \<open>Merging collectors\<close>

text \<open>
  What both merges rely on: merging two collectors of one key gives a collector of that
  key. From it: the merged list has each key once, exactly the keys of the built-in and
  the user's collectors, and an attribute that a merge combines by \<^verbatim>\<open>||\<close> is set for a key
  exactly when some collector of the key sets it.
\<close>

locale collectors =
  fixes key :: "'c \<Rightarrow> string"
    and merge :: "'c \<Rightarrow> 'c \<Rightarrow> 'c"
    and plain :: "'c \<Rightarrow> bool"
  assumes merge_key: "plain a \<Longrightarrow> plain b \<Longrightarrow> key a = key b \<Longrightarrow> key (merge a b) = key a"
    and merge_plain: "plain a \<Longrightarrow> plain b \<Longrightarrow> plain (merge a b)"
begin

definition indexed :: "'c list \<times> (string \<Rightarrow> nat option) \<Rightarrow> bool" where
  "indexed = (\<lambda>(cs, ix). (\<forall>k i. ix k = Some i \<longleftrightarrow> i < length cs \<and> key (cs ! i) = k) \<and> (\<forall>c \<in> set cs. plain c))"

lemma indexed_distinct: "indexed (cs, ix) \<Longrightarrow> distinct (map key cs)"
  by (auto simp: indexed_def distinct_conv_nth) (metis option.inject)

lemma index_of_indexed:
  assumes "distinct (map key cs)" and "\<forall>c \<in> set cs. plain c"
  shows "indexed (cs, index_of key cs)"
proof -
  have "fold (\<lambda>i ix. ix(key (cs ! i) \<mapsto> i)) [0..<n] (\<lambda>_. None) k = Some i \<longleftrightarrow> i < n \<and> key (cs ! i) = k"
    if "n \<le> length cs" for n k i
    using that
  proof (induction n)
    case (Suc n)
    have "key (cs ! i) \<noteq> key (cs ! n)" if "i < n" for i
      using assms(1) Suc.prems that by (auto simp: distinct_conv_nth)
    with Suc show ?case by (auto simp: less_Suc_eq)
  qed simp
  with assms(2) show ?thesis by (simp add: indexed_def index_of_def)
qed

lemma add_collector_indexed:
  assumes "indexed (cs, ix)" and "plain u"
  shows "indexed (add_collector key merge u (cs, ix))"
proof (cases "ix (key u)")
  case None
  have ix: "ix k = Some i \<longleftrightarrow> i < length cs \<and> key (cs ! i) = k" for k i
    using assms(1) by (simp add: indexed_def)
  have fresh: "key (cs ! i) \<noteq> key u" if "i < length cs" for i
    using ix [of "key u" i] None that by simp
  have "(ix(key u \<mapsto> length cs)) k = Some i \<longleftrightarrow>
      i < length (cs @ [u]) \<and> key ((cs @ [u]) ! i) = k" for k i
    by (cases "i < length cs"; cases "k = key u") (auto simp: nth_append less_Suc_eq ix fresh)
  moreover have "\<forall>c \<in> set (cs @ [u]). plain c" using assms by (simp add: indexed_def)
  ultimately show ?thesis using None by (simp add: add_collector_def indexed_def)
next
  case (Some i)
  then have i: "i < length cs" "key (cs ! i) = key u" "plain (cs ! i)"
    using assms(1) by (auto simp: indexed_def)
  then have "key (cs[i := merge (cs ! i) u] ! j) = key (cs ! j)" if "j < length cs" for j
    using assms(2) that by (auto simp: nth_list_update merge_key)
  moreover have "\<forall>c \<in> set (cs[i := merge (cs ! i) u]). plain c"
    using assms i by (auto simp: indexed_def merge_plain dest!: subsetD [OF set_update_subset_insert])
  moreover have "ix k = Some j \<longleftrightarrow> j < length cs \<and> key (cs ! j) = k" for k j
    using assms(1) by (simp add: indexed_def)
  ultimately show ?thesis by (auto simp: add_collector_def indexed_def Some)
qed

definition has :: "('c \<Rightarrow> bool) \<Rightarrow> string \<Rightarrow> 'c list \<Rightarrow> bool" where
  "has attr k cs \<longleftrightarrow> (\<exists>c \<in> set cs. key c = k \<and> attr c)"

lemma has_append [simp]: "has attr k (cs @ ds) \<longleftrightarrow> has attr k cs \<or> has attr k ds"
  by (auto simp: has_def)

lemma has_Cons [simp]: "has attr k (c # cs) \<longleftrightarrow> key c = k \<and> attr c \<or> has attr k cs"
  by (auto simp: has_def)

lemma has_Nil [simp]: "\<not> has attr k []"
  by (simp add: has_def)

lemma has_nth: "has attr k cs \<longleftrightarrow> (\<exists>j < length cs. key (cs ! j) = k \<and> attr (cs ! j))"
  unfolding has_def by (metis in_set_conv_nth)

lemma add_collector_has:
  assumes "indexed (cs, ix)" and "plain u" and attr: "\<And>a b. attr (merge a b) \<longleftrightarrow> attr a \<or> attr b"
  shows "has attr k (fst (add_collector key merge u (cs, ix))) \<longleftrightarrow> has attr k (cs @ [u])"
proof (cases "ix (key u)")
  case None
  then show ?thesis by (simp add: add_collector_def)
next
  case (Some i)
  then have i: "i < length cs" "key (cs ! i) = key u" "plain (cs ! i)"
    using assms(1) by (auto simp: indexed_def)
  have k: "key (merge (cs ! i) u) = key u" using i assms(2) by (simp add: merge_key)
  have "key (cs[i := merge (cs ! i) u] ! j) = k \<and> attr (cs[i := merge (cs ! i) u] ! j) \<longleftrightarrow>
      key (cs ! j) = k \<and> attr (cs ! j) \<or> j = i \<and> key u = k \<and> attr u" if "j < length cs" for j
    using that i k attr by (auto simp: nth_list_update)
  then have "has attr k (cs[i := merge (cs ! i) u]) \<longleftrightarrow> has attr k cs \<or> key u = k \<and> attr u"
    using i(1) by (auto simp: has_nth)
  then show ?thesis using Some by (simp add: add_collector_def)
qed

lemma fold_add_collector:
  assumes "indexed (cs, ix)" and "\<forall>u \<in> set us. plain u" and "\<And>a b. attr (merge a b) \<longleftrightarrow> attr a \<or> attr b"
  shows "indexed (fold (add_collector key merge) us (cs, ix)) \<and>
    (\<forall>k. has attr k (fst (fold (add_collector key merge) us (cs, ix))) \<longleftrightarrow> has attr k (cs @ us))"
  using assms(1,2)
proof (induction us arbitrary: cs ix)
  case (Cons u us)
  obtain cs' ix' where a: "add_collector key merge u (cs, ix) = (cs', ix')" by force
  with Cons.prems have "indexed (cs', ix')" using add_collector_indexed [of cs ix u] by simp
  moreover have "has attr k cs' \<longleftrightarrow> has attr k (cs @ [u])" for k
    using add_collector_has [where attr = attr, OF Cons.prems(1) _ assms(3), of u k] Cons.prems(2) a by simp
  ultimately show ?case using Cons.IH [of cs' ix'] Cons.prems(2) a by auto
qed simp

theorem merge_collectors_spec:
  assumes "distinct (map key base)" and "\<forall>c \<in> set (base @ us). plain c"
    and "\<And>a b. attr (merge a b) \<longleftrightarrow> attr a \<or> attr b"
  shows "distinct (map key (merge_collectors key merge base us))"
    and "\<forall>c \<in> set (merge_collectors key merge base us). plain c"
    and "has attr k (merge_collectors key merge base us) \<longleftrightarrow> has attr k (base @ us)"
proof -
  have ix: "indexed (base, index_of key base)" using assms(1,2) by (simp add: index_of_indexed)
  obtain cs' ix' where r: "fold (add_collector key merge) us (base, index_of key base) = (cs', ix')" by force
  then have m: "merge_collectors key merge base us = cs'" by (simp add: merge_collectors_def)
  from fold_add_collector [where attr = attr and us = us, OF ix _ assms(3)] assms(2) r
  have "indexed (cs', ix')" "has attr k cs' \<longleftrightarrow> has attr k (base @ us)" by auto
  then show "distinct (map key (merge_collectors key merge base us))"
    and "\<forall>c \<in> set (merge_collectors key merge base us). plain c"
    and "has attr k (merge_collectors key merge base us) \<longleftrightarrow> has attr k (base @ us)"
    using indexed_distinct by (auto simp: m indexed_def)
qed

end

text \<open>Keys are joined with \<^verbatim>\<open>|\<close>; in collectors without this character they cannot be confused.\<close>

definition no_bar :: "string \<Rightarrow> bool" where
  "no_bar s \<longleftrightarrow> CHR 0x7C \<notin> set s"

definition tx_plain :: "TransactionInfo \<Rightarrow> bool" where
  "tx_plain t \<longleftrightarrow> no_bar (TxContractAddress t) \<and> no_bar (TxContractName t)"

definition log_plain :: "LogInfo \<Rightarrow> bool" where
  "log_plain l \<longleftrightarrow> no_bar (LogContractAddress l) \<and> no_bar (LogContractName l)"

lemma set_TrimSpace: "set (TrimSpace s) \<subseteq> set s"
  by (auto simp: TrimSpace_def dest!: set_dropWhileD)

lemma lower_char_bar: "lower_char c = CHR 0x7C \<Longrightarrow> c = CHR 0x7C"
proof -
  assume l: "lower_char c = CHR 0x7C"
  have "code (lower_char c) = 124" by (simp add: l)
  then have "code c = code (CHR 0x7C)" by (auto split: if_splits)
  then show ?thesis by (metis char_of_char)
qed

lemma no_bar_norm: "no_bar s \<Longrightarrow> no_bar (ToLower (TrimSpace s))"
proof (unfold no_bar_def, rule notI)
  assume n: "CHR 0x7C \<notin> set s" and "CHR 0x7C \<in> set (ToLower (TrimSpace s))"
  then obtain c where "c \<in> set (TrimSpace s)" "lower_char c = CHR 0x7C" by (auto simp: ToLower_def)
  with n show False using lower_char_bar set_TrimSpace [of s] by blast
qed

lemma no_bar_append [simp]: "no_bar (s @ t) \<longleftrightarrow> no_bar s \<and> no_bar t"
  by (simp add: no_bar_def)

lemma no_bar_key: "no_bar a \<Longrightarrow> no_bar n \<Longrightarrow> no_bar (contractDedupKey a n)"
  using no_bar_norm by (simp add: contractDedupKey_def Let_def) (simp add: no_bar_def)

lemma split_at_bar:
  "no_bar p \<Longrightarrow> no_bar p' \<Longrightarrow> p @ CHR 0x7C # q = p' @ CHR 0x7C # q' \<Longrightarrow> p = p' \<and> q = q'"
  unfolding no_bar_def
proof (induction p arbitrary: p')
  case Nil
  then show ?case by (cases p') auto
next
  case (Cons c p)
  then show ?case by (cases p') auto
qed

lemma ToLower_Nil [simp]: "ToLower s = [] \<longleftrightarrow> s = []"
  by (simp add: ToLower_def)

text \<open>The contract part of a merged key: the blank fields of the one are filled from the other.\<close>

lemma contract_key_merge:
  assumes "contractDedupKey a n = contractDedupKey a' n'"
  shows "contractDedupKey (if TrimSpace a = '''' then a' else a) (if TrimSpace n = '''' then n' else n) =
    contractDedupKey a n"
  using assms by (auto simp: contractDedupKey_def Let_def split: if_splits)

lemma contract_plain_merge:
  "no_bar a \<Longrightarrow> no_bar a' \<Longrightarrow> no_bar (if TrimSpace b = '''' then a' else a)"
  by simp

interpretation tx_collectors: collectors txDedupKey mergeTxInfo tx_plain
proof
  fix a b assume plain: "tx_plain a" "tx_plain b" and eq: "txDedupKey a = txDedupKey b"
  let ?c = "\<lambda>x. contractDedupKey (TxContractAddress x) (TxContractName x)"
  let ?s = "\<lambda>x. ''sig:'' @ TrimPrefix (ToLower (TrimSpace (TxFuncSig x))) ''0x''"
  have "?c a @ CHR 0x7C # ?s a = ?c b @ CHR 0x7C # ?s b" using eq by (simp add: txDedupKey_def)
  then have "?c a = ?c b \<and> ?s a = ?s b"
    using plain by (intro split_at_bar no_bar_key) (simp_all add: tx_plain_def)
  then have c: "contractDedupKey (TxContractAddress a) (TxContractName a) = contractDedupKey (TxContractAddress b) (TxContractName b)"
    and s: "TrimPrefix (ToLower (TrimSpace (TxFuncSig a))) ''0x'' = TrimPrefix (ToLower (TrimSpace (TxFuncSig b))) ''0x''"
    by simp_all
  show "txDedupKey (mergeTxInfo a b) = txDedupKey a"
    using contract_key_merge [OF c] s by (simp add: txDedupKey_def mergeTxInfo_def)
qed (simp add: tx_plain_def mergeTxInfo_def)

interpretation log_collectors: collectors logDedupKey mergeLogInfo log_plain
proof
  fix a b assume plain: "log_plain a" "log_plain b" and eq: "logDedupKey a = logDedupKey b"
  let ?c = "\<lambda>x. contractDedupKey (LogContractAddress x) (LogContractName x)"
  let ?s = "\<lambda>x. ''topic:'' @ ToLower (TrimSpace (LogTopic x))"
  have "?c a @ CHR 0x7C # ?s a = ?c b @ CHR 0x7C # ?s b" using eq by (simp add: logDedupKey_def)
  then have "?c a = ?c b \<and> ?s a = ?s b"
    using plain by (intro split_at_bar no_bar_key) (simp_all add: log_plain_def)
  then have c: "contractDedupKey (LogContractAddress a) (LogContractName a) = contractDedupKey (LogContractAddress b) (LogContractName b)"
    and s: "ToLower (TrimSpace (LogTopic a)) = ToLower (TrimSpace (LogTopic b))"
    by simp_all
  show "logDedupKey (mergeLogInfo a b) = logDedupKey a"
    using contract_key_merge [OF c] s by (simp add: logDedupKey_def mergeLogInfo_def)
qed (simp add: log_plain_def mergeLogInfo_def)

interpretation round_collectors: collectors logDedupKey "\<lambda>old _. old" log_plain
  by unfold_locales auto

lemma fsp_defaults_distinct: "distinct (map txDedupKey fspCollectTransactions)"
  by code_simp

lemma fsp_defaults_plain: "\<forall>t \<in> set fspCollectTransactions. tx_plain t"
  by code_simp

lemma round_logs_plain: "\<forall>l \<in> set roundLogs. log_plain l"
  by code_simp

context collectors
begin

lemma has_key: "has (\<lambda>_. True) k cs \<longleftrightarrow> k \<in> key ` set cs"
  by (auto simp: has_def)

end

text \<open>
  C16: merging the user's collectors into the built-in FSP ones loses none of either and
  lists none twice: the merged keys are exactly the keys of both lists, each once, and the
  status and events flags of a transaction key are set exactly when some collector of that
  key sets them. (Names and addresses must not contain the separator of the keys, and the
  built-in log collectors must differ in their topics.)
\<close>

theorem fsp_merge_combines:
  assumes "mergeFspCollectors rewardLogs userTxs userLogs = (txs, logs)"
    and "\<forall>t \<in> set userTxs. tx_plain t" and "\<forall>l \<in> set (rewardLogs @ userLogs). log_plain l"
    and "distinct (map logDedupKey rewardLogs)"
  shows "distinct (map txDedupKey txs) \<and>
    txDedupKey ` set txs = txDedupKey ` set (fspCollectTransactions @ userTxs) \<and>
    (\<forall>m \<in> set txs.
      TxStatus m = (\<exists>t \<in> set (fspCollectTransactions @ userTxs). txDedupKey t = txDedupKey m \<and> TxStatus t) \<and>
      TxCollectEvents m = (\<exists>t \<in> set (fspCollectTransactions @ userTxs). txDedupKey t = txDedupKey m \<and> TxCollectEvents t)) \<and>
    distinct (map logDedupKey logs) \<and>
    logDedupKey ` set logs = logDedupKey ` set (rewardLogs @ roundLogs @ userLogs)"
proof -
  have txs: "txs = merge_collectors txDedupKey mergeTxInfo fspCollectTransactions userTxs"
    and logs: "logs = merge_collectors logDedupKey mergeLogInfo (FspCollectLogs rewardLogs) userLogs"
    using assms(1) by (auto simp: mergeFspCollectors_def)
  have tp: "\<forall>t \<in> set (fspCollectTransactions @ userTxs). tx_plain t"
    using assms(2) fsp_defaults_plain by auto
  note spec = tx_collectors.merge_collectors_spec [OF fsp_defaults_distinct tp, folded txs]
  have d: "distinct (map txDedupKey txs)" by (rule spec(1) [of "\<lambda>_. True"]) simp
  have keys: "k \<in> txDedupKey ` set txs \<longleftrightarrow> k \<in> txDedupKey ` set (fspCollectTransactions @ userTxs)" for k
    unfolding tx_collectors.has_key [symmetric] by (rule spec(3)) simp
  have attr: "P m \<longleftrightarrow> tx_collectors.has P (txDedupKey m) txs" if "m \<in> set txs" for P m
    using d that by (auto simp: tx_collectors.has_def distinct_map dest: inj_onD)
  have st: "tx_collectors.has TxStatus k txs \<longleftrightarrow> tx_collectors.has TxStatus k (fspCollectTransactions @ userTxs)" for k
    by (rule spec(3)) (simp add: mergeTxInfo_def)
  have ev: "tx_collectors.has TxCollectEvents k txs \<longleftrightarrow> tx_collectors.has TxCollectEvents k (fspCollectTransactions @ userTxs)" for k
    by (rule spec(3)) (simp add: mergeTxInfo_def)
  have rp: "\<forall>l \<in> set (rewardLogs @ roundLogs). log_plain l" using assms(3) round_logs_plain by auto
  note rspec = round_collectors.merge_collectors_spec [OF assms(4) rp,
      folded FspCollectLogs_def [unfolded FspRewardEpochLogs_def FspRoundLogs_def]]
  have rd: "distinct (map logDedupKey (FspCollectLogs rewardLogs))" "\<forall>l \<in> set (FspCollectLogs rewardLogs). log_plain l"
    by (rule rspec(1,2) [of "\<lambda>_. True"], simp)+
  have rk: "k \<in> logDedupKey ` set (FspCollectLogs rewardLogs) \<longleftrightarrow> k \<in> logDedupKey ` set (rewardLogs @ roundLogs)" for k
    unfolding round_collectors.has_key [symmetric] by (rule rspec(3)) simp
  have lp: "\<forall>l \<in> set (FspCollectLogs rewardLogs @ userLogs). log_plain l" using assms(3) rd(2) by auto
  note lspec = log_collectors.merge_collectors_spec [OF rd(1) lp, folded logs]
  have ld: "distinct (map logDedupKey logs)" by (rule lspec(1) [of "\<lambda>_. True"]) simp
  have lk: "k \<in> logDedupKey ` set logs \<longleftrightarrow> k \<in> logDedupKey ` set (FspCollectLogs rewardLogs @ userLogs)" for k
    unfolding log_collectors.has_key [symmetric] by (rule lspec(3)) simp
  have "txDedupKey ` set txs = txDedupKey ` set (fspCollectTransactions @ userTxs)"
    using keys by blast
  moreover have "logDedupKey ` set logs = logDedupKey ` set (rewardLogs @ roundLogs @ userLogs)"
    using lk rk by (simp only: set_append image_Un set_eq_iff Un_iff) blast
  moreover have "TxStatus m = tx_collectors.has TxStatus (txDedupKey m) (fspCollectTransactions @ userTxs)"
    "TxCollectEvents m = tx_collectors.has TxCollectEvents (txDedupKey m) (fspCollectTransactions @ userTxs)"
    if "m \<in> set txs" for m
    using attr [OF that, of TxStatus] attr [OF that, of TxCollectEvents] st ev by simp_all
  ultimately show ?thesis using d ld unfolding tx_collectors.has_def by blast
qed

definition submission_user :: TransactionInfo where
  "submission_user = \<lparr>TxContractAddress = [], TxContractName = '' submission'', TxFuncSig = ''0x6C532FAE'',
     TxStatus = True, TxCollectEvents = False\<rparr>"

theorem fsp_merge_combines_witness:
  "let (txs, logs) = mergeFspCollectors [named_log ''Relay'' ''0x01''] [submission_user] [named_log ''FdcHub'' ''0x02'']
   in distinct (map txDedupKey txs) \<and> distinct (map logDedupKey logs) \<and>
      txDedupKey submission_user \<in> txDedupKey ` set txs"
proof -
  obtain txs logs where m: "mergeFspCollectors [named_log ''Relay'' ''0x01''] [submission_user]
      [named_log ''FdcHub'' ''0x02''] = (txs, logs)" by force
  have u: "\<forall>t \<in> set [submission_user]. tx_plain t" by code_simp
  have l: "\<forall>l \<in> set ([named_log ''Relay'' ''0x01''] @ [named_log ''FdcHub'' ''0x02'']). log_plain l"
    by code_simp
  have k: "distinct (map logDedupKey [named_log ''Relay'' ''0x01''])" by simp
  note c = fsp_merge_combines [OF m u l k]
  have d: "distinct (map txDedupKey txs) \<and>
      txDedupKey ` set txs = txDedupKey ` set (fspCollectTransactions @ [submission_user]) \<and>
      distinct (map logDedupKey logs)"
    using c [THEN conjunct1] c [THEN conjunct2, THEN conjunct1]
      c [THEN conjunct2, THEN conjunct2, THEN conjunct2, THEN conjunct1] by (intro conjI)
  then have "txDedupKey submission_user \<in> txDedupKey ` set txs" by simp
  with d show ?thesis by (simp add: m)
qed

subsection \<open>What a built configuration guarantees\<close>

text \<open>
  C26: a configuration that \<open>BuildConfig\<close> accepts is usable as it is: its mode is one of
  the two, \<^verbatim>\<open>history_epochs\<close> is at most 1000, and no zero batch size, log range or
  concurrency is left that would make the indexing loops stand still; in FSP mode it
  collects everything the built-in collectors name.
\<close>

theorem built_config_usable:
  assumes "BuildConfig rewardLogs decode order env = Inr cfg"
  shows "Mode (Indexer cfg) \<in> {IndexerModeFull, IndexerModeFsp} \<and>
    unat (HistoryEpochs (Indexer cfg)) \<le> 1000 \<and> 0 < BatchSize (Indexer cfg) \<and>
    0 < LogRange (Indexer cfg) \<and> 0 < RpcConcurrency (Indexer cfg) \<and>
    (IsFspMode (Indexer cfg) \<longrightarrow>
       (\<exists>userTxs userLogs. (CollectTransactions (Indexer cfg), CollectLogs (Indexer cfg)) =
          mergeFspCollectors rewardLogs userTxs userLogs))"
proof -
  from assms obtain c0 ind where n: "normalizeIndexerConfig rewardLogs c0 = Inr ind" and i: "Indexer cfg = ind"
    by (auto simp: BuildConfig_def Let_def)
  have w: "(0 < k) = (k \<noteq> 0)" for k :: u64 by (simp add: word_gt_0)
  from n have "Mode ind \<in> {IndexerModeFull, IndexerModeFsp}" "HistoryEpochs ind \<le> maxHistoryEpochs"
    "BatchSize ind \<noteq> 0" "LogRange ind \<noteq> 0" "0 < RpcConcurrency ind"
    by (auto simp: normalizeIndexerConfig_def Let_def defaultBatchSize_def defaultLogRange_def
        defaultRpcConcurrency_def split: if_splits prod.splits)
  moreover have "\<exists>userTxs userLogs. (CollectTransactions ind, CollectLogs ind) =
      mergeFspCollectors rewardLogs userTxs userLogs" if "Mode ind = IndexerModeFsp"
    using n that
    by (auto simp: normalizeIndexerConfig_def Let_def split: if_splits prod.splits
        intro!: exI [of _ "CollectTransactions c0"] exI [of _ "CollectLogs c0"])
  ultimately show ?thesis
    by (auto simp: i w IsFspMode_def word_le_nat_alt maxHistoryEpochs_def)
qed

lemma built_default_config:
  "BuildConfig [] (\<lambda>c. Inr (c, [])) [DB_HOST] (\<lambda>_. None) = Inr defaultConfig"
  by code_simp

theorem built_config_usable_witness: "0 < BatchSize (Indexer defaultConfig) \<and> 0 < LogRange (Indexer defaultConfig)"
  using built_config_usable [OF built_default_config] by blast

theorem history_drop_bounds_witness:
  "14 * day \<le> unat (mainnetMinHistoryDropSeconds)"
proof -
  have "ChainIDFromBigInt 14 = ChainIDFlare" by code_simp
  then have id: "ChainIDFromBigInt 14 = 14" by (simp add: ChainIDFlare_def)
  have none: "HistoryDrop (DB defaultConfig) = None" by (simp add: defaultConfig_def)
  have "GetHistoryDrop (DB defaultConfig) 14 = Inr mainnetMinHistoryDropSeconds"
    by (simp add: GetHistoryDrop_def id none minHistoryDropSecondsByChain_def ChainIDFlare_def
        ChainIDSongbird_def ChainIDCoston_def ChainIDCoston2_def)
  from history_drop_bounds [OF this] none id show ?thesis
    by (simp add: ChainIDCoston_def ChainIDCoston2_def)
qed

theorem env_overrides_any_order_witness:
  "applyEnvOverrides [DB_HOST, DB_PORT] (\<lambda>_. Some ''1'') defaultConfig =
   applyEnvOverrides [DB_PORT, DB_HOST] (\<lambda>_. Some ''1'') defaultConfig"
  by (rule env_overrides_any_order) simp_all

end
