(* ===== verification/Boff.thy ===== *)
theory Boff
  imports Prelude
begin

text \<open>
  Retrying with exponential backoff, \<^verbatim>\<open>internal/boff/backoff.go\<close>. \<^verbatim>\<open>backoff.Retry\<close> of
  \<^verbatim>\<open>cenkalti/backoff\<close> is a parameter: given the maximal elapsed time and an operation it
  attempts the operation until it succeeds or the backoff ends. Logging is left out.
\<close>

type_synonym ('s, 'a) backoff_retry = "nat \<Rightarrow> ('s, 'a) io \<Rightarrow> ('s, 'a) io"

definition retry :: "('s, 'a) backoff_retry \<Rightarrow> ('s, 'a) io \<Rightarrow> nat \<Rightarrow> ('s, 'a) io" where
  "retry backoff_Retry operation maxElapsedTime = backoff_Retry maxElapsedTime operation"

definition RetryWithMaxElapsed ::
  "('s, 'a) backoff_retry \<Rightarrow> nat \<Rightarrow> ('s, 'a) io \<Rightarrow> ('s, 'a) io" where
  "RetryWithMaxElapsed backoff_Retry BackoffMaxElapsedTime operation =
     retry backoff_Retry operation BackoffMaxElapsedTime"

definition Retry :: "('s, 'a) backoff_retry \<Rightarrow> ('s, 'a) io \<Rightarrow> ('s, 'a) io" where
  "Retry backoff_Retry operation = retry backoff_Retry operation 0"

definition RetryNoReturn :: "('s, unit) backoff_retry \<Rightarrow> ('s, unit) io \<Rightarrow> ('s, unit) io" where
  "RetryNoReturn backoff_Retry operation =
     bindE (Retry backoff_Retry (bindE operation (\<lambda>_. ret ()))) (\<lambda>_. ret ())"

text \<open>
  \<open>attempts n m\<close>: \<open>m\<close> is run until it succeeds, at most \<open>n + 1\<close> times. What the code relies
  on: some number of attempts is made, and the call succeeds exactly when the last attempt
  did, with its result (on failure the error may be that of the cancelled context).
\<close>

primrec attempts :: "nat \<Rightarrow> ('s, 'a) io \<Rightarrow> ('s, 'a) io" where
  "attempts 0 m = m"
| "attempts (Suc n) m = (\<lambda>s. case m s of (Inr x, s') \<Rightarrow> (Inr x, s') | (Inl _, s') \<Rightarrow> attempts n m s')"

definition same_outcome :: "go_error + 'a \<Rightarrow> go_error + 'a \<Rightarrow> bool" where
  "same_outcome r r' \<longleftrightarrow> r = r' \<or> (\<exists>e e'. r = Inl e \<and> r' = Inl e')"

locale retrier =
  fixes backoff_Retry :: "('s, 'a) backoff_retry"
  assumes retry_law:
    "backoff_Retry maxElapsed m s = (r, s') \<Longrightarrow> \<exists>n r'. attempts n m s = (r', s') \<and> same_outcome r r'"
begin

lemma attempts_triple:
  "triple I m Q (\<lambda>_. I) \<Longrightarrow> triple I (attempts n m) Q (\<lambda>_. I)"
proof (induction n)
  case (Suc n)
  then have IH: "triple I (attempts n m) Q (\<lambda>_. I)" by simp
  show ?case
    unfolding triple_def
  proof (intro allI impI)
    fix s r s' assume s: "I s" and run: "attempts (Suc n) m s = (r, s')"
    obtain r1 s1 where m: "m s = (r1, s1)" by force
    show "case r of Inl e \<Rightarrow> I s' | Inr x \<Rightarrow> Q x s'"
    proof (cases r1)
      case (Inl e)
      then have "I s1" using triple_Inl [OF Suc.prems s] m by simp
      moreover have "attempts n m s1 = (r, s')" using run m Inl by simp
      ultimately show ?thesis using IH by (auto simp: triple_def)
    next
      case (Inr x)
      then show ?thesis using run m triple_Inr [OF Suc.prems s] by auto
    qed
  qed
qed simp

text \<open>A retried operation does what one of its attempts does, after failed ones.\<close>

lemma retry_triple:
  assumes "triple I m Q (\<lambda>_. I)"
  shows "triple I (backoff_Retry maxElapsed m) Q (\<lambda>_. I)"
  unfolding triple_def
proof (intro allI impI)
  fix s r s' assume s: "I s" and run: "backoff_Retry maxElapsed m s = (r, s')"
  from retry_law [OF run] obtain n r' where "attempts n m s = (r', s')" "same_outcome r r'"
    by blast
  with attempts_triple [OF assms, of n] s show "case r of Inl e \<Rightarrow> I s' | Inr x \<Rightarrow> Q x s'"
    by (fastforce simp: triple_def same_outcome_def split: sum.splits)
qed

lemma RetryWithMaxElapsed_triple:
  "triple I m Q (\<lambda>_. I) \<Longrightarrow> triple I (RetryWithMaxElapsed backoff_Retry t m) Q (\<lambda>_. I)"
  by (simp add: RetryWithMaxElapsed_def retry_def retry_triple)

lemma Retry_triple: "triple I m Q (\<lambda>_. I) \<Longrightarrow> triple I (Retry backoff_Retry m) Q (\<lambda>_. I)"
  by (simp add: Retry_def retry_def retry_triple)

end

text \<open>A retrier that gives up after a fixed number of failed attempts.\<close>

definition bounded_retry :: "nat \<Rightarrow> ('s, 'a) backoff_retry" where
  "bounded_retry n maxElapsed m = attempts n m"

interpretation bounded: retrier "bounded_retry n"
  by unfold_locales (auto simp: bounded_retry_def same_outcome_def)

end
