(* ===== verification/Store.thy ===== *)
theory Store
  imports Chain_Types
begin

text \<open>
  The database of the indexer: the rows of \<^verbatim>\<open>internal/database/entities.go\<close>, the statements
  the code sends through GORM as a parameter (\<open>store\<close>), and, as the locale
  \<open>relational_store\<close>, what the code relies on of GORM and MySQL. A law says what a
  statement does to the four tables when it takes effect; every statement may also fail,
  in any outside state, and leave the tables as they were, or fail after it took effect
  (a connection lost before the reply).
\<close>

subsection \<open>Rows\<close>

type_synonym state_name = string

definition ChainTip :: state_name where "ChainTip = ''last_chain_block''"
definition LastIndexed :: state_name where "LastIndexed = ''last_database_block''"
definition BlockFloor :: state_name where "BlockFloor = ''first_database_block''"
definition LogFloor :: state_name where "LogFloor = ''first_database_log_block''"

lemma state_names_distinct [simp]:
  "ChainTip \<noteq> LastIndexed" "ChainTip \<noteq> BlockFloor" "ChainTip \<noteq> LogFloor"
  "LastIndexed \<noteq> ChainTip" "LastIndexed \<noteq> BlockFloor" "LastIndexed \<noteq> LogFloor"
  "BlockFloor \<noteq> ChainTip" "BlockFloor \<noteq> LastIndexed" "BlockFloor \<noteq> LogFloor"
  "LogFloor \<noteq> ChainTip" "LogFloor \<noteq> LastIndexed" "LogFloor \<noteq> BlockFloor"
  by (simp_all add: ChainTip_def LastIndexed_def BlockFloor_def LogFloor_def)

text \<open>
  A row of \<^verbatim>\<open>states\<close>, without its name (the unique key of the table) and the wall-clock
  time of its last write. \<open>zero_state\<close> is Go's zero value.
\<close>

record state_row =
  Index :: u64
  BlockTimestamp :: u64

definition zero_state :: state_row where
  "zero_state = \<lparr>Index = 0, BlockTimestamp = 0\<rparr>"

text \<open>
  Rows of \<^verbatim>\<open>blocks\<close> and \<^verbatim>\<open>logs\<close> have an automatic primary key, which the code never reads;
  \<^verbatim>\<open>TransactionID\<close> 0 is stored as NULL (\<^verbatim>\<open>default:null\<close>).
\<close>

record db_block =
  b_hash :: string
  b_number :: u64
  b_timestamp :: u64

record db_tx =
  t_id :: u64
  t_hash :: string
  t_function_sig :: string
  t_input :: string
  t_block_number :: u64
  t_block_hash :: string
  t_transaction_index :: u64
  t_from_address :: string
  t_to_address :: string
  t_status :: u64
  t_value :: string
  t_gas_price :: string
  t_gas :: u64
  t_timestamp :: u64

record db_log =
  l_transaction_id :: u64
  l_address :: string
  l_data :: string
  l_topic0 :: string
  l_topic1 :: string
  l_topic2 :: string
  l_topic3 :: string
  l_transaction_hash :: string
  l_log_index :: u64
  l_timestamp :: u64
  l_block_number :: u64

subsection \<open>Tables\<close>

text \<open>The tables, each in the order of its primary key.\<close>

record tables =
  tb_states :: "state_name \<Rightarrow> state_row option"
  tb_blocks :: "db_block list"
  tb_txs :: "db_tx list"
  tb_logs :: "db_log list"

definition empty_tables :: tables where
  "empty_tables = \<lparr>tb_states = (\<lambda>_. None), tb_blocks = [], tb_txs = [], tb_logs = []\<rparr>"

text \<open>\<^verbatim>\<open>INSERT ... ON DUPLICATE KEY UPDATE\<close>, \<^verbatim>\<open>DO NOTHING\<close> and the conditional \<^verbatim>\<open>UPDATE\<close>.\<close>

definition upsert_state :: "state_name \<Rightarrow> u64 \<Rightarrow> u64 \<Rightarrow> tables \<Rightarrow> tables" where
  "upsert_state n i ts tb =
     tb\<lparr>tb_states := (tb_states tb)(n \<mapsto> \<lparr>Index = i, BlockTimestamp = ts\<rparr>)\<rparr>"

definition create_state :: "state_name \<Rightarrow> u64 \<Rightarrow> u64 \<Rightarrow> tables \<Rightarrow> tables" where
  "create_state n i ts tb = (case tb_states tb n of None \<Rightarrow> upsert_state n i ts tb | Some _ \<Rightarrow> tb)"

definition lower_state :: "state_name \<Rightarrow> u64 \<Rightarrow> u64 \<Rightarrow> tables \<Rightarrow> tables" where
  "lower_state n i ts tb =
     (case tb_states tb n of
        None \<Rightarrow> tb
      | Some r \<Rightarrow> if i < Index r then upsert_state n i ts tb else tb)"

text \<open>
  \<^verbatim>\<open>INSERT IGNORE\<close>: a row that breaks a unique key (the hash of a block; the id or the hash
  of a transaction; transaction hash and log index of a log) or a foreign key (a log's
  transaction) is skipped.
\<close>

definition ins_block :: "db_block \<Rightarrow> tables \<Rightarrow> tables" where
  "ins_block r tb =
     (if b_hash r \<in> b_hash ` set (tb_blocks tb) then tb
      else tb\<lparr>tb_blocks := tb_blocks tb @ [r]\<rparr>)"

definition ins_tx :: "db_tx \<Rightarrow> tables \<Rightarrow> tables" where
  "ins_tx r tb =
     (if t_hash r \<in> t_hash ` set (tb_txs tb) \<or> t_id r \<in> t_id ` set (tb_txs tb) then tb
      else tb\<lparr>tb_txs := tb_txs tb @ [r]\<rparr>)"

definition log_key :: "db_log \<Rightarrow> string \<times> u64" where
  "log_key r = (l_transaction_hash r, l_log_index r)"

definition ins_log :: "db_log \<Rightarrow> tables \<Rightarrow> tables" where
  "ins_log r tb =
     (if log_key r \<in> log_key ` set (tb_logs tb) \<or>
         l_transaction_id r \<noteq> 0 \<and> l_transaction_id r \<notin> t_id ` set (tb_txs tb)
      then tb else tb\<lparr>tb_logs := tb_logs tb @ [r]\<rparr>)"

text \<open>
  \<^verbatim>\<open>DELETE ... WHERE timestamp < ts LIMIT n\<close> removes \<open>k\<close> matching rows, as many as the
  limit allows, and does not say which. Deleting a transaction deletes its logs
  (\<^verbatim>\<open>OnDelete:CASCADE\<close>).
\<close>

definition deletes :: "nat \<Rightarrow> ('r \<Rightarrow> bool) \<Rightarrow> 'r list \<Rightarrow> nat \<Rightarrow> 'r list \<Rightarrow> bool" where
  "deletes lim P xs k ys \<longleftrightarrow>
     (\<exists>zs. mset xs = mset ys + mset zs \<and> length zs = k \<and> (\<forall>z \<in> set zs. P z)) \<and>
     filter (\<lambda>x. \<not> P x) ys = filter (\<lambda>x. \<not> P x) xs \<and> k = min lim (length (filter P xs))"

datatype entity = LogEntity | TransactionEntity | BlockEntity

fun delete_step :: "entity \<Rightarrow> nat \<Rightarrow> u64 \<Rightarrow> tables \<Rightarrow> nat \<Rightarrow> tables \<Rightarrow> bool" where
  "delete_step LogEntity lim ts tb k tb' \<longleftrightarrow>
     (\<exists>ys. deletes lim (\<lambda>r. l_timestamp r < ts) (tb_logs tb) k ys \<and> tb' = tb\<lparr>tb_logs := ys\<rparr>)"
| "delete_step BlockEntity lim ts tb k tb' \<longleftrightarrow>
     (\<exists>ys. deletes lim (\<lambda>r. b_timestamp r < ts) (tb_blocks tb) k ys \<and> tb' = tb\<lparr>tb_blocks := ys\<rparr>)"
| "delete_step TransactionEntity lim ts tb k tb' \<longleftrightarrow>
     (\<exists>ys. deletes lim (\<lambda>r. t_timestamp r < ts) (tb_txs tb) k ys \<and>
        tb' = tb\<lparr>tb_txs := ys, tb_logs := filter (\<lambda>r. l_transaction_id r = 0 \<or>
                   l_transaction_id r \<notin> t_id ` set (tb_txs tb) \<or> l_transaction_id r \<in> t_id ` set ys)
                 (tb_logs tb)\<rparr>)"

definition first_block_of :: "tables \<Rightarrow> db_block option" where
  "first_block_of tb =
     (case tb_blocks tb of [] \<Rightarrow> None | b # bs \<Rightarrow> Some (fold (\<lambda>r m. if b_number r < b_number m then r else m) bs b))"

definition first_log_of :: "tables \<Rightarrow> db_log option" where
  "first_log_of tb =
     (case tb_logs tb of [] \<Rightarrow> None | l # ls \<Rightarrow> Some (fold (\<lambda>r m. if l_block_number r < l_block_number m then r else m) ls l))"

definition last_row :: "'r list \<Rightarrow> 'r option" where
  "last_row rs = (case rev rs of [] \<Rightarrow> None | r # _ \<Rightarrow> Some r)"

text \<open>\<^verbatim>\<open>Last\<close> of \<^verbatim>\<open>transactions\<close>: the row with the greatest id.\<close>

definition last_tx_of :: "tables \<Rightarrow> db_tx option" where
  "last_tx_of tb =
     (case tb_txs tb of [] \<Rightarrow> None | t # ts \<Rightarrow> Some (fold (\<lambda>r m. if t_id m < t_id r then r else m) ts t))"

subsection \<open>The statements the code sends\<close>

record 'x store =
  s_upsert_state :: "state_name \<Rightarrow> u64 \<Rightarrow> u64 \<Rightarrow> ('x, unit) io"
  s_create_state :: "state_name \<Rightarrow> u64 \<Rightarrow> u64 \<Rightarrow> ('x, unit) io"
  s_lower_state :: "state_name \<Rightarrow> u64 \<Rightarrow> u64 \<Rightarrow> ('x, unit) io"
  s_first_state :: "state_name \<Rightarrow> ('x, state_row) io"
  s_find_states :: "state_name list \<Rightarrow> ('x, (state_name \<times> state_row) list) io"
  s_insert_blocks :: "nat \<Rightarrow> db_block list \<Rightarrow> ('x, unit) io"
  s_insert_txs :: "nat \<Rightarrow> db_tx list \<Rightarrow> ('x, unit) io"
  s_insert_logs :: "nat \<Rightarrow> db_log list \<Rightarrow> ('x, unit) io"
  s_delete :: "entity \<Rightarrow> nat \<Rightarrow> u64 \<Rightarrow> ('x, nat) io"
  s_first_block :: "('x, db_block) io"
  s_first_log :: "('x, db_log) io"
  s_last_block :: "('x, db_block) io"
  s_last_tx :: "('x, db_tx) io"
  s_transaction :: "('x, unit) io \<Rightarrow> ('x, unit) io"
  s_drop_tables :: "('x, unit) io"
  s_auto_migrate :: "('x, unit) io"

subsection \<open>What the code relies on\<close>

definition writes :: "('x \<Rightarrow> tables) \<Rightarrow> (tables \<Rightarrow> tables) \<Rightarrow> ('x, unit) io \<Rightarrow> bool" where
  "writes tabs f m \<longleftrightarrow>
     (\<forall>x r x'. m x = (r, x') \<longrightarrow>
        tabs x' = f (tabs x) \<or> tabs x' = tabs x \<and> (\<exists>e. r = Inl e))"

text \<open>A query answers from the tables; \<open>None\<close> is reported as \<^verbatim>\<open>ErrRecordNotFound\<close>.\<close>

definition reads :: "('x \<Rightarrow> tables) \<Rightarrow> (tables \<Rightarrow> 'a option) \<Rightarrow> ('x, 'a) io \<Rightarrow> bool" where
  "reads tabs g m \<longleftrightarrow>
     (\<forall>x r x'. m x = (r, x') \<longrightarrow> tabs x' = tabs x \<and>
        (\<forall>v. r = Inr v \<longrightarrow> g (tabs x) = Some v) \<and>
        (\<forall>e. r = Inl e \<longrightarrow> is_not_found e \<longrightarrow> g (tabs x) = None))"

locale relational_store =
  fixes db :: "'x store"
    and tabs :: "'x \<Rightarrow> tables"
  assumes upsert_law: "writes tabs (upsert_state n i ts) (s_upsert_state db n i ts)"
    and create_law: "writes tabs (create_state n i ts) (s_create_state db n i ts)"
    and lower_law: "writes tabs (lower_state n i ts) (s_lower_state db n i ts)"
    and first_state_law: "reads tabs (\<lambda>tb. tb_states tb n) (s_first_state db n)"
    and find_states_law:
      "\<And>ns x r x'. s_find_states db ns x = (r, x') \<Longrightarrow> tabs x' = tabs x \<and>
         (\<forall>rows. r = Inr rows \<longrightarrow>
            (\<forall>n. n \<in> set ns \<longrightarrow> map_of (rev rows) n = tb_states (tabs x) n) \<and>
            (\<forall>n. n \<notin> set ns \<longrightarrow> map_of (rev rows) n = None))"
    and insert_blocks_law: "writes tabs (fold ins_block bs) (s_insert_blocks db chunk bs)"
    and insert_txs_law: "writes tabs (fold ins_tx ts') (s_insert_txs db chunk ts')"
    and insert_logs_law: "writes tabs (fold ins_log ls) (s_insert_logs db chunk ls)"
    and delete_law:
      "\<And>e lim ts x r x'. s_delete db e lim ts x = (r, x') \<Longrightarrow>
         (\<exists>k. delete_step e lim ts (tabs x) k (tabs x') \<and> (\<forall>v. r = Inr v \<longrightarrow> v = k)) \<or>
         tabs x' = tabs x \<and> (\<exists>er. r = Inl er)"
    and first_block_law: "reads tabs first_block_of (s_first_block db)"
    and first_log_law: "reads tabs first_log_of (s_first_log db)"
    and last_block_law: "reads tabs (\<lambda>tb. last_row (tb_blocks tb)) (s_last_block db)"
    and last_tx_law: "reads tabs last_tx_of (s_last_tx db)"
    and transaction_law:
      "\<And>body x r x'. s_transaction db body x = (r, x') \<Longrightarrow>
         (\<exists>x0 x1. tabs x0 = tabs x \<and> body x0 = (Inr (), x1) \<and> tabs x' = tabs x1) \<or>
         tabs x' = tabs x \<and> (\<exists>e. r = Inl e)"
    and drop_tables_law: "\<And>x x'. s_drop_tables db x = (Inr (), x') \<Longrightarrow> tabs x' = empty_tables"
    and auto_migrate_law: "\<And>x r x'. s_auto_migrate db x = (r, x') \<Longrightarrow> tabs x' = tabs x"

subsection \<open>Facts on the tables\<close>

lemma writesD:
  "writes tabs f m \<Longrightarrow> m x = (r, x') \<Longrightarrow> tabs x' = f (tabs x) \<or> tabs x' = tabs x \<and> (\<exists>e. r = Inl e)"
  by (auto simp: writes_def)

lemma writes_Inr: "writes tabs f m \<Longrightarrow> m x = (Inr u, x') \<Longrightarrow> tabs x' = f (tabs x)"
  by (auto simp: writes_def)

lemma readsD: "reads tabs g m \<Longrightarrow> m x = (r, x') \<Longrightarrow> tabs x' = tabs x"
  by (auto simp: reads_def)

lemma reads_Inr: "reads tabs g m \<Longrightarrow> m x = (Inr v, x') \<Longrightarrow> tabs x' = tabs x \<and> g (tabs x) = Some v"
  by (auto simp: reads_def)

lemma reads_not_found:
  "reads tabs g m \<Longrightarrow> m x = (Inl e, x') \<Longrightarrow> is_not_found e \<Longrightarrow> tabs x' = tabs x \<and> g (tabs x) = None"
  by (auto simp: reads_def)

text \<open>A statement keeps every property of the tables that its effect keeps.\<close>

lemma writes_keeps:
  "writes tabs f m \<Longrightarrow> (\<And>x. I (tabs x) \<Longrightarrow> I (f (tabs x))) \<Longrightarrow> keeps (\<lambda>x. I (tabs x)) m"
  by (auto simp: triple_def writes_def split: sum.splits) metis+

lemma reads_keeps: "reads tabs g m \<Longrightarrow> keeps (\<lambda>x. I (tabs x)) m"
  by (auto simp: triple_def reads_def split: sum.splits)

lemma upsert_state_fields [simp]:
  "tb_states (upsert_state n i ts tb) = (tb_states tb)(n \<mapsto> \<lparr>Index = i, BlockTimestamp = ts\<rparr>)"
  "tb_blocks (upsert_state n i ts tb) = tb_blocks tb"
  "tb_txs (upsert_state n i ts tb) = tb_txs tb"
  "tb_logs (upsert_state n i ts tb) = tb_logs tb"
  by (simp_all add: upsert_state_def)

lemma create_state_fields [simp]:
  "tb_blocks (create_state n i ts tb) = tb_blocks tb"
  "tb_txs (create_state n i ts tb) = tb_txs tb"
  "tb_logs (create_state n i ts tb) = tb_logs tb"
  by (simp_all add: create_state_def split: option.split)

lemma lower_state_fields [simp]:
  "tb_blocks (lower_state n i ts tb) = tb_blocks tb"
  "tb_txs (lower_state n i ts tb) = tb_txs tb"
  "tb_logs (lower_state n i ts tb) = tb_logs tb"
  by (simp_all add: lower_state_def split: option.split)

lemma ins_block_fields [simp]:
  "tb_states (ins_block r tb) = tb_states tb" "tb_txs (ins_block r tb) = tb_txs tb"
  "tb_logs (ins_block r tb) = tb_logs tb"
  by (simp_all add: ins_block_def)

lemma ins_tx_fields [simp]:
  "tb_states (ins_tx r tb) = tb_states tb" "tb_blocks (ins_tx r tb) = tb_blocks tb"
  "tb_logs (ins_tx r tb) = tb_logs tb"
  by (simp_all add: ins_tx_def)

lemma ins_log_fields [simp]:
  "tb_states (ins_log r tb) = tb_states tb" "tb_blocks (ins_log r tb) = tb_blocks tb"
  "tb_txs (ins_log r tb) = tb_txs tb"
  by (simp_all add: ins_log_def)

lemma fold_ins_block_fields [simp]:
  "tb_states (fold ins_block bs tb) = tb_states tb" "tb_txs (fold ins_block bs tb) = tb_txs tb"
  "tb_logs (fold ins_block bs tb) = tb_logs tb"
  by (induction bs arbitrary: tb) simp_all

lemma fold_ins_tx_fields [simp]:
  "tb_states (fold ins_tx ts tb) = tb_states tb" "tb_blocks (fold ins_tx ts tb) = tb_blocks tb"
  "tb_logs (fold ins_tx ts tb) = tb_logs tb"
  by (induction ts arbitrary: tb) simp_all

lemma fold_ins_log_fields [simp]:
  "tb_states (fold ins_log ls tb) = tb_states tb" "tb_blocks (fold ins_log ls tb) = tb_blocks tb"
  "tb_txs (fold ins_log ls tb) = tb_txs tb"
  by (induction ls arbitrary: tb) simp_all

text \<open>An insertion never loses a row, and the key of an inserted row is in the table.\<close>

lemma ins_block_mono: "set (tb_blocks tb) \<subseteq> set (tb_blocks (ins_block r tb))"
  by (auto simp: ins_block_def)

lemma fold_ins_block_mono: "set (tb_blocks tb) \<subseteq> set (tb_blocks (fold ins_block bs tb))"
  by (induction bs arbitrary: tb) (use ins_block_mono in fastforce)+

lemma ins_block_key: "b_hash r \<in> b_hash ` set (tb_blocks (ins_block r tb))"
  by (auto simp: ins_block_def)

lemma fold_ins_block_keys:
  "r \<in> set bs \<Longrightarrow> b_hash r \<in> b_hash ` set (tb_blocks (fold ins_block bs tb))"
proof (induction bs arbitrary: tb)
  case (Cons b bs)
  show ?case
  proof (cases "r = b")
    case True
    then have "b_hash r \<in> b_hash ` set (tb_blocks (ins_block b tb))" by (simp add: ins_block_key)
    then show ?thesis using fold_ins_block_mono [of "ins_block b tb" bs] by auto
  next
    case False
    with Cons show ?thesis by simp
  qed
qed simp

lemma fold_ins_block_origin:
  "set (tb_blocks (fold ins_block bs tb)) \<subseteq> set (tb_blocks tb) \<union> set bs"
proof (induction bs arbitrary: tb)
  case (Cons b bs)
  have "set (tb_blocks (ins_block b tb)) \<subseteq> insert b (set (tb_blocks tb))"
    by (auto simp: ins_block_def)
  with Cons [of "ins_block b tb"] show ?case by auto
qed simp

lemma ins_tx_mono: "set (tb_txs tb) \<subseteq> set (tb_txs (ins_tx r tb))"
  by (auto simp: ins_tx_def)

lemma fold_ins_tx_mono: "set (tb_txs tb) \<subseteq> set (tb_txs (fold ins_tx ts tb))"
  by (induction ts arbitrary: tb) (use ins_tx_mono in fastforce)+

lemma ins_log_mono: "set (tb_logs tb) \<subseteq> set (tb_logs (ins_log r tb))"
  by (auto simp: ins_log_def)

lemma fold_ins_log_mono: "set (tb_logs tb) \<subseteq> set (tb_logs (fold ins_log ls tb))"
  by (induction ls arbitrary: tb) (use ins_log_mono in fastforce)+

lemma first_fold_min:
  fixes key :: "'r \<Rightarrow> 'k :: linorder"
  defines "pick \<equiv> fold (\<lambda>r m. if key r < key m then r else m)"
  shows "pick rs r \<in> set (r # rs) \<and> (\<forall>s \<in> set (r # rs). key (pick rs r) \<le> key s)"
  unfolding pick_def
proof (induction rs arbitrary: r)
  case (Cons s rs)
  show ?case
    using Cons [of "if key s < key r then s else r"] by (auto split: if_splits)
qed simp

lemma first_block_of_None [simp]: "first_block_of tb = None \<longleftrightarrow> tb_blocks tb = []"
  by (simp add: first_block_of_def split: list.split)

lemma first_block_of_Some:
  "first_block_of tb = Some b \<Longrightarrow> b \<in> set (tb_blocks tb) \<and> (\<forall>c \<in> set (tb_blocks tb). b_number b \<le> b_number c)"
  using first_fold_min [of b_number] by (auto simp: first_block_of_def split: list.splits)

lemma first_log_of_None [simp]: "first_log_of tb = None \<longleftrightarrow> tb_logs tb = []"
  by (simp add: first_log_of_def split: list.split)

lemma first_log_of_Some:
  "first_log_of tb = Some l \<Longrightarrow>
     l \<in> set (tb_logs tb) \<and> (\<forall>m \<in> set (tb_logs tb). l_block_number l \<le> l_block_number m)"
  using first_fold_min [of l_block_number] by (auto simp: first_log_of_def split: list.splits)

end
