(* ===== verification/Chain_Client.thy ===== *)
theory Chain_Client
  imports Chain_Types
begin

text \<open>
  The RPC client of \<^verbatim>\<open>internal/chain/chain.go\<close>. The two third-party Ethereum clients are
  a parameter (\<open>rpc\<close>): operations on an outside state \<open>'x\<close> that may fail and may change
  it. \<open>Client\<close> dispatches each method on its chain type, under a slot of its semaphore.
  Here one goroutine is followed, for which waiting for a slot ends with the slot or with
  the error of its cancelled context; the goroutines that share the slots are the
  subject of \<open>Rpc_Slots\<close>.
\<close>

record filter_query =         \<comment> \<open>\<^verbatim>\<open>interfaces.FilterQuery\<close>, with the fields the code sets\<close>
  fq_from :: int
  fq_to :: int
  fq_addresses :: "address list"
  fq_topics :: "hash list list"

record call_msg =             \<comment> \<open>\<^verbatim>\<open>ethereum.CallMsg\<close>\<close>
  cm_from :: address
  cm_to :: "address option"
  cm_gas :: u64
  cm_gas_price :: "int option"
  cm_gas_fee_cap :: "int option"
  cm_gas_tip_cap :: "int option"
  cm_value :: "int option"
  cm_data :: "byte list"
  cm_access_list :: "(address \<times> hash list) list"

record 'x rpc =
  rpc_chain_id :: "('x, int) io"
  rpc_block_by_number :: "int option \<Rightarrow> ('x, ext_block) io"
  rpc_header_by_number :: "int option \<Rightarrow> ('x, ext_header) io"
  rpc_transaction_receipt :: "hash \<Rightarrow> ('x, ext_receipt) io"
  rpc_filter_logs :: "filter_query \<Rightarrow> ('x, ext_log list) io"
  rpc_code_at :: "address \<Rightarrow> int option \<Rightarrow> ('x, byte list) io"
  rpc_call_contract :: "call_msg \<Rightarrow> int option \<Rightarrow> ('x, byte list) io"

text \<open>
  \<open>c_sem\<close> is the capacity of the channel (\<open>None\<close>: the nil channel); \<open>c_ctx_err\<close> is
  \<^verbatim>\<open>ctx.Err()\<close> of the caller's context in the current outside state.
\<close>

record 'x client =
  c_chain :: int
  c_eth :: "'x rpc"
  c_avx :: "'x rpc"
  c_sem :: "nat option"
  c_ctx_err :: "'x \<Rightarrow> go_error option"

definition client_acquire :: "'x client \<Rightarrow> ('x, unit) io" where
  "client_acquire c = (\<lambda>x.
     case c_sem c of
       None \<Rightarrow> (Inr (), x)
     | Some _ \<Rightarrow> (case c_ctx_err c x of None \<Rightarrow> (Inr (), x) | Some e \<Rightarrow> (Inl e, x)))"

definition DialRPCNode ::
  "(string \<Rightarrow> go_error + 'x rpc) \<Rightarrow> (string \<Rightarrow> go_error + 'x rpc) \<Rightarrow> 'x rpc \<Rightarrow>
   ('x \<Rightarrow> go_error option) \<Rightarrow> string \<Rightarrow> int \<Rightarrow> int \<Rightarrow> go_error + 'x client" where
  "DialRPCNode avx_dial eth_dial nil_rpc ctx_err nodeURL chainType maxConcurrency =
     (let maxConcurrency = (if maxConcurrency < 1 then 1 else maxConcurrency);
          c = \<lparr>c_chain = chainType, c_eth = nil_rpc, c_avx = nil_rpc,
               c_sem = Some (nat maxConcurrency), c_ctx_err = ctx_err\<rparr>
      in if c_chain c = ChainTypeAvax then bindR (avx_dial nodeURL) (\<lambda>r. Inr (c\<lparr>c_avx := r\<rparr>))
         else if c_chain c = ChainTypeEth then bindR (eth_dial nodeURL) (\<lambda>r. Inr (c\<lparr>c_eth := r\<rparr>))
         else Inl (ErrMsg ''invalid chain''))"

text \<open>\<^verbatim>\<open>ChainID\<close> is the one method that takes no slot.\<close>

definition Client_ChainID :: "'x client \<Rightarrow> ('x, int) io" where
  "Client_ChainID c =
     (if c_chain c = ChainTypeAvax then rpc_chain_id (c_avx c)
      else if c_chain c = ChainTypeEth then rpc_chain_id (c_eth c)
      else throw (ErrMsg ''invalid chain''))"

definition BlockByNumber :: "'x client \<Rightarrow> int option \<Rightarrow> ('x, block) io" where
  "BlockByNumber c number =
     bindE (client_acquire c) (\<lambda>_.
       if c_chain c = ChainTypeAvax then mapE AvaxData (rpc_block_by_number (c_avx c) number)
       else if c_chain c = ChainTypeEth then mapE EthData (rpc_block_by_number (c_eth c) number)
       else throw (ErrMsg ''invalid chain''))"

definition HeaderByNumber :: "'x client \<Rightarrow> int option \<Rightarrow> ('x, header) io" where
  "HeaderByNumber c number =
     bindE (client_acquire c) (\<lambda>_.
       if c_chain c = ChainTypeAvax then mapE AvaxData (rpc_header_by_number (c_avx c) number)
       else if c_chain c = ChainTypeEth then mapE EthData (rpc_header_by_number (c_eth c) number)
       else throw (ErrMsg ''invalid chain''))"

definition TransactionReceipt :: "'x client \<Rightarrow> hash \<Rightarrow> ('x, receipt) io" where
  "TransactionReceipt c txHash =
     bindE (client_acquire c) (\<lambda>_.
       if c_chain c = ChainTypeAvax then mapE AvaxData (rpc_transaction_receipt (c_avx c) txHash)
       else if c_chain c = ChainTypeEth then mapE EthData (rpc_transaction_receipt (c_eth c) txHash)
       else throw (ErrMsg ''invalid chain''))"

definition FilterLogs :: "'x client \<Rightarrow> filter_query \<Rightarrow> ('x, ext_log list) io" where
  "FilterLogs c q =
     bindE (client_acquire c) (\<lambda>_.
       if c_chain c = ChainTypeAvax then rpc_filter_logs (c_avx c) q
       else if c_chain c = ChainTypeEth then mapE (map avx_log) (rpc_filter_logs (c_eth c) q)
       else throw (ErrMsg ''invalid chain''))"

definition CodeAt :: "'x client \<Rightarrow> address \<Rightarrow> int option \<Rightarrow> ('x, byte list) io" where
  "CodeAt c contract blockNumber =
     bindE (client_acquire c) (\<lambda>_.
       if c_chain c = ChainTypeAvax then rpc_code_at (c_avx c) contract blockNumber
       else if c_chain c = ChainTypeEth then rpc_code_at (c_eth c) contract blockNumber
       else throw (ErrMsg ''invalid chain''))"

definition toAvaxCallMsg :: "call_msg \<Rightarrow> call_msg" where
  "toAvaxCallMsg msg =
     \<lparr>cm_from = cm_from msg, cm_to = cm_to msg, cm_gas = cm_gas msg,
      cm_gas_price = cm_gas_price msg, cm_gas_fee_cap = cm_gas_fee_cap msg,
      cm_gas_tip_cap = cm_gas_tip_cap msg, cm_value = cm_value msg, cm_data = cm_data msg,
      cm_access_list = map (\<lambda>(address, storageKeys). (address, storageKeys)) (cm_access_list msg)\<rparr>"

definition CallContract :: "'x client \<Rightarrow> call_msg \<Rightarrow> int option \<Rightarrow> ('x, byte list) io" where
  "CallContract c msg blockNumber =
     bindE (client_acquire c) (\<lambda>_.
       if c_chain c = ChainTypeAvax then rpc_call_contract (c_avx c) (toAvaxCallMsg msg) blockNumber
       else if c_chain c = ChainTypeEth then rpc_call_contract (c_eth c) msg blockNumber
       else throw (ErrMsg ''invalid chain''))"

subsection \<open>What a method of the client returns\<close>

text \<open>
  The dispatch as one equation: a method succeeds exactly when the selected client does,
  and tags its value with the chain. \<open>active_rpc\<close> is that client.
\<close>

definition active_rpc :: "'x client \<Rightarrow> 'x rpc option" where
  "active_rpc c =
     (if c_chain c = ChainTypeAvax then Some (c_avx c)
      else if c_chain c = ChainTypeEth then Some (c_eth c) else None)"

lemma client_acquire_state: "client_acquire c x = (r, x') \<Longrightarrow> x' = x"
  by (auto simp: client_acquire_def split: option.splits)

lemma keeps_acquire [wp]: "keeps I (client_acquire c)"
  by (auto simp: triple_def dest: client_acquire_state split: sum.splits)

lemma chain_types_distinct: "ChainTypeAvax \<noteq> ChainTypeEth"
  by (simp add: ChainTypeAvax_def ChainTypeEth_def)

lemma BlockByNumber_Inr:
  "BlockByNumber c n x = (Inr b, x') \<longleftrightarrow>
     (\<exists>r v. fst (client_acquire c x) = Inr () \<and> active_rpc c = Some r \<and>
        rpc_block_by_number r n x = (Inr v, x') \<and>
        b = (if c_chain c = ChainTypeAvax then AvaxData v else EthData v))"
  by (cases "client_acquire c x")
     (auto simp: BlockByNumber_def active_rpc_def bindE_Inr_iff mapE_Inr_iff
        dest: client_acquire_state)

lemma HeaderByNumber_Inr:
  "HeaderByNumber c n x = (Inr h, x') \<longleftrightarrow>
     (\<exists>r v. fst (client_acquire c x) = Inr () \<and> active_rpc c = Some r \<and>
        rpc_header_by_number r n x = (Inr v, x') \<and>
        h = (if c_chain c = ChainTypeAvax then AvaxData v else EthData v))"
  by (cases "client_acquire c x")
     (auto simp: HeaderByNumber_def active_rpc_def bindE_Inr_iff mapE_Inr_iff
        dest: client_acquire_state)

lemma TransactionReceipt_Inr:
  "TransactionReceipt c h x = (Inr b, x') \<longleftrightarrow>
     (\<exists>r v. fst (client_acquire c x) = Inr () \<and> active_rpc c = Some r \<and>
        rpc_transaction_receipt r h x = (Inr v, x') \<and>
        b = (if c_chain c = ChainTypeAvax then AvaxData v else EthData v))"
  by (cases "client_acquire c x")
     (auto simp: TransactionReceipt_def active_rpc_def bindE_Inr_iff mapE_Inr_iff
        dest: client_acquire_state)

lemma FilterLogs_Inr:
  "FilterLogs c q x = (Inr ls, x') \<longleftrightarrow>
     (\<exists>r. fst (client_acquire c x) = Inr () \<and> active_rpc c = Some r \<and>
        rpc_filter_logs r q x = (Inr ls, x'))"
  by (cases "client_acquire c x")
     (auto simp: FilterLogs_def active_rpc_def bindE_Inr_iff mapE_Inr_iff map_idI
        dest: client_acquire_state)

lemma toAvaxCallMsg_id [simp]: "toAvaxCallMsg msg = msg"
  by (simp add: toAvaxCallMsg_def)

text \<open>Whatever the clients keep, every method of \<open>Client\<close> keeps.\<close>

definition rpc_keeps :: "('x \<Rightarrow> bool) \<Rightarrow> 'x rpc \<Rightarrow> bool" where
  "rpc_keeps I r \<longleftrightarrow>
     keeps I (rpc_chain_id r) \<and> (\<forall>n. keeps I (rpc_block_by_number r n)) \<and>
     (\<forall>n. keeps I (rpc_header_by_number r n)) \<and> (\<forall>h. keeps I (rpc_transaction_receipt r h)) \<and>
     (\<forall>q. keeps I (rpc_filter_logs r q)) \<and> (\<forall>a n. keeps I (rpc_code_at r a n)) \<and>
     (\<forall>m n. keeps I (rpc_call_contract r m n))"

lemma client_keeps:
  assumes "rpc_keeps I (c_avx c)" "rpc_keeps I (c_eth c)"
  shows "keeps I (BlockByNumber c n)" "keeps I (HeaderByNumber c n)"
    and "keeps I (TransactionReceipt c h)" "keeps I (FilterLogs c q)"
    and "keeps I (CodeAt c a n)" "keeps I (CallContract c m n)" "keeps I (Client_ChainID c)"
  using assms
  by (auto simp: BlockByNumber_def HeaderByNumber_def TransactionReceipt_def FilterLogs_def
      CodeAt_def CallContract_def Client_ChainID_def rpc_keeps_def intro!: wp)

end
