(* ===== verification/Node.thy ===== *)
theory Node
  imports Chain_Client Boff
begin

text \<open>
  What the indexer relies on of a node, as the locale \<open>canonical_node\<close>: every successful
  answer is about one chain (\<open>chain k\<close> is its block number \<open>k\<close>, \<open>logs_at k\<close> the logs of that
  block, \<open>receipt_of h\<close> the receipt of transaction \<open>h\<close>), and asking the node changes
  nothing that \<open>view\<close> shows, such as the database. Any call may fail, and the head
  may be any block below \<open>2\<^sup>6\<^sup>2\<close>. A reorganisation below the confirmed head is thereby excluded; that is
  what the \<^verbatim>\<open>confirmations\<close> of the configuration are for.
\<close>

definition query_matches :: "filter_query \<Rightarrow> ext_log \<Rightarrow> bool" where
  "query_matches q l \<longleftrightarrow>
     (fq_addresses q = [] \<or> lg_address l \<in> set (fq_addresses q)) \<and>
     length (fq_topics q) \<le> length (lg_topics l) \<and>
     (\<forall>i < length (fq_topics q). fq_topics q ! i = [] \<or> lg_topics l ! i \<in> set (fq_topics q ! i))"

text \<open>The logs from block \<open>lo\<close> up to, but not including, block \<open>hi\<close> that match.\<close>

definition logs_between :: "(nat \<Rightarrow> ext_log list) \<Rightarrow> (ext_log \<Rightarrow> bool) \<Rightarrow> nat \<Rightarrow> nat \<Rightarrow> ext_log list" where
  "logs_between logs_at P lo hi = filter P (concat (map logs_at [lo..<hi]))"

lemma logs_between_split:
  "a \<le> b \<Longrightarrow> b \<le> c \<Longrightarrow> logs_between L P a c = logs_between L P a b @ logs_between L P b c"
proof -
  assume "a \<le> b" "b \<le> c"
  then have "[a..<c] = [a..<b] @ [b..<c]" by (metis le_add_diff_inverse upt_add_eq_append)
  then show ?thesis by (simp add: logs_between_def)
qed

lemma logs_between_empty [simp]: "logs_between L P a a = []"
  by (simp add: logs_between_def)

lemma logs_between_set: "l \<in> set (logs_between L P a c) \<longleftrightarrow> (\<exists>k. a \<le> k \<and> k < c \<and> l \<in> set (L k) \<and> P l)"
  by (auto simp: logs_between_def)

locale canonical_node =
  fixes c :: "'x client"
    and chain :: "nat \<Rightarrow> ext_block"
    and logs_at :: "nat \<Rightarrow> ext_log list"
    and receipt_of :: "hash \<Rightarrow> ext_receipt"
    and view :: "'x \<Rightarrow> 'v"
  assumes number: "bk_number (chain k) = int k"
    and log_number: "l \<in> set (logs_at k) \<Longrightarrow> unat (lg_block_number l) = k"
    and block_law:
      "active_rpc c = Some r \<Longrightarrow> rpc_block_by_number r (Some (int k)) x = (Inr b, x') \<Longrightarrow> b = chain k"
    and header_law:
      "active_rpc c = Some r \<Longrightarrow> rpc_header_by_number r (Some (int k)) x = (Inr h, x') \<Longrightarrow>
         hd_number h = int k \<and> hd_time h = bk_time (chain k)"
    and head_law:
      "active_rpc c = Some r \<Longrightarrow> rpc_header_by_number r None x = (Inr h, x') \<Longrightarrow>
         0 \<le> hd_number h \<and> hd_number h < 2 ^ 62"
    and receipt_law:
      "active_rpc c = Some r \<Longrightarrow> rpc_transaction_receipt r hsh x = (Inr rc, x') \<Longrightarrow> rc = receipt_of hsh"
    and logs_law:
      "active_rpc c = Some r \<Longrightarrow> fq_from q = int f \<Longrightarrow> fq_to q = int t \<Longrightarrow>
         rpc_filter_logs r q x = (Inr ls, x') \<Longrightarrow>
         ls = logs_between logs_at (query_matches q) f (Suc t)"
    and view_law: "rpc_keeps (\<lambda>x. view x = v) (c_avx c)" "rpc_keeps (\<lambda>x. view x = v) (c_eth c)"
begin

lemma int_unat: "uint (n::u64) = int (unat n)"
  by simp

lemma BlockByNumber_chain:
  "BlockByNumber c (Some (int k)) x = (Inr b, x') \<Longrightarrow> untag b = Some (chain k)"
  by (auto simp: BlockByNumber_Inr dest: block_law)

lemma HeaderByNumber_chain:
  "HeaderByNumber c (Some (int k)) x = (Inr h, x') \<Longrightarrow>
     \<exists>v. untag h = Some v \<and> hd_number v = int k \<and> hd_time v = bk_time (chain k)"
  by (auto simp: HeaderByNumber_Inr dest: header_law)

lemma HeaderByNumber_head:
  "HeaderByNumber c None x = (Inr h, x') \<Longrightarrow> \<exists>i. Header_Number h = Some i \<and> 0 \<le> i \<and> i < 2 ^ 62"
  by (auto simp: HeaderByNumber_Inr dest!: head_law)

lemma TransactionReceipt_chain:
  "TransactionReceipt c h x = (Inr rc, x') \<Longrightarrow> untag rc = Some (receipt_of h)"
  by (auto simp: TransactionReceipt_Inr dest: receipt_law)

lemma FilterLogs_chain:
  "FilterLogs c q x = (Inr ls, x') \<Longrightarrow> fq_from q = int f \<Longrightarrow> fq_to q = int t \<Longrightarrow>
     ls = logs_between logs_at (query_matches q) f (Suc t)"
  by (auto simp: FilterLogs_Inr dest: logs_law)

lemma client_keeps_view:
  "keeps (\<lambda>x. view x = v) (BlockByNumber c n)" "keeps (\<lambda>x. view x = v) (HeaderByNumber c n)"
  "keeps (\<lambda>x. view x = v) (TransactionReceipt c h)" "keeps (\<lambda>x. view x = v) (FilterLogs c q)"
  using client_keeps [OF view_law] by auto

end

text \<open>
  A retried call that only reads: whatever the retrier does, a success is the result of
  one attempt, and the view stays.
\<close>

context retrier
begin

lemma retried_read:
  assumes keep: "\<And>v. keeps (\<lambda>x. view x = v) m"
    and run: "RetryWithMaxElapsed backoff_Retry t m x = (r, x')"
  shows "view x' = view x" and "\<And>y. r = Inr y \<Longrightarrow> \<exists>x0 x1. m x0 = (Inr y, x1) \<and> view x0 = view x"
proof -
  have "triple (\<lambda>s. view s = view x) m (\<lambda>y s'. view s' = view x \<and> (\<exists>x0 x1. m x0 = (Inr y, x1) \<and> view x0 = view x))
      (\<lambda>_ s'. view s' = view x)"
    by (rule tripleI) (use keepsD [OF keep [of "view x"]] in blast)+
  from RetryWithMaxElapsed_triple [OF this] have
    "triple (\<lambda>s. view s = view x) (RetryWithMaxElapsed backoff_Retry t m)
       (\<lambda>y s'. view s' = view x \<and> (\<exists>x0 x1. m x0 = (Inr y, x1) \<and> view x0 = view x)) (\<lambda>_ s'. view s' = view x)" .
  with run show "view x' = view x" "\<And>y. r = Inr y \<Longrightarrow> \<exists>x0 x1. m x0 = (Inr y, x1) \<and> view x0 = view x"
    by (cases r; fastforce dest: triple_Inr triple_Inl)+
qed

end

end
