(* ===== verification/Reference_World.thy ===== *)
theory Reference_World
  imports Store Node
begin

text \<open>
  A concrete outside world: the four tables in memory, a node that serves the blocks of a
  chain up to its head, with their receipts and logs, and a schedule of faults.
  Every statement and every RPC call takes the next entry of the schedule and fails when it
  is \<open>True\<close>; an empty schedule never fails. It shows that the laws the theorems assume can
  hold, also with failing statements, and the theorems' witnesses run on it.
\<close>

record mem =
  m_tabs :: tables
  m_faults :: "bool list"
  m_head :: nat

definition empty_mem :: mem where
  "empty_mem = \<lparr>m_tabs = empty_tables, m_faults = [], m_head = 0\<rparr>"

definition faulty :: "(mem, 'a) io \<Rightarrow> (mem, 'a) io" where
  "faulty m = (\<lambda>x.
     case m_faults x of
       [] \<Rightarrow> m x
     | f # fs \<Rightarrow> if f then (Inl (ErrMsg ''connection lost''), x\<lparr>m_faults := fs\<rparr>)
                 else m (x\<lparr>m_faults := fs\<rparr>))"

definition mem_write :: "(tables \<Rightarrow> tables) \<Rightarrow> (mem, unit) io" where
  "mem_write f = faulty (\<lambda>x. (Inr (), x\<lparr>m_tabs := f (m_tabs x)\<rparr>))"

definition mem_read :: "(tables \<Rightarrow> 'a option) \<Rightarrow> (mem, 'a) io" where
  "mem_read g = faulty (\<lambda>x. case g (m_tabs x) of None \<Rightarrow> (Inl RecordNotFound, x) | Some v \<Rightarrow> (Inr v, x))"

text \<open>The first matching rows, up to the limit, are deleted.\<close>

fun delete_first :: "nat \<Rightarrow> ('r \<Rightarrow> bool) \<Rightarrow> 'r list \<Rightarrow> 'r list" where
  "delete_first 0 P xs = xs"
| "delete_first (Suc n) P [] = []"
| "delete_first (Suc n) P (x # xs) = (if P x then delete_first n P xs else x # delete_first (Suc n) P xs)"

fun mem_delete :: "entity \<Rightarrow> nat \<Rightarrow> u64 \<Rightarrow> tables \<Rightarrow> tables" where
  "mem_delete LogEntity lim ts tb = tb\<lparr>tb_logs := delete_first lim (\<lambda>r. l_timestamp r < ts) (tb_logs tb)\<rparr>"
| "mem_delete BlockEntity lim ts tb = tb\<lparr>tb_blocks := delete_first lim (\<lambda>r. b_timestamp r < ts) (tb_blocks tb)\<rparr>"
| "mem_delete TransactionEntity lim ts tb =
     (let ys = delete_first lim (\<lambda>r. t_timestamp r < ts) (tb_txs tb) in
      tb\<lparr>tb_txs := ys, tb_logs := filter (\<lambda>r. l_transaction_id r = 0 \<or>
            l_transaction_id r \<notin> t_id ` set (tb_txs tb) \<or> l_transaction_id r \<in> t_id ` set ys)
          (tb_logs tb)\<rparr>)"

fun mem_deleted :: "entity \<Rightarrow> nat \<Rightarrow> u64 \<Rightarrow> tables \<Rightarrow> nat" where
  "mem_deleted LogEntity lim ts tb = min lim (length (filter (\<lambda>r. l_timestamp r < ts) (tb_logs tb)))"
| "mem_deleted BlockEntity lim ts tb = min lim (length (filter (\<lambda>r. b_timestamp r < ts) (tb_blocks tb)))"
| "mem_deleted TransactionEntity lim ts tb = min lim (length (filter (\<lambda>r. t_timestamp r < ts) (tb_txs tb)))"

text \<open>A transaction that fails, in its body or at its commit, leaves the tables as they were.\<close>

definition mem_transaction :: "(mem, unit) io \<Rightarrow> (mem, unit) io" where
  "mem_transaction body = (\<lambda>x.
     case body x of
       (Inl e, x1) \<Rightarrow> (Inl e, x1\<lparr>m_tabs := m_tabs x\<rparr>)
     | (Inr _, x1) \<Rightarrow>
         (case faulty (ret ()) x1 of
            (Inl e, x2) \<Rightarrow> (Inl e, x2\<lparr>m_tabs := m_tabs x\<rparr>)
          | (Inr u, x2) \<Rightarrow> (Inr u, x2)))"

definition mem_store :: "mem store" where
  "mem_store =
     \<lparr>s_upsert_state = (\<lambda>n i ts. mem_write (upsert_state n i ts)),
      s_create_state = (\<lambda>n i ts. mem_write (create_state n i ts)),
      s_lower_state = (\<lambda>n i ts. mem_write (lower_state n i ts)),
      s_first_state = (\<lambda>n. mem_read (\<lambda>tb. tb_states tb n)),
      s_find_states = (\<lambda>ns. faulty (\<lambda>x. (Inr (concat (map (\<lambda>n. case tb_states (m_tabs x) n of
          None \<Rightarrow> [] | Some r \<Rightarrow> [(n, r)]) ns)), x))),
      s_insert_blocks = (\<lambda>_ bs. mem_write (fold ins_block bs)),
      s_insert_txs = (\<lambda>_ ts. mem_write (fold ins_tx ts)),
      s_insert_logs = (\<lambda>_ ls. mem_write (fold ins_log ls)),
      s_delete = (\<lambda>e lim ts. faulty (\<lambda>x.
          (Inr (mem_deleted e lim ts (m_tabs x)), x\<lparr>m_tabs := mem_delete e lim ts (m_tabs x)\<rparr>))),
      s_first_block = mem_read first_block_of,
      s_first_log = mem_read first_log_of,
      s_last_block = mem_read (\<lambda>tb. last_row (tb_blocks tb)),
      s_last_tx = mem_read last_tx_of,
      s_transaction = mem_transaction,
      s_drop_tables = mem_write (\<lambda>_. empty_tables),
      s_auto_migrate = faulty (ret ())\<rparr>"

subsection \<open>The laws of the store hold\<close>

lemma faulty_cases:
  assumes "faulty m x = (r, x')"
  obtains fs where "r = Inl (ErrMsg ''connection lost'')" "x' = x\<lparr>m_faults := fs\<rparr>"
  | fs where "m (x\<lparr>m_faults := fs\<rparr>) = (r, x')"
proof (cases "m_faults x")
  case Nil
  then have "x\<lparr>m_faults := []\<rparr> = x" by (cases x) simp
  moreover have "m x = (r, x')" using Nil assms by (simp add: faulty_def)
  ultimately show ?thesis by (intro that(2) [of "[]"]) simp
next
  case (Cons f fs)
  with assms that show ?thesis by (auto simp: faulty_def split: if_splits)
qed

lemma mem_write_writes: "writes m_tabs f (mem_write f)"
  by (auto simp: writes_def mem_write_def elim!: faulty_cases)

lemma mem_read_reads: "reads m_tabs g (mem_read g)"
  by (auto simp: reads_def mem_read_def elim!: faulty_cases split: option.splits)

lemma delete_first_deletes:
  "deletes lim P xs (min lim (length (filter P xs))) (delete_first lim P xs)"
proof (induction lim P xs rule: delete_first.induct)
  case (3 n P x xs)
  show ?case
  proof (cases "P x")
    case True
    with 3 obtain zs where "mset xs = mset (delete_first n P xs) + mset zs"
      "length zs = min n (length (filter P xs))" "\<forall>z \<in> set zs. P z"
      "filter (\<lambda>x. \<not> P x) (delete_first n P xs) = filter (\<lambda>x. \<not> P x) xs"
      by (auto simp: deletes_def)
    with True show ?thesis by (auto simp: deletes_def intro!: exI [of _ "x # zs"])
  next
    case False
    with 3 show ?thesis by (auto simp: deletes_def)
  qed
qed (auto simp: deletes_def)

lemma delete_first_all [simp]: "length xs \<le> lim \<Longrightarrow> delete_first lim P xs = filter (\<lambda>x. \<not> P x) xs"
  by (induction lim P xs rule: delete_first.induct) auto

lemma mem_delete_step: "delete_step e lim ts tb (mem_deleted e lim ts tb) (mem_delete e lim ts tb)"
  by (cases e) (auto simp: Let_def intro: delete_first_deletes)

lemma find_states_rows:
  "map_of (rev (concat (map (\<lambda>n. case st n of None \<Rightarrow> [] | Some r \<Rightarrow> [(n, r)]) ns))) n =
     (if n \<in> set ns then st n else None)"
  by (induction ns) (auto simp: map_add_def split: option.splits)

interpretation mem_store: relational_store mem_store m_tabs
proof (unfold_locales, goal_cases)
  case (5 ns x r x')
  then show ?case
    by (auto simp: mem_store_def find_states_rows elim!: faulty_cases)
next
  case (9 e lim ts x r x')
  then show ?case
    by (auto simp: mem_store_def intro: mem_delete_step elim!: faulty_cases)
next
  case (14 body x r x')
  then have run: "mem_transaction body x = (r, x')" by (simp add: mem_store_def)
  obtain r1 x1 where b: "body x = (r1, x1)" by force
  show ?case
  proof (cases r1)
    case (Inl e)
    with run b show ?thesis by (auto simp: mem_transaction_def)
  next
    case (Inr u)
    obtain r2 x2 where f: "faulty (ret ()) x1 = (r2, x2)" by force
    then have "m_tabs x2 = m_tabs x1" by (rule faulty_cases) auto
    with run b f Inr show ?thesis by (cases r2) (auto simp: mem_transaction_def)
  qed
next
  case (15 x x')
  then show ?case by (auto simp: mem_store_def mem_write_def elim!: faulty_cases)
next
  case (16 x r x')
  then show ?case by (auto simp: mem_store_def elim!: faulty_cases)
qed (simp_all add: mem_store_def mem_write_writes mem_read_reads)

subsection \<open>A node\<close>

definition mem_rpc ::
  "(nat \<Rightarrow> ext_block) \<Rightarrow> (nat \<Rightarrow> ext_log list) \<Rightarrow> (hash \<Rightarrow> ext_receipt) \<Rightarrow> mem rpc" where
  "mem_rpc chain logs_at receipt_of =
     \<lparr>rpc_chain_id = faulty (ret 14),
      rpc_block_by_number = (\<lambda>n. faulty (\<lambda>x.
        case n of None \<Rightarrow> if int (m_head x) < 4611686018427387904 then (Inr (chain (m_head x)), x)
                          else (Inl (ErrMsg ''not found''), x)
        | Some i \<Rightarrow> if 0 \<le> i \<and> nat i \<le> m_head x then (Inr (chain (nat i)), x)
                    else (Inl (ErrMsg ''not found''), x))),
      rpc_header_by_number = (\<lambda>n. faulty (\<lambda>x.
        let header = (\<lambda>k. \<lparr>hd_number = bk_number (chain k), hd_time = bk_time (chain k)\<rparr>) in
        case n of None \<Rightarrow> if int (m_head x) < 4611686018427387904 then (Inr (header (m_head x)), x)
                          else (Inl (ErrMsg ''not found''), x)
        | Some i \<Rightarrow> if 0 \<le> i \<and> nat i \<le> m_head x then (Inr (header (nat i)), x)
                    else (Inl (ErrMsg ''not found''), x))),
      rpc_transaction_receipt = (\<lambda>h. faulty (ret (receipt_of h))),
      rpc_filter_logs = (\<lambda>q. faulty (\<lambda>x.
        if fq_to q \<le> int (m_head x)
        then (Inr (logs_between logs_at (query_matches q) (nat (fq_from q)) (Suc (nat (fq_to q)))), x)
        else (Inl (ErrMsg ''not found''), x))),
      rpc_code_at = (\<lambda>_ _. faulty (ret [1])),
      rpc_call_contract = (\<lambda>_ _. faulty (ret []))\<rparr>"

definition mem_client ::
  "(nat \<Rightarrow> ext_block) \<Rightarrow> (nat \<Rightarrow> ext_log list) \<Rightarrow> (hash \<Rightarrow> ext_receipt) \<Rightarrow> mem client" where
  "mem_client chain logs_at receipt_of =
     \<lparr>c_chain = ChainTypeAvax, c_eth = mem_rpc chain logs_at receipt_of,
      c_avx = mem_rpc chain logs_at receipt_of, c_sem = Some 1, c_ctx_err = (\<lambda>_. None)\<rparr>"

text \<open>Chains: the times, hashes and transactions of the blocks, and the logs, each at its block.\<close>

definition make_chain :: "(nat \<Rightarrow> u64) \<Rightarrow> (nat \<Rightarrow> ext_tx list) \<Rightarrow> nat \<Rightarrow> ext_block" where
  "make_chain time txs k = \<lparr>bk_number = int k, bk_time = time k, bk_hash = of_nat k, bk_txs = txs k\<rparr>"

definition make_logs :: "(nat \<Rightarrow> ext_log list) \<Rightarrow> nat \<Rightarrow> ext_log list" where
  "make_logs logs k = filter (\<lambda>l. unat (lg_block_number l) = k) (logs k)"

lemma keeps_faulty:
  assumes "\<And>x r x'. m x = (r, x') \<Longrightarrow> m_tabs x' = m_tabs x"
  shows "keeps (\<lambda>x. m_tabs x = v) (faulty m)"
  by (rule keepsI) (use assms in \<open>fastforce elim!: faulty_cases\<close>)

interpretation mem_node:
  canonical_node "mem_client (make_chain time txs) (make_logs logs) receipt_of"
    "make_chain time txs" "make_logs logs" receipt_of m_tabs
proof (unfold_locales, goal_cases)
  case (8 v)
  then show ?case
    by (auto simp: mem_client_def mem_rpc_def rpc_keeps_def Let_def
        intro!: keeps_faulty split: option.splits if_splits)
next
  case (9 v)
  then show ?case
    by (auto simp: mem_client_def mem_rpc_def rpc_keeps_def Let_def
        intro!: keeps_faulty split: option.splits if_splits)
qed (auto simp: make_chain_def make_logs_def mem_client_def mem_rpc_def active_rpc_def Let_def
      elim!: faulty_cases split: option.splits if_splits)

subsection \<open>Addresses and hashes\<close>

text \<open>
  An instance of the library functions on addresses and hashes, with the case of addresses
  left in lower case, for which the laws hold.
\<close>

definition word_bytes :: "nat \<Rightarrow> 'a::len word \<Rightarrow> byte list" where
  "word_bytes n w = map (\<lambda>i. ucast (drop_bit (8 * i) w)) (rev [0..<n])"

definition bytes_word :: "byte list \<Rightarrow> 'a::len word" where
  "bytes_word bs = foldl (\<lambda>w b. 256 * w + ucast b) 0 bs"

definition hex_word :: "string \<Rightarrow> 'a::len word" where
  "hex_word s = (case DecodeString (TrimPrefix s ''0x'') of Inr bs \<Rightarrow> bytes_word bs | Inl _ \<Rightarrow> 0)"

definition plain_lib :: common_lib where
  "plain_lib =
     \<lparr>IsHexAddress = (\<lambda>s. let t = TrimPrefix s ''0x'' in length t = 40 \<and> (\<forall>c \<in> set t. hex_val c \<noteq> None)),
      HexToAddress = hex_word,
      AddressHex = (\<lambda>a. ''0x'' @ EncodeToString (word_bytes 20 a)),
      HexToHash = hex_word,
      BytesToHash = bytes_word,
      HashHex = (\<lambda>h. ''0x'' @ EncodeToString (word_bytes 32 h)),
      AvaxSender = (\<lambda>_. Inr 7),
      EthSender = (\<lambda>_. Inr 7)\<rparr>"

lemma word_bytes_inject:
  assumes "word_bytes n v = word_bytes n (w :: 'a::len word)" and "LENGTH('a) \<le> 8 * n"
  shows "v = w"
proof (rule bit_word_eqI)
  fix k assume k: "k < LENGTH('a)"
  then have "k div 8 < n" using assms(2) by linarith
  then have "(ucast (drop_bit (8 * (k div 8)) v) :: byte) = ucast (drop_bit (8 * (k div 8)) w)"
    using assms(1) by (simp add: word_bytes_def)
  then have "bit (ucast (drop_bit (8 * (k div 8)) v) :: byte) (k mod 8) =
      bit (ucast (drop_bit (8 * (k div 8)) w) :: byte) (k mod 8)" by simp
  then show "bit v k \<longleftrightarrow> bit w k" using k by (simp add: bit_ucast_iff bit_drop_bit_eq)
qed

lemma length_word_bytes [simp]: "length (word_bytes n w) = n"
  by (simp add: word_bytes_def)

lemma plain_hash_law: "hash_hex_law plain_lib"
  unfolding hash_hex_law_def
  by (rule exI [of _ "word_bytes 32"]) (auto simp: plain_lib_def intro!: injI word_bytes_inject)

lemma plain_address_law: "address_hex_law plain_lib"
  unfolding address_hex_law_def
  by (rule exI [of _ "word_bytes 20"]) (auto simp: plain_lib_def intro!: injI word_bytes_inject)

end
