(* ===== verification/States.thy ===== *)
theory States
  imports Reference_World
begin

text \<open>
  The named coverage states, \<^verbatim>\<open>internal/database/states.go\<close>: which blocks and logs the
  database claims to hold. Each function takes the database \<open>db\<close> as its argument, as in
  the code; the lemmas are proved once for every database that keeps the laws of
  \<open>relational_store\<close>.
\<close>

definition IsSet :: "state_row \<Rightarrow> bool" where
  "IsSet state \<longleftrightarrow> Index state \<noteq> 0"

definition UpdateState :: "'x store \<Rightarrow> state_name \<Rightarrow> u64 \<Rightarrow> u64 \<Rightarrow> ('x, unit) io" where
  "UpdateState db name index blockTimestamp = s_upsert_state db name index blockTimestamp"

text \<open>A missing row reads as the zero state; any other error is returned.\<close>

definition GetState :: "'x store \<Rightarrow> state_name \<Rightarrow> ('x, state_row) io" where
  "GetState db name = (\<lambda>x.
     case s_first_state db name x of
       (Inr state, x') \<Rightarrow> (Inr state, x')
     | (Inl e, x') \<Rightarrow> if is_not_found e then (Inr zero_state, x') else (Inl e, x'))"

text \<open>The map the code builds row by row; a later row of a name replaces an earlier one.\<close>

definition GetStates :: "'x store \<Rightarrow> state_name list \<Rightarrow> ('x, state_name \<Rightarrow> state_row option) io" where
  "GetStates db names =
     mapE (\<lambda>rows. fold (\<lambda>(name, state) states. states(name \<mapsto> state)) rows (\<lambda>_. None))
       (s_find_states db names)"

definition CreateStateIfMissing :: "'x store \<Rightarrow> state_name \<Rightarrow> u64 \<Rightarrow> u64 \<Rightarrow> ('x, unit) io" where
  "CreateStateIfMissing db name index blockTimestamp = s_create_state db name index blockTimestamp"

definition ResumeIndex :: "u64 \<Rightarrow> state_row \<Rightarrow> u64" where
  "ResumeIndex historyLastIndex lastIndexed =
     (if IsSet lastIndexed \<and> historyLastIndex < Index lastIndexed
      then Index lastIndexed else historyLastIndex) + 1"

definition ContinuousStartIndex :: "'x store \<Rightarrow> u64 \<Rightarrow> ('x, u64) io" where
  "ContinuousStartIndex db historyLastIndex =
     bindE (wrapE ''GetState(LastIndexed)'' (GetState db LastIndexed)) (\<lambda>lastIndexed.
       ret (ResumeIndex historyLastIndex lastIndexed))"

definition LowerStateFloor :: "'x store \<Rightarrow> state_name \<Rightarrow> u64 \<Rightarrow> u64 \<Rightarrow> ('x, unit) io" where
  "LowerStateFloor db name index blockTimestamp =
     bindE (CreateStateIfMissing db name index blockTimestamp) (\<lambda>_.
       s_lower_state db name index blockTimestamp)"

definition WriteCoverageStates :: "'x store \<Rightarrow> u64 \<Rightarrow> u64 \<Rightarrow> u64 \<Rightarrow> u64 \<Rightarrow> ('x, unit) io" where
  "WriteCoverageStates db lastIndex lastTimestamp floorBlock floorTimestamp =
     s_transaction db
       (bindE (wrapE ''WriteCoverageStates: LastIndexed''
                 (UpdateState db LastIndexed lastIndex lastTimestamp)) (\<lambda>_.
        bindE (wrapE ''WriteCoverageStates: BlockFloor''
                 (LowerStateFloor db BlockFloor floorBlock floorTimestamp)) (\<lambda>_.
        ret ())))"

subsection \<open>What they do to the tables\<close>

text \<open>A missing row reads as \<open>zero_state\<close>.\<close>

definition state_of :: "tables \<Rightarrow> state_name \<Rightarrow> state_row" where
  "state_of tb n = (case tb_states tb n of None \<Rightarrow> zero_state | Some r \<Rightarrow> r)"

text \<open>The floor after lowering: the lower of the old one and the new one.\<close>

definition lowered :: "state_row option \<Rightarrow> u64 \<Rightarrow> u64 \<Rightarrow> state_row" where
  "lowered old i ts =
     (case old of
        None \<Rightarrow> \<lparr>Index = i, BlockTimestamp = ts\<rparr>
      | Some r \<Rightarrow> if i < Index r then \<lparr>Index = i, BlockTimestamp = ts\<rparr> else r)"

definition lower_floor_tables :: "state_name \<Rightarrow> u64 \<Rightarrow> u64 \<Rightarrow> tables \<Rightarrow> tables" where
  "lower_floor_tables n i ts tb = tb\<lparr>tb_states := (tb_states tb)(n \<mapsto> lowered (tb_states tb n) i ts)\<rparr>"

definition coverage_tables :: "u64 \<Rightarrow> u64 \<Rightarrow> u64 \<Rightarrow> u64 \<Rightarrow> tables \<Rightarrow> tables" where
  "coverage_tables li lt fb ft tb = lower_floor_tables BlockFloor fb ft (upsert_state LastIndexed li lt tb)"

lemma lowered_Index: "unat (Index (lowered old i ts)) =
    (case old of None \<Rightarrow> unat i | Some r \<Rightarrow> min (unat i) (unat (Index r)))"
  by (auto simp: lowered_def word_less_nat_alt split: option.split)

lemma lower_floor_tables_fields [simp]:
  "tb_states (lower_floor_tables n i ts tb) = (tb_states tb)(n \<mapsto> lowered (tb_states tb n) i ts)"
  "tb_blocks (lower_floor_tables n i ts tb) = tb_blocks tb"
  "tb_txs (lower_floor_tables n i ts tb) = tb_txs tb"
  "tb_logs (lower_floor_tables n i ts tb) = tb_logs tb"
  by (simp_all add: lower_floor_tables_def)

lemma coverage_tables_fields [simp]:
  "tb_states (coverage_tables li lt fb ft tb) =
     (tb_states tb)(LastIndexed \<mapsto> \<lparr>Index = li, BlockTimestamp = lt\<rparr>,
                    BlockFloor \<mapsto> lowered (tb_states tb BlockFloor) fb ft)"
  "tb_blocks (coverage_tables li lt fb ft tb) = tb_blocks tb"
  "tb_txs (coverage_tables li lt fb ft tb) = tb_txs tb"
  "tb_logs (coverage_tables li lt fb ft tb) = tb_logs tb"
  by (simp_all add: coverage_tables_def)

lemma lower_after_create:
  "lower_state n i ts (create_state n i ts tb) = lower_floor_tables n i ts tb"
proof (cases "tb_states tb n")
  case None
  then show ?thesis
    by (simp add: create_state_def lower_state_def lower_floor_tables_def upsert_state_def lowered_def)
next
  case (Some r)
  have "(tb_states tb)(n \<mapsto> r) = tb_states tb" using Some by auto
  with Some show ?thesis
    by (simp add: create_state_def lower_state_def lower_floor_tables_def upsert_state_def lowered_def)
qed

lemma map_of_rows:
  "fold (\<lambda>(name, state) states. states(name \<mapsto> state)) rows m =
   (\<lambda>n. case map_of (rev rows) n of None \<Rightarrow> m n | Some r \<Rightarrow> Some r)"
  by (induction rows arbitrary: m) (auto simp: fun_eq_iff map_add_def split: option.splits)

context relational_store
begin

lemma UpdateState_writes: "writes tabs (upsert_state n i ts) (UpdateState db n i ts)"
  by (simp add: UpdateState_def upsert_law)

lemma GetState_tabs: "GetState db n x = (r, x') \<Longrightarrow> tabs x' = tabs x"
  using first_state_law [of n]
  by (auto simp: GetState_def reads_def split: prod.splits sum.splits if_splits)

lemma GetState_Inr: "GetState db n x = (Inr v, x') \<Longrightarrow> tabs x' = tabs x \<and> v = state_of (tabs x) n"
  using first_state_law [of n]
  by (auto simp: GetState_def reads_def state_of_def split: prod.splits sum.splits if_splits)

lemma GetStates_Inr:
  assumes "GetStates db ns x = (Inr m, x')"
  shows "tabs x' = tabs x \<and> (\<forall>n \<in> set ns. m n = tb_states (tabs x) n)"
proof -
  from assms obtain rows where "s_find_states db ns x = (Inr rows, x')"
    and m: "m = fold (\<lambda>(name, state) states. states(name \<mapsto> state)) rows (\<lambda>_. None)"
    by (auto simp: GetStates_def mapE_Inr_iff)
  with find_states_law have "tabs x' = tabs x" "\<forall>n \<in> set ns. map_of (rev rows) n = tb_states (tabs x) n"
    by auto
  then show ?thesis by (auto simp: m map_of_rows split: option.split)
qed

lemma GetStates_tabs: "GetStates db ns x = (r, x') \<Longrightarrow> tabs x' = tabs x"
  using find_states_law [of ns x] by (cases r) (auto simp: GetStates_def mapE_Inr_iff mapE_Inl_iff)

lemma LowerStateFloor_Inr:
  assumes "LowerStateFloor db n i ts x = (Inr (), x')"
  shows "tabs x' = lower_floor_tables n i ts (tabs x)"
proof -
  from assms obtain x1 where "s_create_state db n i ts x = (Inr (), x1)" "s_lower_state db n i ts x1 = (Inr (), x')"
    by (auto simp: LowerStateFloor_def CreateStateIfMissing_def bindE_Inr_iff)
  then have "tabs x1 = create_state n i ts (tabs x)" "tabs x' = lower_state n i ts (tabs x1)"
    using writes_Inr [OF create_law] writes_Inr [OF lower_law] by blast+
  then show ?thesis by (simp add: lower_after_create)
qed

text \<open>Lowering in two statements: what a failure can leave is the first statement's effect.\<close>

lemma LowerStateFloor_outcomes:
  assumes "LowerStateFloor db n i ts x = (r, x')"
  shows "tabs x' \<in> {tabs x, create_state n i ts (tabs x), lower_floor_tables n i ts (tabs x)}"
proof (cases r)
  case (Inr u)
  with assms show ?thesis using LowerStateFloor_Inr by auto
next
  case (Inl e)
  with assms consider "s_create_state db n i ts x = (Inl e, x')"
    | x1 where "s_create_state db n i ts x = (Inr (), x1)" "s_lower_state db n i ts x1 = (Inl e, x')"
    by (auto simp: LowerStateFloor_def CreateStateIfMissing_def bindE_Inl_iff)
  then show ?thesis
  proof cases
    case 1
    then show ?thesis using writesD [OF create_law] by blast
  next
    case 2
    then have "tabs x1 = create_state n i ts (tabs x)" using writes_Inr [OF create_law] by blast
    with writesD [OF lower_law 2(2)] show ?thesis by (auto simp: lower_after_create)
  qed
qed

lemma WriteCoverageStates_writes:
  "writes tabs (coverage_tables li lt fb ft) (WriteCoverageStates db li lt fb ft)"
  unfolding writes_def
proof (intro allI impI)
  fix x r x' assume "WriteCoverageStates db li lt fb ft x = (r, x')"
  from transaction_law [OF this [unfolded WriteCoverageStates_def]]
  consider x0 x1 where "tabs x0 = tabs x" "tabs x' = tabs x1"
      "bindE (wrapE ''WriteCoverageStates: LastIndexed'' (UpdateState db LastIndexed li lt)) (\<lambda>_.
       bindE (wrapE ''WriteCoverageStates: BlockFloor'' (LowerStateFloor db BlockFloor fb ft)) (\<lambda>_.
       ret ())) x0 = (Inr (), x1)"
    | "tabs x' = tabs x" "\<exists>e. r = Inl e"
    by blast
  then show "tabs x' = coverage_tables li lt fb ft (tabs x) \<or> tabs x' = tabs x \<and> (\<exists>e. r = Inl e)"
  proof cases
    case 1
    then show ?thesis
      by (auto simp: bindE_Inr_iff wrapE_Inr_iff coverage_tables_def
          dest!: writes_Inr [OF UpdateState_writes] LowerStateFloor_Inr)
  qed auto
qed

end

text \<open>
  What the two states claim: every block from \<open>BlockFloor\<close> to \<open>LastIndexed\<close> is in the table.
\<close>

definition covers :: "tables \<Rightarrow> bool" where
  "covers tb \<longleftrightarrow>
     (\<forall>fl li n. tb_states tb BlockFloor = Some fl \<longrightarrow> tb_states tb LastIndexed = Some li \<longrightarrow>
        Index fl \<le> n \<longrightarrow> n \<le> Index li \<longrightarrow> n \<in> b_number ` set (tb_blocks tb))"

lemma coversI:
  "(\<And>n fl li. tb_states tb BlockFloor = Some fl \<Longrightarrow> tb_states tb LastIndexed = Some li \<Longrightarrow>
      Index fl \<le> n \<Longrightarrow> n \<le> Index li \<Longrightarrow> n \<in> b_number ` set (tb_blocks tb)) \<Longrightarrow> covers tb"
  by (auto simp: covers_def)

lemma coversD:
  "covers tb \<Longrightarrow> tb_states tb BlockFloor = Some fl \<Longrightarrow> tb_states tb LastIndexed = Some li \<Longrightarrow>
   Index fl \<le> n \<Longrightarrow> n \<le> Index li \<Longrightarrow> n \<in> b_number ` set (tb_blocks tb)"
  by (auto simp: covers_def)

lemma ContinuousStartIndex_Inr:
  assumes "relational_store db tabs" and "ContinuousStartIndex db historyLastIndex x = (Inr start, x')"
    and "unat historyLastIndex < 18446744073709551615"
    and "unat (Index (state_of (tabs x) LastIndexed)) < 18446744073709551615"
  shows "tabs x' = tabs x \<and>
    unat start = max (unat historyLastIndex) (unat (Index (state_of (tabs x) LastIndexed))) + 1"
proof -
  from assms(2) obtain st where g: "GetState db LastIndexed x = (Inr st, x')"
    and start: "start = ResumeIndex historyLastIndex st"
    by (auto simp: ContinuousStartIndex_def bindE_Inr_iff wrapE_Inr_iff)
  have st: "tabs x' = tabs x" "st = state_of (tabs x) LastIndexed"
    using relational_store.GetState_Inr [OF assms(1) g] by auto
  have suc: "unat (i + 1) = unat i + 1" if "unat i < 18446744073709551615" for i :: u64
    using that by (rule unat_Suc_below_max)
  show ?thesis
    using assms(3,4) st(1) suc
    by (auto simp: start ResumeIndex_def IsSet_def st(2) word_less_nat_alt max_def not_less unat_eq_0 unat_gt_0)
qed

subsection \<open>Properties of the coverage states\<close>

text \<open>
  C20: \<open>LastIndexed\<close> and \<open>BlockFloor\<close> move together or not at all, whichever of the
  statements fails, before or after it took effect: afterwards the tables are as before and
  an error is returned, or \<open>LastIndexed\<close> is the given block, \<open>BlockFloor\<close> the lower of the
  old and the given one, and nothing else has changed.
\<close>

theorem coverage_pair_atomic:
  assumes "relational_store db tabs"
    and "WriteCoverageStates db lastIndex lastTimestamp floorBlock floorTimestamp x = (r, x')"
  shows "tabs x' = tabs x \<and> r \<noteq> Inr () \<or>
    state_of (tabs x') LastIndexed = \<lparr>Index = lastIndex, BlockTimestamp = lastTimestamp\<rparr> \<and>
    unat (Index (state_of (tabs x') BlockFloor)) =
      (case tb_states (tabs x) BlockFloor of
         None \<Rightarrow> unat floorBlock | Some old \<Rightarrow> min (unat floorBlock) (unat (Index old))) \<and>
    (\<forall>n. n \<noteq> LastIndexed \<and> n \<noteq> BlockFloor \<longrightarrow> tb_states (tabs x') n = tb_states (tabs x) n) \<and>
    tb_blocks (tabs x') = tb_blocks (tabs x) \<and> tb_txs (tabs x') = tb_txs (tabs x) \<and>
    tb_logs (tabs x') = tb_logs (tabs x)"
proof -
  have "tabs x' = coverage_tables lastIndex lastTimestamp floorBlock floorTimestamp (tabs x) \<or>
      tabs x' = tabs x \<and> (\<exists>e. r = Inl e)"
    by (rule writesD [OF relational_store.WriteCoverageStates_writes [OF assms(1)] assms(2)])
  then show ?thesis
  proof
    assume t: "tabs x' = coverage_tables lastIndex lastTimestamp floorBlock floorTimestamp (tabs x)"
    have "unat (Index (state_of (tabs x') BlockFloor)) =
        unat (Index (lowered (tb_states (tabs x) BlockFloor) floorBlock floorTimestamp))"
      by (simp add: t state_of_def)
    then show ?thesis by (simp add: t state_of_def lowered_Index)
  qed auto
qed

theorem coverage_pair_atomic_witness:
  "let x = empty_mem\<lparr>m_faults := [False, True]\<rparr> in
   tb_states (m_tabs (snd (WriteCoverageStates mem_store 9 90 5 50 x))) = tb_states (m_tabs x) \<or>
   Index (state_of (m_tabs (snd (WriteCoverageStates mem_store 9 90 5 50 x))) LastIndexed) = 9"
  using coverage_pair_atomic [OF mem_store.relational_store_axioms,
      of 9 90 5 50 "empty_mem\<lparr>m_faults := [False, True]\<rparr>"]
  by (metis prod.collapse state_row.select_convs(1))

text \<open>
  A floor is only ever lowered: whatever fails, an existing floor ends at its old
  block or at the given lower one, and on success it is at most the given block.
\<close>

theorem floor_only_lowers:
  assumes db: "relational_store db tabs" and run: "LowerStateFloor db name index timestamp x = (r, x')"
  shows "(\<forall>old. tb_states (tabs x) name = Some old \<longrightarrow>
      (\<exists>new. tb_states (tabs x') name = Some new \<and> (new = old \<or> Index new = index \<and> index < Index old))) \<and>
    (r = Inr () \<longrightarrow> (\<exists>new. tb_states (tabs x') name = Some new \<and> Index new \<le> index))"
proof -
  have "tabs x' \<in> {tabs x, create_state name index timestamp (tabs x), lower_floor_tables name index timestamp (tabs x)}"
    by (rule relational_store.LowerStateFloor_outcomes [OF db run])
  then have "\<forall>old. tb_states (tabs x) name = Some old \<longrightarrow>
      (\<exists>new. tb_states (tabs x') name = Some new \<and> (new = old \<or> Index new = index \<and> index < Index old))"
    by (auto simp: create_state_def lowered_def)
  moreover have "\<exists>new. tb_states (tabs x') name = Some new \<and> Index new \<le> index" if "r = Inr ()"
    using relational_store.LowerStateFloor_Inr [OF db run [unfolded that]]
    by (auto simp: lowered_def split: option.split)
  ultimately show ?thesis by blast
qed

theorem floor_only_lowers_witness:
  "\<exists>new. tb_states (m_tabs (snd (LowerStateFloor mem_store BlockFloor 5 50 empty_mem))) BlockFloor = Some new \<and>
     Index new \<le> 5"
  using floor_only_lowers [OF mem_store.relational_store_axioms, of BlockFloor 5 50 empty_mem
      "fst (LowerStateFloor mem_store BlockFloor 5 50 empty_mem)"]
  by (simp add: LowerStateFloor_def CreateStateIfMissing_def mem_store_def mem_write_def faulty_def
      bindE_def empty_mem_def)

text \<open>
  Continuous indexing resumes one block above everything indexed so far: above the last
  block of the history pass and above the \<open>LastIndexed\<close> the database holds, read afresh at
  each attempt; a failed read starts nothing.
\<close>

theorem continuous_start_above_indexed:
  assumes "relational_store db tabs" and "ContinuousStartIndex db historyLastIndex x = (Inr start, x')"
    and "unat historyLastIndex < 18446744073709551615"
    and "unat (Index (state_of (tabs x) LastIndexed)) < 18446744073709551615"
  shows "tabs x' = tabs x \<and>
    unat start = max (unat historyLastIndex) (unat (Index (state_of (tabs x) LastIndexed))) + 1"
  using ContinuousStartIndex_Inr [OF assms] .

theorem continuous_start_above_indexed_witness:
  "unat (10 :: u64) = max (unat (4 :: u64)) (unat (9 :: u64)) + 1"
proof -
  define x where "x = empty_mem\<lparr>m_tabs := upsert_state LastIndexed 9 90 empty_tables\<rparr>"
  have st: "state_of (m_tabs x) LastIndexed = \<lparr>Index = 9, BlockTimestamp = 90\<rparr>"
    by (simp add: x_def state_of_def)
  have "ContinuousStartIndex mem_store 4 x = (Inr 10, x)"
    by (simp add: x_def ContinuousStartIndex_def GetState_def mem_store_def mem_read_def faulty_def
        empty_mem_def bindE_def wrapE_def ResumeIndex_def IsSet_def)
  from continuous_start_above_indexed [OF mem_store.relational_store_axioms this]
  show ?thesis by (simp add: st)
qed

end
