(* ===== verification/Engine.thy ===== *)
theory Engine
  imports Config Boff States
begin

unbundle bit_operations_syntax

text \<open>
  The indexing engine of \<^verbatim>\<open>internal/core/engine.go\<close>: its construction from the
  configuration. \<open>engine\<close> is the struct (the contract resolver, which only the FSP start
  uses, is passed separately there); \<open>deps\<close> holds what the code takes from outside: the
  library functions on addresses and hashes, the retrying of operations, the order in
  which the goroutines of a batch run, and the fuel of the loops that have no bound.
\<close>

record transactionsPolicy =
  status :: bool
  collectEvents :: bool

text \<open>A \<^verbatim>\<open>functionSignature\<close> is an array of four bytes.\<close>

type_synonym functionSignature = "byte list"
type_synonym policies = "address \<Rightarrow> (functionSignature \<Rightarrow> transactionsPolicy option) option"

definition undefined_word :: string where "undefined_word = ''undefined''"
definition nullTopic :: string where "nullTopic = ''NULL''"
definition numTopics :: nat where "numTopics = 4"
definition undefinedAddress :: address where "undefinedAddress = 0"
definition undefinedFuncSig :: functionSignature where "undefinedFuncSig = [0, 0, 0, 0]"

record 'x engine =
  e_db :: "'x store"
  params :: IndexerConfig
  e_transactions :: policies
  e_client :: "'x client"

record 'x deps =
  lib :: common_lib
  max_elapsed :: nat
  retry_block :: "('x, block) backoff_retry"
  retry_header :: "('x, header) backoff_retry"
  retry_receipt :: "('x, receipt) backoff_retry"
  retry_logs :: "('x, ext_log list) backoff_retry"
  schedule :: "nat \<Rightarrow> nat list"
  logs_first :: bool
  loop_fuel :: nat

subsection \<open>Parsing the configuration\<close>

definition parseFuncSig :: "string \<Rightarrow> go_error + functionSignature" where
  "parseFuncSig funcSig =
     (if funcSig = undefined_word then Inr undefinedFuncSig
      else bindR (DecodeString (TrimPrefix funcSig ''0x'')) (\<lambda>bs.
        if length bs \<noteq> 4 then Inl (ErrMsg ''invalid length function signature'') else Inr bs))"

definition parseTransactionAddress :: "common_lib \<Rightarrow> string \<Rightarrow> go_error + address" where
  "parseTransactionAddress L address =
     (if address = undefined_word then Inr undefinedAddress
      else if \<not> IsHexAddress L address then Inl (ErrMsg ''not an address'')
      else Inr (HexToAddress L (if HasPrefix address ''0x'' then address else ''0x'' @ address)))"

text \<open>One entry of the loop: its key, and the map with its policy stored under the key.\<close>

definition entry_key :: "common_lib \<Rightarrow> TransactionInfo \<Rightarrow> go_error + address \<times> functionSignature" where
  "entry_key L transaction =
     bindR (wrapR ''parsing address'' (parseTransactionAddress L (TxContractAddress transaction))) (\<lambda>contractAddress.
     bindR (wrapR ''parsing func sig'' (parseFuncSig (TxFuncSig transaction))) (\<lambda>funcSig.
       Inr (contractAddress, funcSig)))"

definition store_policy :: "address \<Rightarrow> functionSignature \<Rightarrow> transactionsPolicy \<Rightarrow> policies \<Rightarrow> policies" where
  "store_policy a sig pol transactions =
     (let inner = (case transactions a of None \<Rightarrow> (\<lambda>_. None) | Some m \<Rightarrow> m)
      in transactions(a \<mapsto> inner(sig \<mapsto> pol)))"

definition buildTransactionPolicies :: "common_lib \<Rightarrow> TransactionInfo list \<Rightarrow> go_error + policies" where
  "buildTransactionPolicies L txInfo =
     foldR (\<lambda>transactions transaction.
       bindR (entry_key L transaction) (\<lambda>(contractAddress, funcSig).
         Inr (store_policy contractAddress funcSig
                \<lparr>status = TxStatus transaction, collectEvents = TxCollectEvents transaction\<rparr> transactions)))
       (\<lambda>_. None) txInfo"

definition parseLogAddresses :: "common_lib \<Rightarrow> string \<Rightarrow> go_error + address list" where
  "parseLogAddresses L contractAddress =
     (let contractAddress = TrimSpace contractAddress in
      if contractAddress = '''' \<or> EqualFold contractAddress undefined_word then Inr []
      else if \<not> IsHexAddress L contractAddress then Inl (ErrMsg ''not a valid address'')
      else Inr [HexToAddress L contractAddress])"

definition parseLogTopics :: "common_lib \<Rightarrow> string \<Rightarrow> go_error + hash list list" where
  "parseLogTopics L topic0 =
     (let topic0 = TrimSpace topic0 in
      if topic0 = '''' \<or> EqualFold topic0 undefined_word then Inr []
      else bindR (wrapR ''decoding topic0'' (DecodeString (TrimPrefix (ToLower topic0) ''0x''))) (\<lambda>decoded.
        if length decoded \<noteq> 32 then Inl (ErrMsg ''topic0 does not have 32 bytes'')
        else Inr [[BytesToHash L decoded]]))"

definition validateCollectLogs :: "common_lib \<Rightarrow> LogInfo list \<Rightarrow> go_error + unit" where
  "validateCollectLogs L logInfos =
     foldR (\<lambda>_ logInfo.
       bindR (wrapR ''collect_logs address'' (parseLogAddresses L (LogContractAddress logInfo))) (\<lambda>_.
       bindR (wrapR ''collect_logs topic'' (parseLogTopics L (LogTopic logInfo))) (\<lambda>_. Inr ()))) () logInfos"

definition applyIndexerDefaults :: "IndexerConfig \<Rightarrow> IndexerConfig" where
  "applyIndexerDefaults p =
     p\<lparr>StopIndex := if StopIndex p = 0 then NOT 0 else StopIndex p,
       LogRange := if LogRange p = 0 then 1 else LogRange p,
       BatchSize := if BatchSize p = 0 then 1 else BatchSize p,
       RpcConcurrency := if RpcConcurrency p \<le> 0 then 1 else RpcConcurrency p,
       NewBlockCheckMillis := if NewBlockCheckMillis p \<le> 0 then 100 else NewBlockCheckMillis p\<rparr>"

definition NewEngine ::
  "common_lib \<Rightarrow> Config \<Rightarrow> 'x store \<Rightarrow> 'x client \<Rightarrow> 'r option \<Rightarrow> go_error + 'x engine" where
  "NewEngine L cfg db client contractResolver =
     bindR (buildTransactionPolicies L (CollectTransactions (Indexer cfg))) (\<lambda>txs.
     bindR (validateCollectLogs L (CollectLogs (Indexer cfg))) (\<lambda>_.
       if contractResolver = None then Inl (ErrMsg ''contract resolver is required'')
       else Inr \<lparr>e_db = db, params = applyIndexerDefaults (Indexer cfg), e_transactions = txs, e_client = client\<rparr>))"

text \<open>
  \<^verbatim>\<open>internal/diagnostics\<close>: the text that the collection policy is printed with.
\<close>

definition contractRef :: "string \<Rightarrow> string \<Rightarrow> string" where
  "contractRef name address =
     (let n = TrimSpace name; a = TrimSpace address in
      if n \<noteq> '''' \<and> a \<noteq> '''' then n @ '' ('' @ a @ '')''
      else if n \<noteq> '''' then n
      else if a \<noteq> '''' then a
      else ''<any>'')"

definition formatHexOrAny :: "string \<Rightarrow> string" where
  "formatHexOrAny value =
     (let v = ToLower (TrimSpace value) in
      if v = '''' \<or> v = undefined_word then ''<any>''
      else if \<not> HasPrefix v ''0x'' then ''0x'' @ v else v)"

definition go_bool :: "bool \<Rightarrow> string" where
  "go_bool b = (if b then ''true'' else ''false'')"

text \<open>The lines that \<^verbatim>\<open>LogIndexerPolicy\<close> and \<^verbatim>\<open>LogFspEventFilter\<close> print.\<close>

definition LogIndexerPolicy :: "IndexerConfig \<Rightarrow> string list" where
  "LogIndexerPolicy cfg =
     [''Indexer collection policy: '' @ decimal (length (CollectTransactions cfg)) @ '' transaction filters, '' @
        decimal (length (CollectLogs cfg)) @ '' log filters''] @
     map (\<lambda>tx. ''  tx_filter: contract='' @ contractRef (TxContractName tx) (TxContractAddress tx) @
            '', func_sig='' @ formatHexOrAny (TxFuncSig tx) @ '', status='' @ go_bool (TxStatus tx) @
            '', collect_events='' @ go_bool (TxCollectEvents tx)) (CollectTransactions cfg) @
     map (\<lambda>lg. ''  log_filter: contract='' @ contractRef (LogContractName lg) (LogContractAddress lg) @
            '', topic='' @ formatHexOrAny (LogTopic lg)) (CollectLogs cfg)"

definition LogFspEventFilter :: "LogInfo list \<Rightarrow> string list" where
  "LogFspEventFilter logs =
     [''FSP event range filter: '' @ decimal (length logs) @ '' entries''] @
     map (\<lambda>lg. ''  fsp_event_filter: contract='' @ contractRef (LogContractName lg) (LogContractAddress lg) @
            '', topic='' @ formatHexOrAny (LogTopic lg)) logs"

subsection \<open>Function signatures\<close>

lemma DecodeString_iff: "DecodeString s = Inr bs \<longleftrightarrow> ToLower s = EncodeToString bs"
  by (metis DecodeString_ToLower EncodeToString_DecodeString hex_round_trip)

text \<open>
  C28: parsing a function signature inverts printing it: a text is accepted as the signature
  \<open>sig\<close> exactly when, after an optional \<^verbatim>\<open>0x\<close>, it is the eight hexadecimal digits of the
  four bytes \<open>sig\<close>, in either case; or it is the word \<^verbatim>\<open>undefined\<close>, which stands for the zero
  signature. Every other text is an error.
\<close>

theorem func_sig_round_trip:
  "parseFuncSig s = Inr sig \<longleftrightarrow>
     s = ''undefined'' \<and> sig = [0, 0, 0, 0] \<or>
     length sig = 4 \<and> ToLower (TrimPrefix s ''0x'') = EncodeToString sig"
proof (cases "s = ''undefined''")
  case True
  have "length (ToLower (TrimPrefix ''undefined'' ''0x'')) \<noteq> 8"
    by (simp add: TrimPrefix_def HasPrefix_def ToLower_def)
  then have "\<not> (length sig = 4 \<and> ToLower (TrimPrefix s ''0x'') = EncodeToString sig)"
    using True length_EncodeToString [of sig] by (auto dest!: arg_cong [where f = length])
  with True show ?thesis by (auto simp: parseFuncSig_def undefined_word_def undefinedFuncSig_def)
next
  case False
  then have "parseFuncSig s = Inr sig \<longleftrightarrow> DecodeString (TrimPrefix s ''0x'') = Inr sig \<and> length sig = 4"
    by (auto simp: parseFuncSig_def undefined_word_def)
  with False show ?thesis by (auto simp: DecodeString_iff)
qed

lemma parseFuncSig_length: "parseFuncSig s = Inr sig \<Longrightarrow> length sig = 4"
  by (auto simp: parseFuncSig_def undefinedFuncSig_def split: if_splits)

lemma parseFuncSig_round_trip: "length sig = 4 \<Longrightarrow> parseFuncSig (''0x'' @ EncodeToString sig) = Inr sig"
  using TrimPrefix_append [of "''0x''" "EncodeToString sig"]
  by (simp add: parseFuncSig_def undefined_word_def del: TrimPrefix_append)

subsection \<open>The map of policies\<close>

definition lookup_policy :: "policies \<Rightarrow> address \<Rightarrow> functionSignature \<Rightarrow> transactionsPolicy option" where
  "lookup_policy m a sig = (case m a of None \<Rightarrow> None | Some inner \<Rightarrow> inner sig)"

definition policy_of_info :: "TransactionInfo \<Rightarrow> transactionsPolicy" where
  "policy_of_info t = \<lparr>status = TxStatus t, collectEvents = TxCollectEvents t\<rparr>"

lemma lookup_store_policy:
  "lookup_policy (store_policy a sig pol m) = (\<lambda>a' sig'. if a' = a \<and> sig' = sig then Some pol else lookup_policy m a' sig')"
  by (auto simp: lookup_policy_def store_policy_def Let_def fun_eq_iff split: option.splits)

text \<open>What is stored under a key is the policy of the last entry with that key.\<close>

lemma buildTransactionPolicies_lookup:
  assumes "buildTransactionPolicies L infos = Inr m"
  shows "lookup_policy m a sig =
      map_option policy_of_info (find (\<lambda>t. entry_key L t = Inr (a, sig)) (rev infos)) \<and>
    (\<forall>t \<in> set infos. \<exists>k. entry_key L t = Inr k)"
  using assms
proof (induction infos arbitrary: m rule: rev_induct)
  case Nil
  then show ?case by (auto simp: buildTransactionPolicies_def lookup_policy_def)
next
  case (snoc t infos)
  then obtain m0 a0 s0 where m0: "buildTransactionPolicies L infos = Inr m0"
    and k: "entry_key L t = Inr (a0, s0)" and m: "m = store_policy a0 s0 (policy_of_info t) m0"
    by (auto simp: buildTransactionPolicies_def foldR_append policy_of_info_def)
  from snoc.IH [OF m0] show ?case by (auto simp: m k lookup_store_policy)
qed

end
