(* ===== verification/Blocks.thy ===== *)
theory Blocks
  imports Engine
begin

text \<open>
  Fetching blocks and selecting transactions, \<^verbatim>\<open>internal/core/blocks.go\<close>, with the batch of
  selected transactions of \<^verbatim>\<open>internal/core/transactions.go\<close>. Locks are left out: a batch is
  shared by the goroutines of one call only, which write to different positions.
\<close>

subsection \<open>Fetching\<close>

definition fetchBlock :: "'x deps \<Rightarrow> 'x engine \<Rightarrow> u64 option \<Rightarrow> ('x, block) io" where
  "fetchBlock D ci index =
     RetryWithMaxElapsed (retry_block D) (max_elapsed D)
       (BlockByNumber (e_client ci) (map_option uint index))"

definition fetchBlockHeader :: "'x deps \<Rightarrow> 'x engine \<Rightarrow> u64 option \<Rightarrow> ('x, header) io" where
  "fetchBlockHeader D ci index =
     RetryWithMaxElapsed (retry_header D) (max_elapsed D)
       (HeaderByNumber (e_client ci) (map_option uint index))"

definition fetchLastBlockIndex :: "'x deps \<Rightarrow> 'x engine \<Rightarrow> ('x, u64 \<times> u64) io" where
  "fetchLastBlockIndex D ci =
     bindE (wrapE ''fetchBlockHeader last'' (fetchBlockHeader D ci None)) (\<lambda>lastBlock.
     bindE (liftR (big_Uint64 (Header_Number lastBlock))) (\<lambda>lastBlockNumber.
       if lastBlockNumber < Confirmations (params ci)
       then throw (ErrMsg ''not enough confirmations'')
       else
         let latestConfirmedNumber = lastBlockNumber - Confirmations (params ci) in
         bindE (wrapE ''fetchBlockHeader latestConfirmed''
                  (fetchBlockHeader D ci (Some latestConfirmedNumber))) (\<lambda>latestConfirmedHeader.
           ret (latestConfirmedNumber, Header_Time latestConfirmedHeader))))"

definition fetchBlockTimestamp :: "'x deps \<Rightarrow> 'x engine \<Rightarrow> u64 \<Rightarrow> ('x, u64) io" where
  "fetchBlockTimestamp D ci index =
     bindE (wrapE ''fetchBlockHeader'' (fetchBlockHeader D ci (Some index))) (\<lambda>lastBlock.
       ret (Header_Time lastBlock))"

text \<open>\<^verbatim>\<open>api.go\<close>: the two under the names that other packages use.\<close>

definition FetchLastBlockIndex :: "'x deps \<Rightarrow> 'x engine \<Rightarrow> ('x, u64 \<times> u64) io" where
  [simp]: "FetchLastBlockIndex D ci = fetchLastBlockIndex D ci"

definition FetchBlockTimestamp :: "'x deps \<Rightarrow> 'x engine \<Rightarrow> u64 \<Rightarrow> ('x, u64) io" where
  [simp]: "FetchBlockTimestamp D ci block = fetchBlockTimestamp D ci block"

subsection \<open>Selecting transactions\<close>

record transactionsBatch =
  transactions :: "transaction list"
  blocks :: "block list"
  indices :: "u64 list"
  receipts :: "receipt option list"
  policies :: "transactionsPolicy list"

definition empty_txBatch :: transactionsBatch where
  "empty_txBatch = \<lparr>transactions = [], blocks = [], indices = [], receipts = [], policies = []\<rparr>"

definition Add ::
  "transaction \<Rightarrow> block \<Rightarrow> u64 \<Rightarrow> receipt option \<Rightarrow> transactionsPolicy \<Rightarrow> transactionsBatch \<Rightarrow> transactionsBatch" where
  "Add tx block index receipt policy tb =
     tb\<lparr>transactions := transactions tb @ [tx], blocks := blocks tb @ [block],
        indices := indices tb @ [index], receipts := receipts tb @ [receipt],
        policies := policies tb @ [policy]\<rparr>"

text \<open>The two nested loops over addresses and signatures, with the flag \<open>check\<close>.\<close>

definition match_policy ::
  "policies \<Rightarrow> address \<Rightarrow> functionSignature \<Rightarrow> bool \<times> transactionsPolicy" where
  "match_policy ts contractAddress funcSig =
     fold (\<lambda>address acc.
         case ts address of
           None \<Rightarrow> acc
         | Some val \<Rightarrow>
             fold (\<lambda>sig (check, policy).
                 case val sig of
                   None \<Rightarrow> (check, policy)
                 | Some pol \<Rightarrow>
                     (True, \<lparr>status = (status policy \<or> status pol),
                             collectEvents = (collectEvents policy \<or> collectEvents pol)\<rparr>))
               [funcSig, undefinedFuncSig] acc)
       [contractAddress, undefinedAddress]
       (False, \<lparr>status = False, collectEvents = False\<rparr>)"

definition select_tx :: "policies \<Rightarrow> block \<Rightarrow> nat \<times> transaction \<Rightarrow> transactionsBatch \<Rightarrow> transactionsBatch" where
  "select_tx ts block = (\<lambda>(txIndex, tx) txBatch.
     case Tx_To tx of
       None \<Rightarrow> txBatch
     | Some contractAddress \<Rightarrow>
         let txData = Tx_Data tx in
         if length txData < 4 then txBatch
         else
           let (check, policy) = match_policy ts contractAddress (take 4 txData) in
           if check then Add tx block (of_nat txIndex) None policy txBatch else txBatch)"

definition processBlockBatch :: "'x engine \<Rightarrow> block list \<Rightarrow> transactionsBatch \<Rightarrow> nat \<Rightarrow> transactionsBatch" where
  "processBlockBatch ci bBatch txBatch i =
     (let block = bBatch ! i
      in fold (select_tx (e_transactions ci) block) (enumerate 0 (Block_Transactions block)) txBatch)"

definition processBlocks :: "'x engine \<Rightarrow> block list \<Rightarrow> transactionsBatch \<Rightarrow> transactionsBatch" where
  "processBlocks ci bBatch txBatch =
     fold (\<lambda>i txBatch. processBlockBatch ci bBatch txBatch i) [0..<length bBatch] txBatch"

text \<open>\<^verbatim>\<open>[2:]\<close> drops the \<^verbatim>\<open>0x\<close>; it panics on a shorter text, which \<^verbatim>\<open>Hex\<close> never returns.\<close>

definition convertBlocksToDB :: "common_lib \<Rightarrow> block list \<Rightarrow> go_error + db_block list" where
  "convertBlocksToDB L bBatch =
     mapR (\<lambda>b. bindR (big_Uint64 (Block_Number b)) (\<lambda>number.
       Inr \<lparr>b_hash = drop 2 (HashHex L (Block_Hash b)), b_number = number, b_timestamp = Block_Time b\<rparr>)) bBatch"

subsection \<open>Which transactions are selected\<close>

text \<open>\<open>matches\<close>: an entry with this key is about a call of \<open>sig\<close> at \<open>a\<close>.\<close>

definition matches :: "address \<Rightarrow> functionSignature \<Rightarrow> address \<times> functionSignature \<Rightarrow> bool" where
  "matches a sig = (\<lambda>(a', sig'). a' \<in> {a, undefinedAddress} \<and> sig' \<in> {sig, undefinedFuncSig})"

lemma match_policy_lookups:
  "match_policy ts a sig =
     ((\<exists>k. matches a sig k \<and> lookup_policy ts (fst k) (snd k) \<noteq> None),
      \<lparr>status = (\<exists>k p. matches a sig k \<and> lookup_policy ts (fst k) (snd k) = Some p \<and> status p),
       collectEvents = (\<exists>k p. matches a sig k \<and> lookup_policy ts (fst k) (snd k) = Some p \<and> collectEvents p)\<rparr>)"
proof -
  let ?L = "\<lambda>a sig. lookup_policy ts a sig"
  have "match_policy ts a sig =
     (?L a sig \<noteq> None \<or> ?L a undefinedFuncSig \<noteq> None \<or>
      ?L undefinedAddress sig \<noteq> None \<or> ?L undefinedAddress undefinedFuncSig \<noteq> None,
      \<lparr>status = (\<exists>p. status p \<and> (?L a sig = Some p \<or> ?L a undefinedFuncSig = Some p \<or>
          ?L undefinedAddress sig = Some p \<or> ?L undefinedAddress undefinedFuncSig = Some p)),
       collectEvents = (\<exists>p. collectEvents p \<and> (?L a sig = Some p \<or> ?L a undefinedFuncSig = Some p \<or>
          ?L undefinedAddress sig = Some p \<or> ?L undefinedAddress undefinedFuncSig = Some p))\<rparr>)"
    unfolding match_policy_def lookup_policy_def
    by (cases "ts a"; cases "ts undefinedAddress") (auto split: option.splits)
  also have "\<dots> = ((\<exists>k. matches a sig k \<and> lookup_policy ts (fst k) (snd k) \<noteq> None),
      \<lparr>status = (\<exists>k p. matches a sig k \<and> lookup_policy ts (fst k) (snd k) = Some p \<and> status p),
       collectEvents = (\<exists>k p. matches a sig k \<and> lookup_policy ts (fst k) (snd k) = Some p \<and> collectEvents p)\<rparr>)"
    unfolding matches_def by auto
  finally show ?thesis .
qed

lemma distinct_keys_find:
  assumes "distinct (map (entry_key L) infos)"
  shows "find (\<lambda>t. entry_key L t = Inr k) (rev infos) = Some t \<longleftrightarrow> t \<in> set infos \<and> entry_key L t = Inr k"
proof
  assume "find (\<lambda>t. entry_key L t = Inr k) (rev infos) = Some t"
  then show "t \<in> set infos \<and> entry_key L t = Inr k" by (auto simp: find_Some_iff in_set_conv_nth)
      (metis length_rev nth_mem set_rev in_set_conv_nth)
next
  assume t: "t \<in> set infos \<and> entry_key L t = Inr k"
  then obtain u where u: "find (\<lambda>t. entry_key L t = Inr k) (rev infos) = Some u"
    by (cases "find (\<lambda>t. entry_key L t = Inr k) (rev infos)") (auto simp: find_None_iff)
  then have "u \<in> set infos" "entry_key L u = Inr k"
    by (auto simp: find_Some_iff) (metis length_rev nth_mem set_rev)
  with t assms have "u = t" unfolding distinct_map by (metis inj_onD)
  with u show "find (\<lambda>t. entry_key L t = Inr k) (rev infos) = Some t" by simp
qed

text \<open>The policy of a call is the combination of the entries that match it.\<close>

lemma match_policy_entries:
  assumes m: "buildTransactionPolicies L infos = Inr ts" and d: "distinct (map (entry_key L) infos)"
  shows "match_policy ts a sig =
    ((\<exists>t \<in> set infos. \<exists>k. entry_key L t = Inr k \<and> matches a sig k),
     \<lparr>status = (\<exists>t \<in> set infos. \<exists>k. entry_key L t = Inr k \<and> matches a sig k \<and> TxStatus t),
      collectEvents = (\<exists>t \<in> set infos. \<exists>k. entry_key L t = Inr k \<and> matches a sig k \<and> TxCollectEvents t)\<rparr>)"
proof -
  have l: "lookup_policy ts (fst k) (snd k) = Some p \<longleftrightarrow>
      (\<exists>t \<in> set infos. entry_key L t = Inr k \<and> p = policy_of_info t)" for k p
    using buildTransactionPolicies_lookup [where a = "fst k" and sig = "snd k", OF m] distinct_keys_find [OF d, of k]
    by (cases k) auto
  have any: "(\<exists>k p. matches a sig k \<and> lookup_policy ts (fst k) (snd k) = Some p \<and> f p) \<longleftrightarrow>
      (\<exists>t \<in> set infos. \<exists>k. entry_key L t = Inr k \<and> matches a sig k \<and> f (policy_of_info t))" for f
    unfolding l by blast
  have "(\<exists>k. matches a sig k \<and> lookup_policy ts (fst k) (snd k) \<noteq> None) \<longleftrightarrow>
      (\<exists>t \<in> set infos. \<exists>k. entry_key L t = Inr k \<and> matches a sig k)"
    using any [of "\<lambda>_. True"] by auto
  then show ?thesis
    unfolding match_policy_lookups any by (simp add: policy_of_info_def)
qed

subsection \<open>The batch of selected transactions\<close>

text \<open>
  The five slices of a batch in parallel, and what selecting from the blocks puts there:
  for each block in order, each selected transaction with its index and policy, and no
  receipt yet.
\<close>

definition batch_ok :: "transactionsBatch \<Rightarrow> bool" where
  "batch_ok tb \<longleftrightarrow>
     length (blocks tb) = length (transactions tb) \<and> length (indices tb) = length (transactions tb) \<and>
     length (receipts tb) = length (transactions tb) \<and> length (policies tb) = length (transactions tb)"

definition entries :: "transactionsBatch \<Rightarrow> (transaction \<times> block \<times> u64 \<times> transactionsPolicy) list" where
  "entries tb = zip (transactions tb) (zip (blocks tb) (zip (indices tb) (policies tb)))"

definition selected :: "policies \<Rightarrow> block \<Rightarrow> (transaction \<times> block \<times> u64 \<times> transactionsPolicy) list" where
  "selected ts block =
     concat (map (\<lambda>(txIndex, tx).
       case Tx_To tx of
         None \<Rightarrow> []
       | Some a \<Rightarrow>
           if length (Tx_Data tx) < 4 \<or> \<not> fst (match_policy ts a (take 4 (Tx_Data tx))) then []
           else [(tx, block, of_nat txIndex, snd (match_policy ts a (take 4 (Tx_Data tx))))])
       (enumerate 0 (Block_Transactions block)))"

lemma empty_txBatch_ok [simp]: "batch_ok empty_txBatch" "entries empty_txBatch = []" "receipts empty_txBatch = []"
  by (simp_all add: batch_ok_def entries_def empty_txBatch_def)

lemma Add_batch:
  assumes "batch_ok tb"
  shows "batch_ok (Add tx b i r p tb)" and "entries (Add tx b i r p tb) = entries tb @ [(tx, b, i, p)]"
    and "receipts (Add tx b i r p tb) = receipts tb @ [r]"
  using assms by (simp_all add: batch_ok_def entries_def Add_def)

lemma select_fold:
  assumes "batch_ok tb" and "receipts tb = replicate (length (transactions tb)) None"
  shows "batch_ok (fold (select_tx ts b) xs tb) \<and>
    receipts (fold (select_tx ts b) xs tb) = replicate (length (transactions (fold (select_tx ts b) xs tb))) None \<and>
    entries (fold (select_tx ts b) xs tb) = entries tb @ concat (map (\<lambda>(txIndex, tx).
       case Tx_To tx of
         None \<Rightarrow> []
       | Some a \<Rightarrow>
           if length (Tx_Data tx) < 4 \<or> \<not> fst (match_policy ts a (take 4 (Tx_Data tx))) then []
           else [(tx, b, of_nat txIndex, snd (match_policy ts a (take 4 (Tx_Data tx))))]) xs)"
  using assms
proof (induction xs arbitrary: tb)
  case (Cons x xs)
  obtain i tx where x: "x = (i, tx)" by force
  show ?case
  proof (cases "Tx_To tx")
    case None
    then have "select_tx ts b x tb = tb" by (simp add: select_tx_def x)
    with Cons.IH [OF Cons.prems] None show ?thesis by (simp add: x)
  next
    case (Some a)
    obtain c p where cp: "match_policy ts a (take 4 (Tx_Data tx)) = (c, p)" by force
    have step: "select_tx ts b (i, tx) tb =
        (if length (Tx_Data tx) < 4 \<or> \<not> c then tb else Add tx b (of_nat i) None p tb)"
      using Some cp by (simp add: select_tx_def x Let_def)
    have "length (transactions (Add tx b (of_nat i) None p tb)) = Suc (length (transactions tb))"
      by (simp add: Add_def)
    then have "receipts (Add tx b (of_nat i) None p tb) =
        replicate (length (transactions (Add tx b (of_nat i) None p tb))) None"
      using Add_batch(3) [OF Cons.prems(1)] Cons.prems(2) by (simp add: replicate_append_same)
    note added = Cons.IH [OF Add_batch(1) [OF Cons.prems(1)] this]
    show ?thesis
    proof (cases "length (Tx_Data tx) < 4 \<or> \<not> c")
      case True
      then have "select_tx ts b x tb = tb" using step by (simp add: x)
      with Cons.IH [OF Cons.prems] True Some cp show ?thesis by (simp add: x)
    next
      case False
      then have "select_tx ts b x tb = Add tx b (of_nat i) None p tb" using step by (simp add: x)
      with added Add_batch(2) [OF Cons.prems(1)] False Some cp show ?thesis by (simp add: x)
    qed
  qed
qed simp

lemma fold_upt_nth: "fold (\<lambda>i. f (xs ! i)) [0..<length xs] a = fold f xs a"
proof -
  have "fold (\<lambda>i. f (xs ! i)) [0..<length xs] a = fold f (map ((!) xs) [0..<length xs]) a"
    by (simp add: fold_map o_def)
  then show ?thesis by (simp add: map_nth)
qed

lemma processBlocks_fold:
  "processBlocks ci bs tb =
     fold (\<lambda>b tb. fold (select_tx (e_transactions ci) b) (enumerate 0 (Block_Transactions b)) tb) bs tb"
  unfolding processBlocks_def processBlockBatch_def Let_def
  using fold_upt_nth [of "\<lambda>b tb. fold (select_tx (e_transactions ci) b) (enumerate 0 (Block_Transactions b)) tb" bs tb]
  by simp

lemma processBlocks_entries:
  assumes "batch_ok tb" and "receipts tb = replicate (length (transactions tb)) None"
  shows "batch_ok (processBlocks ci bs tb) \<and>
    receipts (processBlocks ci bs tb) = replicate (length (transactions (processBlocks ci bs tb))) None \<and>
    entries (processBlocks ci bs tb) = entries tb @ concat (map (selected (e_transactions ci)) bs)"
  using assms unfolding processBlocks_fold
proof (induction bs arbitrary: tb)
  case (Cons b bs)
  from select_fold [OF Cons.prems, of "e_transactions ci" b "enumerate 0 (Block_Transactions b)"]
  show ?case using Cons.IH by (simp add: selected_def)
qed simp

text \<open>
  An entry is about a transaction that calls its contract, or any contract if it leaves the contract open, with
  its function signature, or with any if it leaves the signature open.
\<close>

definition entry_calls :: "common_lib \<Rightarrow> transaction \<Rightarrow> TransactionInfo \<Rightarrow> bool" where
  "entry_calls L tx t \<longleftrightarrow>
     (\<exists>a k. Tx_To tx = Some a \<and> 4 \<le> length (Tx_Data tx) \<and> entry_key L t = Inr k \<and> matches a (take 4 (Tx_Data tx)) k)"

definition combined_policy :: "common_lib \<Rightarrow> TransactionInfo list \<Rightarrow> transaction \<Rightarrow> transactionsPolicy" where
  "combined_policy L infos tx =
     \<lparr>status = (\<exists>t \<in> set infos. entry_calls L tx t \<and> TxStatus t),
      collectEvents = (\<exists>t \<in> set infos. entry_calls L tx t \<and> TxCollectEvents t)\<rparr>"

lemma selected_entries:
  assumes "buildTransactionPolicies L infos = Inr ts" and "distinct (map (entry_key L) infos)"
  shows "selected ts b =
    map (\<lambda>(n, tx). (tx, b, of_nat n, combined_policy L infos tx))
      (filter (\<lambda>(n, tx). \<exists>t \<in> set infos. entry_calls L tx t) (enumerate 0 (Block_Transactions b)))"
proof -
  note m = match_policy_entries [OF assms]
  have "(case Tx_To tx of
         None \<Rightarrow> []
       | Some a \<Rightarrow>
           if length (Tx_Data tx) < 4 \<or> \<not> fst (match_policy ts a (take 4 (Tx_Data tx))) then []
           else [(tx, b, of_nat n :: u64, snd (match_policy ts a (take 4 (Tx_Data tx))))]) =
      (if \<exists>t \<in> set infos. entry_calls L tx t then [(tx, b, of_nat n, combined_policy L infos tx)] else [])" for n tx
    by (cases "Tx_To tx") (auto simp: m entry_calls_def combined_policy_def)
  moreover have "concat (map (\<lambda>(n, tx). if P tx then [f n tx] else []) xs) = map (\<lambda>(n, tx). f n tx) (filter (\<lambda>(n, tx). P tx) xs)"
    for P and f :: "nat \<Rightarrow> transaction \<Rightarrow> transaction \<times> block \<times> u64 \<times> transactionsPolicy" and xs
    by (induction xs) auto
  ultimately show ?thesis by (simp add: selected_def)
qed

text \<open>
  C18: a transaction is selected exactly when it has a recipient, at least four bytes of call data,
  and some configured entry that names its contract, or leaves the contract open, and names its
  function signature, or leaves it open. The transactions are selected in the order of the blocks
  and of their positions, each once, with its block and its index in it; the status is wanted, and
  the events are, exactly when one of the matching entries asks for it; no receipt is there yet.
  (No two entries may name the same contract and signature.)
\<close>

theorem tx_policy_combines_entries:
  assumes "buildTransactionPolicies L infos = Inr (e_transactions ci)" and "distinct (map (entry_key L) infos)"
  shows "entries (processBlocks ci bs empty_txBatch) =
      concat (map (\<lambda>b. map (\<lambda>(n, tx). (tx, b, of_nat n, combined_policy L infos tx))
        (filter (\<lambda>(n, tx). \<exists>t \<in> set infos. entry_calls L tx t) (enumerate 0 (Block_Transactions b)))) bs) \<and>
    batch_ok (processBlocks ci bs empty_txBatch) \<and> set (receipts (processBlocks ci bs empty_txBatch)) \<subseteq> {None}"
proof -
  have "selected (e_transactions ci) = (\<lambda>b. map (\<lambda>(n, tx). (tx, b, of_nat n, combined_policy L infos tx))
      (filter (\<lambda>(n, tx). \<exists>t \<in> set infos. entry_calls L tx t) (enumerate 0 (Block_Transactions b))))"
    using selected_entries [OF assms] by (simp add: fun_eq_iff)
  moreover have "receipts empty_txBatch = replicate (length (transactions empty_txBatch)) None" by (simp add: empty_txBatch_def)
  ultimately show ?thesis using processBlocks_entries [of empty_txBatch ci bs] by auto
qed

lemma find_SomeD: "find P xs = Some x \<Longrightarrow> x \<in> set xs \<and> P x"
  by (auto simp: find_Some_iff)

lemma find_skip: "\<forall>x \<in> set xs. \<not> P x \<Longrightarrow> find P (xs @ ys) = find P ys"
  by (induction xs) auto

text \<open>
  Of entries for one contract and signature the last one alone decides: where no other entry
  matches, the policy is that of the last entry, whatever the earlier ones ask for. An entry that asks
  for status and events is undone by a later one that does not, also where, as for the
  built-in FSP collectors, the first names its contract by name and the second by address, which
  the merging of collectors does not recognise as the same.
\<close>

theorem later_entry_replaces_flags:
  assumes m: "buildTransactionPolicies L (before @ t # after) = Inr ts"
    and t: "entry_key L t = Inr (a, sig)" and last: "\<forall>u \<in> set after. entry_key L u \<noteq> Inr (a, sig)"
  shows "lookup_policy ts a sig = Some \<lparr>status = TxStatus t, collectEvents = TxCollectEvents t\<rparr> \<and>
    ((\<forall>u \<in> set (before @ after). \<forall>k. entry_key L u = Inr k \<longrightarrow> matches a sig k \<longrightarrow> k = (a, sig)) \<longrightarrow>
      match_policy ts a sig = (True, \<lparr>status = TxStatus t, collectEvents = TxCollectEvents t\<rparr>))"
proof -
  have "find (\<lambda>u. entry_key L u = Inr (a, sig)) (rev (before @ t # after)) = Some t"
    using t last by (simp add: find_skip)
  with buildTransactionPolicies_lookup [OF m, of a sig]
  have one: "lookup_policy ts a sig = Some (policy_of_info t)" by simp
  moreover have "match_policy ts a sig = (True, policy_of_info t)"
    if only: "\<forall>u \<in> set (before @ after). \<forall>k. entry_key L u = Inr k \<longrightarrow> matches a sig k \<longrightarrow> k = (a, sig)"
  proof -
    have key: "k = (a, sig)" if k: "matches a sig k" "lookup_policy ts (fst k) (snd k) \<noteq> None" for k
    proof -
      from k(2) buildTransactionPolicies_lookup [OF m, of "fst k" "snd k"] obtain u where
        "u \<in> set (before @ t # after)" "entry_key L u = Inr k"
        using find_SomeD by fastforce
      with only k(1) t show ?thesis by (cases k) auto
    qed
    have self: "matches a sig (a, sig)" by (simp add: matches_def)
    have l: "matches a sig k \<and> lookup_policy ts (fst k) (snd k) = Some p \<longleftrightarrow> k = (a, sig) \<and> p = policy_of_info t" for k p
    proof
      assume k: "matches a sig k \<and> lookup_policy ts (fst k) (snd k) = Some p"
      then have "k = (a, sig)" using key by simp
      with k one show "k = (a, sig) \<and> p = policy_of_info t" by simp
    qed (use one self in simp)
    have "(\<exists>k p. matches a sig k \<and> lookup_policy ts (fst k) (snd k) = Some p \<and> f p) \<longleftrightarrow> f (policy_of_info t)" for f
      unfolding conj_assoc [symmetric] l by simp
    moreover have "\<exists>k. matches a sig k \<and> lookup_policy ts (fst k) (snd k) \<noteq> None"
      using one self by (intro exI [of _ "(a, sig)"]) simp
    ultimately show ?thesis unfolding match_policy_lookups by simp
  qed
  ultimately show ?thesis by (simp add: policy_of_info_def)
qed

subsection \<open>Concrete entries\<close>

definition example_entry :: "string \<Rightarrow> bool \<Rightarrow> TransactionInfo" where
  "example_entry sig flag =
     \<lparr>TxContractAddress = ''0x00000000000000000000000000000000000000aa'', TxContractName = '''',
      TxFuncSig = sig, TxStatus = flag, TxCollectEvents = flag\<rparr>"

lemma example_entry_flags [simp]:
  "TxStatus (example_entry sig flag) = flag" "TxCollectEvents (example_entry sig flag) = flag"
  by (simp_all add: example_entry_def)

lemma example_keys:
  "entry_key plain_lib (example_entry ''b59589d1'' flag) = Inr (0xaa, [0xb5, 0x95, 0x89, 0xd1])"
  "entry_key plain_lib (example_entry ''0xB59589D1'' flag) = Inr (0xaa, [0xb5, 0x95, 0x89, 0xd1])"
  "entry_key plain_lib (example_entry ''undefined'' flag) = Inr (0xaa, [0, 0, 0, 0])"
  by (cases flag; code_simp)+

text \<open>A block with a transaction that deploys a contract, one with short data, and a call of another contract and of the named one.\<close>

definition example_tx :: "hash \<Rightarrow> address option \<Rightarrow> byte list \<Rightarrow> ext_tx" where
  "example_tx h to data = \<lparr>tx_hash = h, tx_to = to, tx_data = data, tx_chain_id = 14, tx_value = 0, tx_gas_price = 25, tx_gas = 21000\<rparr>"

definition example_block :: block where
  "example_block = AvaxData \<lparr>bk_number = 5, bk_time = 50, bk_hash = 9,
     bk_txs = [example_tx 1 None [0xb5, 0x95, 0x89, 0xd1], example_tx 2 (Some 0xaa) [0xb5, 0x95, 0x89],
       example_tx 3 (Some 0xbb) [0xb5, 0x95, 0x89, 0xd1], example_tx 4 (Some 0xaa) [0xb5, 0x95, 0x89, 0xd1]]\<rparr>"

theorem tx_policy_combines_entries_witness:
  "\<exists>ts. buildTransactionPolicies plain_lib [example_entry ''b59589d1'' False, example_entry ''undefined'' True] = Inr ts \<and>
     entries (processBlocks \<lparr>e_db = (undefined :: unit store), params = Indexer defaultConfig, e_transactions = ts, e_client = undefined\<rparr>
       [example_block] empty_txBatch) =
     [(AvaxData (example_tx 4 (Some 0xaa) [0xb5, 0x95, 0x89, 0xd1]), example_block, 3, \<lparr>status = True, collectEvents = True\<rparr>)]"
proof -
  let ?es = "[example_entry ''b59589d1'' False, example_entry ''undefined'' True]"
  obtain ts where ts: "buildTransactionPolicies plain_lib ?es = Inr ts"
    by (auto simp: buildTransactionPolicies_def example_keys)
  have d: "distinct (map (entry_key plain_lib) ?es)" by (simp add: example_keys)
  show ?thesis
    using tx_policy_combines_entries [of plain_lib ?es "\<lparr>e_db = undefined, params = Indexer defaultConfig, e_transactions = ts, e_client = undefined\<rparr>"
        "[example_block]"] ts d
    by (auto simp: example_keys example_block_def example_tx_def entry_calls_def combined_policy_def matches_def
        undefinedFuncSig_def undefinedAddress_def)
qed

theorem later_entry_replaces_flags_witness:
  "\<exists>ts. buildTransactionPolicies plain_lib [example_entry ''b59589d1'' True, example_entry ''0xB59589D1'' False] = Inr ts \<and>
     match_policy ts 0xaa [0xb5, 0x95, 0x89, 0xd1] = (True, \<lparr>status = False, collectEvents = False\<rparr>)"
proof -
  obtain ts where ts: "buildTransactionPolicies plain_lib ([example_entry ''b59589d1'' True] @ example_entry ''0xB59589D1'' False # []) = Inr ts"
    by (auto simp: buildTransactionPolicies_def example_keys)
  from later_entry_replaces_flags [OF this example_keys(2)] ts show ?thesis by (simp add: example_keys)
qed

end
