(* ===== verification/Logs.thy ===== *)
theory Logs
  imports Blocks
begin

text \<open>
  Requesting logs and turning them into rows, \<^verbatim>\<open>internal/core/logs.go\<close>, with the rows of a
  batch (\<^verbatim>\<open>databaseStructData\<close> of \<^verbatim>\<open>internal/core/database.go\<close>).
\<close>

record databaseStructData =
  d_Blocks :: "db_block list"
  d_Transactions :: "db_tx list"
  d_Logs :: "db_log list"
  LogHashIndexCheck :: "string \<Rightarrow> bool"

definition newDatabaseStructData :: databaseStructData where
  "newDatabaseStructData = \<lparr>d_Blocks = [], d_Transactions = [], d_Logs = [], LogHashIndexCheck = (\<lambda>_. False)\<rparr>"

definition fetchLogsChunk ::
  "'x deps \<Rightarrow> 'x engine \<Rightarrow> LogInfo \<Rightarrow> u64 \<Rightarrow> u64 \<Rightarrow> ('x, ext_log list) io" where
  "fetchLogsChunk D ci logInfo fromBlock toBlock =
     bindE (liftR (parseLogAddresses (lib D) (LogContractAddress logInfo))) (\<lambda>addresses.
     bindE (liftR (parseLogTopics (lib D) (LogTopic logInfo))) (\<lambda>topic.
       RetryWithMaxElapsed (retry_logs D) (max_elapsed D)
         (FilterLogs (e_client ci)
            \<lparr>fq_from = uint fromBlock, fq_to = uint toBlock, fq_addresses = addresses, fq_topics = topic\<rparr>)))"

text \<open>
  The loop \<^verbatim>\<open>for i := start; i < stop && i <= last; i += LogRange\<close>, with the collected
  logs as an accumulator; \<open>n\<close> bounds the number of chunks.
\<close>

primrec requestLogs_from ::
  "nat \<Rightarrow> 'x deps \<Rightarrow> 'x engine \<Rightarrow> ext_log list \<Rightarrow> LogInfo \<Rightarrow> u64 \<Rightarrow> u64 \<Rightarrow> u64 \<Rightarrow> ('x, ext_log list) io" where
  "requestLogs_from 0 D ci lgBatch logInfo i stop last_chain_block = throw OutOfFuel"
| "requestLogs_from (Suc n) D ci lgBatch logInfo i stop last_chain_block =
     (if i < stop \<and> i \<le> last_chain_block then
        let toBlock = min (i + LogRange (params ci) - 1) last_chain_block in
        bindE (fetchLogsChunk D ci logInfo i toBlock) (\<lambda>logs.
          requestLogs_from n D ci (lgBatch @ logs) logInfo (i + LogRange (params ci)) stop last_chain_block)
      else ret lgBatch)"

definition requestLogs ::
  "'x deps \<Rightarrow> 'x engine \<Rightarrow> ext_log list \<Rightarrow> LogInfo \<Rightarrow> u64 \<Rightarrow> u64 \<Rightarrow> u64 \<Rightarrow> ('x, ext_log list) io" where
  "requestLogs D ci lgBatch logInfo start stop last_chain_block =
     requestLogs_from (loop_fuel D) D ci lgBatch logInfo start stop last_chain_block"

definition extractLogTopics :: "common_lib \<Rightarrow> ext_log \<Rightarrow> string list" where
  "extractLogTopics L log =
     map (\<lambda>j. if j < length (lg_topics log) then drop 2 (HashHex L (lg_topics log ! j)) else nullTopic)
       [0..<numTopics]"

definition BuildDBLogFromRequestedLog :: "common_lib \<Rightarrow> ext_log \<Rightarrow> u64 \<Rightarrow> db_log" where
  "BuildDBLogFromRequestedLog L log timestamp =
     (let topics = extractLogTopics L log in
      \<lparr>l_transaction_id = 0,
       l_address = ToLower (drop 2 (AddressHex L (lg_address log))),
       l_data = EncodeToString (lg_data log),
       l_topic0 = topics ! 0, l_topic1 = topics ! 1, l_topic2 = topics ! 2, l_topic3 = topics ! 3,
       l_transaction_hash = ToLower (drop 2 (HashHex L (lg_tx_hash log))),
       l_log_index = lg_index log, l_timestamp = timestamp, l_block_number = lg_block_number log\<rparr>)"

text \<open>\<^verbatim>\<open>fmt.Sprintf("%s%d", TransactionHash, LogIndex)\<close>\<close>

definition log_check_key :: "db_log \<Rightarrow> string" where
  "log_check_key dbLog = l_transaction_hash dbLog @ decimal (unat (l_log_index dbLog))"

definition processLog ::
  "common_lib \<Rightarrow> block list \<Rightarrow> u64 \<Rightarrow> databaseStructData \<Rightarrow> ext_log \<Rightarrow> go_error + databaseStructData" where
  "processLog L bBatch firstBlockNum data log =
     (let i = unat (lg_block_number log - firstBlockNum) in
      if length bBatch \<le> i then Inl (Panic ''index out of range'')
      else
        let block = bBatch ! i in
        case Block_Number block of
          None \<Rightarrow> Inl (Panic ''nil *big.Int'')
        | Some blockNum \<Rightarrow>
            if blockNum \<noteq> uint (lg_block_number log) then Inl (ErrMsg ''block number mismatch'')
            else
              let dbLog = BuildDBLogFromRequestedLog L log (Block_Time block) in
              Inr (if LogHashIndexCheck data (log_check_key dbLog) then data
                   else data\<lparr>d_Logs := d_Logs data @ [dbLog]\<rparr>))"

definition processLogs ::
  "common_lib \<Rightarrow> ext_log list \<Rightarrow> block list \<Rightarrow> u64 \<Rightarrow> databaseStructData \<Rightarrow> go_error + databaseStructData" where
  "processLogs L lgBatch bBatch firstBlockNum data =
     foldR (processLog L bBatch firstBlockNum) data lgBatch"

subsection \<open>Requesting a range of logs\<close>

text \<open>The filter that a collector of logs stands for.\<close>

definition log_filter :: "common_lib \<Rightarrow> LogInfo \<Rightarrow> ext_log \<Rightarrow> bool" where
  "log_filter L logInfo l \<longleftrightarrow>
     (case (parseLogAddresses L (LogContractAddress logInfo), parseLogTopics L (LogTopic logInfo)) of
        (Inr addresses, Inr topic) \<Rightarrow>
          query_matches \<lparr>fq_from = 0, fq_to = 0, fq_addresses = addresses, fq_topics = topic\<rparr> l
      | _ \<Rightarrow> False)"

text \<open>
  The interface of the indexing loops: the engine on a node and a database, with retriers
  that keep their contract. All batches and ranges are proved about inside it.
\<close>

locale indexer =
  canonical_node "e_client ci" chain logs_at receipt_of tabs +
  relational_store "e_db ci" tabs +
  rb: retrier "retry_block D" + rh: retrier "retry_header D" +
  rr: retrier "retry_receipt D" + rl: retrier "retry_logs D"
  for D :: "'x deps" and ci :: "'x engine" and chain logs_at receipt_of
    and tabs :: "'x \<Rightarrow> tables"
begin

lemma fetchBlock_Inr:
  assumes "fetchBlock D ci (Some n) x = (r, x')"
  shows "tabs x' = tabs x" and "r = Inr b \<Longrightarrow> untag b = Some (chain (unat n))"
proof -
  note run = assms [unfolded fetchBlock_def]
  from rb.retried_read(1) [OF client_keeps_view(1) run] show "tabs x' = tabs x" .
  assume "r = Inr b"
  with rb.retried_read(2) [OF client_keeps_view(1) run] obtain x0 x1
    where "BlockByNumber (e_client ci) (Some (int (unat n))) x0 = (Inr b, x1)" by auto
  then show "untag b = Some (chain (unat n))" by (rule BlockByNumber_chain)
qed

lemma fetchBlockHeader_view: "fetchBlockHeader D ci n x = (r, x') \<Longrightarrow> tabs x' = tabs x"
  unfolding fetchBlockHeader_def by (rule rh.retried_read(1) [OF client_keeps_view(2)])

lemma fetchBlockHeader_chain:
  assumes "fetchBlockHeader D ci (Some n) x = (Inr h, x')"
  shows "Header_Number h = Some (int (unat n)) \<and> Header_Time h = bk_time (chain (unat n))"
proof -
  obtain x0 x1 where "HeaderByNumber (e_client ci) (Some (int (unat n))) x0 = (Inr h, x1)"
    using rh.retried_read(2) [OF client_keeps_view(2) assms [unfolded fetchBlockHeader_def]] by auto
  from HeaderByNumber_chain [OF this] show ?thesis by (auto dest: untag_header)
qed

lemma fetchLogsChunk_view: "fetchLogsChunk D ci logInfo f t x = (r, x') \<Longrightarrow> tabs x' = tabs x"
  using rl.retried_read(1) [OF client_keeps_view(4)]
  by (auto simp: fetchLogsChunk_def bindE_def split: sum.splits)

lemma fetchLogsChunk_Inr:
  assumes "fetchLogsChunk D ci logInfo f t x = (Inr ls, x')"
  shows "ls = logs_between logs_at (log_filter (lib D) logInfo) (unat f) (Suc (unat t))"
proof -
  from assms obtain as ts where p: "parseLogAddresses (lib D) (LogContractAddress logInfo) = Inr as"
    "parseLogTopics (lib D) (LogTopic logInfo) = Inr ts"
    and run: "RetryWithMaxElapsed (retry_logs D) (max_elapsed D) (FilterLogs (e_client ci)
      \<lparr>fq_from = uint f, fq_to = uint t, fq_addresses = as, fq_topics = ts\<rparr>) x = (Inr ls, x')"
    by (auto simp: fetchLogsChunk_def bindE_Inr_iff)
  from rl.retried_read(2) [OF client_keeps_view(4) run] obtain x0 x1 where
    "FilterLogs (e_client ci) \<lparr>fq_from = uint f, fq_to = uint t, fq_addresses = as, fq_topics = ts\<rparr> x0 = (Inr ls, x1)"
    by blast
  from FilterLogs_chain [OF this, of "unat f" "unat t"] show ?thesis
    by (simp add: log_filter_def [abs_def] p query_matches_def [abs_def])
qed

lemma requestLogs_view: "requestLogs_from n D ci acc logInfo i stop tip x = (r, x') \<Longrightarrow> tabs x' = tabs x"
proof (induction n arbitrary: acc i x)
  case (Suc n)
  then show ?case
    by (auto simp: Let_def bindE_def split: if_splits prod.splits sum.splits dest: fetchLogsChunk_view)
qed simp

text \<open>The chunks tile the range: what is collected does not depend on \<^verbatim>\<open>LogRange\<close>.\<close>

lemma requestLogs_tiles:
  assumes "requestLogs_from n D ci acc logInfo i (tip + 1) tip x = (Inr ls, x')"
    and "0 < LogRange (params ci)" and "unat tip + unat (LogRange (params ci)) < 18446744073709551616"
    and "unat i \<le> Suc (unat tip)"
  shows "ls = acc @ logs_between logs_at (log_filter (lib D) logInfo) (unat i) (Suc (unat tip))"
  using assms(1,4)
proof (induction n arbitrary: acc i x)
  case (Suc n)
  let ?R = "LogRange (params ci)"
  have R: "0 < unat ?R" using assms(2) by (simp add: word_less_nat_alt)
  have tip1: "unat (tip + 1) = Suc (unat tip)" using unat_plus_exact [of tip 1] assms(3) R by simp
  show ?case
  proof (cases "i \<le> tip")
    case True
    then have le: "unat i \<le> unat tip" by (simp add: word_le_nat_alt)
    have iR: "unat (i + ?R) = unat i + unat ?R" using le assms(3) by (intro unat_plus_exact) linarith
    define t where "t = min (i + ?R - 1) tip"
    have "unat (i + ?R - 1) = unat i + unat ?R - 1"
      using iR R by (subst unat_minus_exact) (auto simp: word_le_nat_alt)
    then have t: "Suc (unat t) = min (unat i + unat ?R) (Suc (unat tip))"
      using R by (auto simp: t_def min_def word_le_nat_alt)
    have "i < tip + 1" using le tip1 by (simp add: word_less_nat_alt)
    with Suc.prems(1) True obtain logs x1 where
      f: "fetchLogsChunk D ci logInfo i t x = (Inr logs, x1)" and
      rest: "requestLogs_from n D ci (acc @ logs) logInfo (i + ?R) (tip + 1) tip x1 = (Inr ls, x')"
      by (auto simp: Let_def bindE_Inr_iff t_def)
    from fetchLogsChunk_Inr [OF f]
    have logs: "logs = logs_between logs_at (log_filter (lib D) logInfo) (unat i) (Suc (unat t))" .
    show ?thesis
    proof (cases "unat i + unat ?R \<le> Suc (unat tip)")
      case True
      with Suc.IH [OF rest] iR t logs
        logs_between_split [of "unat i" "unat i + unat ?R" "Suc (unat tip)" logs_at "log_filter (lib D) logInfo"]
      show ?thesis by simp
    next
      case False
      then have "\<not> i + ?R < tip + 1" using iR tip1 by (simp add: word_less_nat_alt)
      with rest have "ls = acc @ logs" by (cases n) auto
      with logs t False show ?thesis by simp
    qed
  next
    case False
    then have "unat i = Suc (unat tip)" using Suc.prems(2) by (simp add: word_le_nat_alt)
    with Suc.prems(1) False show ?thesis by simp
  qed
qed simp

text \<open>One chunk for every \<^verbatim>\<open>LogRange\<close> blocks, and one more test of the loop, are enough.\<close>

lemma fetchLogsChunk_error:
  "fetchLogsChunk D ci logInfo i t x = (Inl e, x') \<Longrightarrow>
   bindE (fetchLogsChunk D ci logInfo i t) f x = (Inl e, x')"
  by (simp add: bindE_run_Inl)

lemma requestLogs_fuel:
  assumes "0 < LogRange (params ci)" and "unat tip + unat (LogRange (params ci)) < 18446744073709551616"
    and "Suc (unat tip) - unat i < n"
    and "\<And>i t x. fst (fetchLogsChunk D ci logInfo i t x) \<noteq> Inl OutOfFuel"
  shows "fst (requestLogs_from n D ci acc logInfo i (tip + 1) tip x) \<noteq> Inl OutOfFuel"
  using assms(3)
proof (induction n arbitrary: acc i x)
  case (Suc n)
  show ?case
  proof (cases "i < tip + 1 \<and> i \<le> tip")
    case True
    let ?t = "min (i + LogRange (params ci) - 1) tip"
    have iR: "unat (i + LogRange (params ci)) = unat i + unat (LogRange (params ci))"
      using True assms(2) by (intro unat_plus_exact) (auto simp: word_le_nat_alt)
    have fuel: "Suc (unat tip) - unat (i + LogRange (params ci)) < n"
      using Suc.prems assms(1) True iR by (auto simp: word_le_nat_alt word_less_nat_alt)
    obtain r x1 where f: "fetchLogsChunk D ci logInfo i ?t x = (r, x1)" by force
    show ?thesis
    proof (cases r)
      case (Inl e)
      with f True assms(4) [of i ?t x] show ?thesis by (simp add: Let_def bindE_run_Inl)
    next
      case (Inr logs)
      with f True Suc.IH [OF fuel] show ?thesis by (simp add: Let_def bindE_run_Inr)
    qed
  qed auto
qed simp

end

subsection \<open>The indexer on the concrete world\<close>

definition mem_deps :: "nat \<Rightarrow> nat \<Rightarrow> mem deps" where
  "mem_deps attempts_left n =
     \<lparr>lib = plain_lib, max_elapsed = 300, retry_block = bounded_retry attempts_left,
      retry_header = bounded_retry attempts_left, retry_receipt = bounded_retry attempts_left,
      retry_logs = bounded_retry attempts_left, schedule = (\<lambda>k. rev [0..<k]), logs_first = False,
      loop_fuel = n\<rparr>"

definition mem_engine ::
  "IndexerConfig \<Rightarrow> policies \<Rightarrow> (nat \<Rightarrow> u64) \<Rightarrow> (nat \<Rightarrow> ext_tx list) \<Rightarrow> (nat \<Rightarrow> ext_log list) \<Rightarrow>
   (hash \<Rightarrow> ext_receipt) \<Rightarrow> mem engine" where
  "mem_engine p ts time txs logs receipt_of =
     \<lparr>e_db = mem_store, params = p, e_transactions = ts,
      e_client = mem_client (make_chain time txs) (make_logs logs) receipt_of\<rparr>"

lemma mem_deps_fields [simp]:
  "lib (mem_deps k n) = plain_lib" "loop_fuel (mem_deps k n) = n"
  "schedule (mem_deps k n) j = rev [0..<j]"
  by (simp_all add: mem_deps_def)

lemma mem_engine_fields [simp]:
  "e_db (mem_engine p ts time txs logs rc) = mem_store" "params (mem_engine p ts time txs logs rc) = p"
  "e_transactions (mem_engine p ts time txs logs rc) = ts"
  "e_client (mem_engine p ts time txs logs rc) = mem_client (make_chain time txs) (make_logs logs) rc"
  by (simp_all add: mem_engine_def)

interpretation mem_indexer:
  indexer "mem_deps k n" "mem_engine p ts time txs logs receipt_of" "make_chain time txs"
    "make_logs logs" receipt_of m_tabs
proof -
  have "retrier (retry_block (mem_deps k n))" "retrier (retry_header (mem_deps k n))"
    "retrier (retry_receipt (mem_deps k n))" "retrier (retry_logs (mem_deps k n))"
    by (simp_all add: mem_deps_def bounded.retrier_axioms)
  then show "indexer (mem_deps k n) (mem_engine p ts time txs logs receipt_of) (make_chain time txs)
      (make_logs logs) receipt_of m_tabs"
    by (simp add: indexer_def mem_node.canonical_node_axioms mem_store.relational_store_axioms)
qed

text \<open>
  C12: what is collected for a log filter is exactly the node's logs of the range that match
  it, in order and each once: the chunks of \<^verbatim>\<open>LogRange\<close> blocks tile the range without
  gaps or overlaps, whatever \<^verbatim>\<open>LogRange\<close> is. And the loop over the chunks ends: with fuel for one
  round for every block of the range and the last test, it is not cut off, as long as no request
  of a chunk is.
\<close>

theorem requested_logs_exact:
  assumes ix: "indexer D ci chain logs_at receipt_of tabs"
    and run: "requestLogs D ci lgBatch logInfo start (tip + 1) tip x = (r, x')"
    and R: "0 < LogRange (params ci)" "unat tip + unat (LogRange (params ci)) < 18446744073709551616"
    and start: "unat start \<le> Suc (unat tip)"
  shows "(\<forall>ls. r = Inr ls \<longrightarrow>
      ls = lgBatch @ logs_between logs_at (log_filter (lib D) logInfo) (unat start) (Suc (unat tip))) \<and>
    (Suc (unat tip) - unat start < loop_fuel D \<longrightarrow>
      (\<forall>i t y. fst (fetchLogsChunk D ci logInfo i t y) \<noteq> Inl OutOfFuel) \<longrightarrow> r \<noteq> Inl OutOfFuel)"
proof -
  note run' = run [unfolded requestLogs_def]
  have "ls = lgBatch @ logs_between logs_at (log_filter (lib D) logInfo) (unat start) (Suc (unat tip))" if "r = Inr ls" for ls
    by (rule indexer.requestLogs_tiles [OF ix run' [unfolded that] R start])
  moreover have "r \<noteq> Inl OutOfFuel" if "Suc (unat tip) - unat start < loop_fuel D"
    "\<forall>i t y. fst (fetchLogsChunk D ci logInfo i t y) \<noteq> Inl OutOfFuel"
    using indexer.requestLogs_fuel [OF ix R that(1), of logInfo lgBatch x] that(2) run' by simp
  ultimately show ?thesis by blast
qed

text \<open>A chain with one log, of one contract, in every block.\<close>

definition every_block_log :: "nat \<Rightarrow> ext_log list" where
  "every_block_log k = [\<lparr>lg_address = 0xaa, lg_topics = [], lg_data = [1], lg_block_number = of_nat k,
     lg_tx_hash = of_nat k, lg_index = 0\<rparr>]"

definition plain_params :: IndexerConfig where
  "plain_params = (Indexer defaultConfig)\<lparr>LogRange := 2, BatchSize := 2, Confirmations := 0,
     CollectLogs := [named_log '''' '''']\<rparr>"

definition plain_engine :: "mem engine" where
  "plain_engine = mem_engine plain_params (\<lambda>_. None) (\<lambda>k. of_nat (10 * k)) (\<lambda>_. []) every_block_log
     (\<lambda>_. \<lparr>rc_status = 1, rc_logs = []\<rparr>)"

definition head_at :: "nat \<Rightarrow> mem" where
  "head_at k = empty_mem\<lparr>m_head := k\<rparr>"

lemma plain_indexer:
  "indexer (mem_deps k n) plain_engine (make_chain (\<lambda>k. of_nat (10 * k)) (\<lambda>_. []))
     (make_logs every_block_log) (\<lambda>_. \<lparr>rc_status = 1, rc_logs = []\<rparr>) m_tabs"
  unfolding plain_engine_def by (rule mem_indexer.indexer_axioms)

text \<open>The concrete node fails with messages of its own.\<close>

lemma attempts_fuel:
  "(\<And>x. fst (m x) \<noteq> Inl OutOfFuel) \<Longrightarrow> fst (attempts n m x) \<noteq> Inl OutOfFuel"
proof (induction n arbitrary: x)
  case (Suc n)
  show ?case using Suc.IH [OF Suc.prems] by (cases "m x"; cases "fst (m x)") auto
qed simp

lemma mem_FilterLogs_fuel: "fst (attempts n (FilterLogs (mem_client chain logs receipt_of) q) x) \<noteq> Inl OutOfFuel"
  by (rule attempts_fuel) (auto simp: FilterLogs_def mem_client_def client_acquire_def mem_rpc_def faulty_def bindE_def mapE_def
      split: list.splits if_splits prod.splits sum.splits)

lemma plain_chunk_fuel: "fst (fetchLogsChunk (mem_deps k n) plain_engine (named_log '''' '''') i t y) \<noteq> Inl OutOfFuel"
proof -
  have "parseLogAddresses plain_lib (LogContractAddress (named_log '''' '''')) = Inr []"
    "parseLogTopics plain_lib (LogTopic (named_log '''' '''')) = Inr []" by code_simp+
  then show ?thesis
    using mem_FilterLogs_fuel
    by (simp add: bindE_def fetchLogsChunk_def mem_deps_def RetryWithMaxElapsed_def retry_def bounded_retry_def plain_engine_def)
qed

theorem requested_logs_exact_witness:
  "\<exists>x'. requestLogs (mem_deps 1 10) plain_engine [] (named_log '''' '''') 1 (4 + 1) 4
      ((head_at 5)\<lparr>m_faults := [True]\<rparr>) =
    (Inr (logs_between (make_logs every_block_log) (log_filter plain_lib (named_log '''' '''')) 1 5), x') \<and>
   fst (requestLogs (mem_deps 1 10) plain_engine [] (named_log '''' '''') 1 (4 + 1) 4 (head_at 3)) \<noteq> Inl OutOfFuel"
proof -
  have "(case fst (requestLogs (mem_deps 1 10) plain_engine [] (named_log '''' '''') 1 (4 + 1) 4
      ((head_at 5)\<lparr>m_faults := [True]\<rparr>)) of Inr ls \<Rightarrow> length ls = 4 | Inl _ \<Rightarrow> False)"
    by code_simp
  then obtain ls x' where run: "requestLogs (mem_deps 1 10) plain_engine [] (named_log '''' '''') 1 (4 + 1) 4
      ((head_at 5)\<lparr>m_faults := [True]\<rparr>) = (Inr ls, x')"
    by (metis (no_types, lifting) Inl_Inr_False old.sum.exhaust old.sum.simps(5) prod.collapse)
  obtain r x1 where other: "requestLogs (mem_deps 1 10) plain_engine [] (named_log '''' '''') 1 (4 + 1) 4 (head_at 3) = (r, x1)"
    by force
  have R: "LogRange (params plain_engine) = 2" by (simp add: plain_engine_def plain_params_def)
  from requested_logs_exact [OF plain_indexer other] R plain_chunk_fuel have "r \<noteq> Inl OutOfFuel" by simp
  with requested_logs_exact [OF plain_indexer run] run R other show ?thesis by simp
qed

subsection \<open>Keys and rows of logs\<close>

lemma hash_text:
  assumes "hash_hex_law L"
  obtains bytes where "inj bytes" "\<And>h. drop 2 (HashHex L h) = EncodeToString (bytes h)"
    "\<And>h. ToLower (drop 2 (HashHex L h)) = EncodeToString (bytes h)"
    "\<And>h. length (drop 2 (HashHex L h)) = 64"
proof -
  from assms obtain bytes where b: "inj bytes"
    "\<And>h. length (bytes h) = 32 \<and> HashHex L h = ''0x'' @ EncodeToString (bytes h)"
    by (auto simp: hash_hex_law_def)
  have "drop 2 (HashHex L h) = EncodeToString (bytes h)" for h using b(2) [of h] by simp
  with b show ?thesis by (intro that [of bytes]) simp_all
qed

lemma hash_text_inject:
  assumes "hash_hex_law L"
  shows "drop 2 (HashHex L h) = drop 2 (HashHex L k) \<longleftrightarrow> h = k"
proof -
  obtain bytes where "inj bytes" "\<And>h. drop 2 (HashHex L h) = EncodeToString (bytes h)"
    by (rule hash_text [OF assms]) blast
  then show ?thesis by (simp add: EncodeToString_inject inj_eq)
qed

lemma row_log_fields [simp]:
  "l_transaction_id (BuildDBLogFromRequestedLog L log t) = 0"
  "l_transaction_hash (BuildDBLogFromRequestedLog L log t) = ToLower (drop 2 (HashHex L (lg_tx_hash log)))"
  "l_log_index (BuildDBLogFromRequestedLog L log t) = lg_index log"
  "l_timestamp (BuildDBLogFromRequestedLog L log t) = t"
  "l_block_number (BuildDBLogFromRequestedLog L log t) = lg_block_number log"
  by (simp_all add: BuildDBLogFromRequestedLog_def Let_def)

lemma log_key_tid [simp]: "log_key (r\<lparr>l_transaction_id := i\<rparr>) = log_key r"
  "log_check_key (r\<lparr>l_transaction_id := i\<rparr>) = log_check_key r"
  by (simp_all add: log_key_def log_check_key_def)

text \<open>Both keys of a log's row identify the log by its transaction and index.\<close>

lemma log_text_keys:
  assumes "hash_hex_law L"
  shows "log_check_key (BuildDBLogFromRequestedLog L a t) = log_check_key (BuildDBLogFromRequestedLog L b u)
      \<longleftrightarrow> lg_tx_hash a = lg_tx_hash b \<and> lg_index a = lg_index b"
    "log_key (BuildDBLogFromRequestedLog L a t) = log_key (BuildDBLogFromRequestedLog L b u)
      \<longleftrightarrow> lg_tx_hash a = lg_tx_hash b \<and> lg_index a = lg_index b"
proof -
  obtain bytes where b: "inj bytes" "\<And>h. ToLower (drop 2 (HashHex L h)) = EncodeToString (bytes h)"
    "\<And>h. drop 2 (HashHex L h) = EncodeToString (bytes h)" "\<And>h. length (drop 2 (HashHex L h)) = 64"
    by (rule hash_text [OF assms]) blast
  have len: "length (EncodeToString (bytes h)) = 64" for h using b(3,4) by metis
  show "log_check_key (BuildDBLogFromRequestedLog L a t) = log_check_key (BuildDBLogFromRequestedLog L b u)
      \<longleftrightarrow> lg_tx_hash a = lg_tx_hash b \<and> lg_index a = lg_index b"
    "log_key (BuildDBLogFromRequestedLog L a t) = log_key (BuildDBLogFromRequestedLog L b u)
      \<longleftrightarrow> lg_tx_hash a = lg_tx_hash b \<and> lg_index a = lg_index b"
    using len [of "lg_tx_hash a"] len [of "lg_tx_hash b"]
    by (auto simp: log_check_key_def log_key_def b(2) EncodeToString_inject inj_eq [OF b(1)] decimal_inject
        dest: word_eq_unat [THEN iffD2])
qed

text \<open>
  C23: the text by which a batch recognises a log it already has identifies the log: two
  logs get the same text exactly when they have the same transaction and index, which is
  also the unique key of the table of logs.
\<close>

theorem log_text_key_identifies:
  assumes "hash_hex_law L"
  shows "(log_check_key (BuildDBLogFromRequestedLog L a t) = log_check_key (BuildDBLogFromRequestedLog L b u)
      \<longleftrightarrow> lg_tx_hash a = lg_tx_hash b \<and> lg_index a = lg_index b) \<and>
    (log_key (BuildDBLogFromRequestedLog L a t) = log_key (BuildDBLogFromRequestedLog L b u)
      \<longleftrightarrow> lg_tx_hash a = lg_tx_hash b \<and> lg_index a = lg_index b)"
  using log_text_keys [OF assms] by simp

theorem log_text_key_identifies_witness:
  "log_check_key (BuildDBLogFromRequestedLog plain_lib (hd (every_block_log 3)) 0) \<noteq>
   log_check_key (BuildDBLogFromRequestedLog plain_lib (hd (every_block_log 4)) 0)"
  using log_text_key_identifies [OF plain_hash_law, of "hd (every_block_log 3)" 0 "hd (every_block_log 4)" 0]
  by (simp add: every_block_log_def)

text \<open>The rows that \<open>processLogs\<close> adds: one for each log not yet in the batch.\<close>

definition requested_row :: "common_lib \<Rightarrow> block list \<Rightarrow> u64 \<Rightarrow> ext_log \<Rightarrow> db_log" where
  "requested_row L bBatch firstBlockNum log =
     BuildDBLogFromRequestedLog L log (Block_Time (bBatch ! unat (lg_block_number log - firstBlockNum)))"

lemma processLogs_Inr:
  assumes "processLogs L logs bBatch first data = Inr data'"
  shows "data' = data\<lparr>d_Logs := d_Logs data @
      map (requested_row L bBatch first)
        (filter (\<lambda>l. \<not> LogHashIndexCheck data (log_check_key (requested_row L bBatch first l))) logs)\<rparr> \<and>
    (\<forall>l \<in> set logs. unat (lg_block_number l - first) < length bBatch \<and>
       Block_Number (bBatch ! unat (lg_block_number l - first)) = Some (uint (lg_block_number l)))"
  using assms unfolding processLogs_def
proof (induction logs arbitrary: data)
  case (Cons l logs)
  then obtain d1 where s: "processLog L bBatch first data l = Inr d1"
    and r: "foldR (processLog L bBatch first) d1 logs = Inr data'" by auto
  from s have in_range: "unat (lg_block_number l - first) < length bBatch"
      "Block_Number (bBatch ! unat (lg_block_number l - first)) = Some (uint (lg_block_number l))"
    and d1: "d1 = (if LogHashIndexCheck data (log_check_key (requested_row L bBatch first l)) then data
      else data\<lparr>d_Logs := d_Logs data @ [requested_row L bBatch first l]\<rparr>)"
    by (auto simp: processLog_def requested_row_def Let_def split: if_splits option.splits)
  have "LogHashIndexCheck d1 = LogHashIndexCheck data" by (simp add: d1)
  with Cons.IH [OF r] in_range show ?case by (auto simp: d1)
qed simp

lemma processLogs_total:
  assumes "\<forall>l \<in> set logs. unat (lg_block_number l - first) < length bBatch \<and>
       Block_Number (bBatch ! unat (lg_block_number l - first)) = Some (uint (lg_block_number l))"
  shows "\<exists>data'. processLogs L logs bBatch first data = Inr data'"
  using assms unfolding processLogs_def
  by (induction logs arbitrary: data) (auto simp: processLog_def Let_def)

end
