(* ===== verification/Transactions.thy ===== *)
theory Transactions
  imports Logs
begin

text \<open>
  Receipts and rows of the selected transactions, \<^verbatim>\<open>internal/core/transactions.go\<close>. The
  process-wide counter \<^verbatim>\<open>database.TransactionId\<close> is the state that \<open>processTransactions\<close>
  runs on.
\<close>

subsection \<open>Receipts\<close>

definition countReceipts :: "transactionsBatch \<Rightarrow> nat" where
  "countReceipts txBatch = length (filter (\<lambda>e. e \<noteq> None) (receipts txBatch))"

definition fetchReceiptAt ::
  "'x deps \<Rightarrow> 'x engine \<Rightarrow> transactionsBatch \<Rightarrow> nat \<Rightarrow> ('x, transactionsBatch) io" where
  "fetchReceiptAt D ci txBatch i =
     (let tx = transactions txBatch ! i; policy = policies txBatch ! i in
      if \<not> status policy \<and> \<not> collectEvents policy then ret txBatch
      else bindE (wrapE ''getTransactionsReceipt''
                    (RetryWithMaxElapsed (retry_receipt D) (max_elapsed D)
                       (TransactionReceipt (e_client ci) (Tx_Hash tx)))) (\<lambda>receipt.
             ret (txBatch\<lparr>receipts := (receipts txBatch)[i := Some receipt]\<rparr>)))"

definition getTransactionsReceipt ::
  "'x deps \<Rightarrow> 'x engine \<Rightarrow> transactionsBatch \<Rightarrow> nat \<Rightarrow> nat \<Rightarrow> ('x, transactionsBatch) io" where
  "getTransactionsReceipt D ci txBatch start stop =
     foldE (fetchReceiptAt D ci) txBatch [start..<stop]"

text \<open>
  One goroutine per transaction; \<open>schedule D n\<close> is the order in which they run. The first
  error cancels those that have not run.
\<close>

definition processTransactionsBatch ::
  "'x deps \<Rightarrow> 'x engine \<Rightarrow> transactionsBatch \<Rightarrow> ('x, transactionsBatch) io" where
  "processTransactionsBatch D ci txBatch =
     foldE (fetchReceiptAt D ci) txBatch (schedule D (length (transactions txBatch)))"

subsection \<open>Rows\<close>

text \<open>\<^verbatim>\<open>(*big.Int).Text(base)\<close>; a nil number prints as \<^verbatim>\<open><nil>\<close>.\<close>

fun digits :: "nat \<Rightarrow> nat \<Rightarrow> string" where
  "digits b n = (if n < b \<or> b < 2 then [hex_digit n] else digits b (n div b) @ [hex_digit (n mod b)])"

declare digits.simps [simp del]

definition big_Text :: "nat \<Rightarrow> int option \<Rightarrow> string" where
  "big_Text b n =
     (case n of None \<Rightarrow> ''<nil>''
      | Some i \<Rightarrow> (if i < 0 then ''-'' else '''') @ digits b (nat \<bar>i\<bar>))"

definition buildDBTx ::
  "common_lib \<Rightarrow> u64 \<Rightarrow> transaction \<Rightarrow> receipt option \<Rightarrow> block \<Rightarrow> u64 \<Rightarrow> go_error + db_tx" where
  "buildDBTx L TransactionId tx receipt block txIndex =
     (let txData = EncodeToString (Tx_Data tx);
          funcSig = (if 8 < length txData then take 8 txData else txData) in
      bindR (wrapR ''types.Sender'' (Tx_FromAddress L tx)) (\<lambda>fromAddress.
      bindR (big_Uint64 (Block_Number block)) (\<lambda>number.
        case Tx_To tx of
          None \<Rightarrow> Inl (Panic ''nil *common.Address'')
        | Some to \<Rightarrow>
            Inr \<lparr>t_id = TransactionId, t_hash = drop 2 (HashHex L (Tx_Hash tx)), t_function_sig = funcSig,
                 t_input = txData, t_block_number = number,
                 t_block_hash = drop 2 (HashHex L (Block_Hash block)), t_transaction_index = txIndex,
                 t_from_address = ToLower (drop 2 (AddressHex L fromAddress)),
                 t_to_address = ToLower (drop 2 (AddressHex L to)),
                 t_status = (case receipt of None \<Rightarrow> 2 | Some r \<Rightarrow> Receipt_Status r),
                 t_value = big_Text 16 (Tx_Value tx), t_gas_price = big_Text 10 (Tx_GasPrice tx),
                 t_gas = Tx_Gas tx, t_timestamp = Block_Time block\<rparr>)))"

definition buildDBLog :: "common_lib \<Rightarrow> db_tx \<Rightarrow> ext_log \<Rightarrow> block \<Rightarrow> go_error + db_log" where
  "buildDBLog L dbTx log block =
     (case Block_Number block of
        None \<Rightarrow> Inl (Panic ''nil *big.Int'')
      | Some blockNum \<Rightarrow>
          if blockNum \<noteq> uint (lg_block_number log) then Inl (ErrMsg ''block number mismatch'')
          else Inr ((BuildDBLogFromRequestedLog L log (Block_Time block))\<lparr>l_transaction_id := t_id dbTx\<rparr>))"

text \<open>The loop over a receipt's logs.\<close>

definition addReceiptLog ::
  "common_lib \<Rightarrow> db_tx \<Rightarrow> block \<Rightarrow> databaseStructData \<Rightarrow> ext_log \<Rightarrow> go_error + databaseStructData" where
  "addReceiptLog L dbTx block data log =
     bindR (buildDBLog L dbTx log block) (\<lambda>dbLog.
       Inr (data\<lparr>d_Logs := d_Logs data @ [dbLog],
                 LogHashIndexCheck := (LogHashIndexCheck data)(log_check_key dbLog := True)\<rparr>))"

definition processTransaction ::
  "common_lib \<Rightarrow> transactionsBatch \<Rightarrow> databaseStructData \<Rightarrow> nat \<Rightarrow> (u64, databaseStructData) io" where
  "processTransaction L txBatch data i =
     (\<lambda>TransactionId.
        let tx = transactions txBatch ! i; block = blocks txBatch ! i; receipt = receipts txBatch ! i;
            txIndex = indices txBatch ! i; policy = policies txBatch ! i in
        case buildDBTx L TransactionId tx receipt block txIndex of
          Inl e \<Rightarrow> (Inl e, TransactionId)
        | Inr dbTx \<Rightarrow>
            let data = data\<lparr>d_Transactions := d_Transactions data @ [dbTx]\<rparr> in
            ((case receipt of
                Some r \<Rightarrow> if collectEvents policy then foldR (addReceiptLog L dbTx block) data (Receipt_Logs r) else Inr data
              | None \<Rightarrow> Inr data),
             TransactionId + 1))"

definition processTransactions ::
  "common_lib \<Rightarrow> transactionsBatch \<Rightarrow> databaseStructData \<Rightarrow> (u64, databaseStructData) io" where
  "processTransactions L txBatch data =
     foldE (processTransaction L txBatch) data [0..<length (transactions txBatch)]"

subsection \<open>Receipts do not depend on the schedule\<close>

text \<open>The receipts that the policies ask for.\<close>

definition wanted_receipt :: "transactionsPolicy \<Rightarrow> bool" where
  "wanted_receipt p \<longleftrightarrow> status p \<or> collectEvents p"

context indexer
begin

lemma fetchReceiptAt_keeps: "keeps (\<lambda>x. tabs x = v) (fetchReceiptAt D ci tb i)"
  unfolding fetchReceiptAt_def Let_def
  by (intro triple_if keeps_bind keeps_wrap rr.RetryWithMaxElapsed_triple client_keeps_view triple_ret)

lemma fetchReceiptAt_Inr:
  assumes "fetchReceiptAt D ci tb i x = (Inr tb', x')"
  shows "\<exists>rs. tb' = tb\<lparr>receipts := rs\<rparr> \<and> length rs = length (receipts tb) \<and>
    (\<forall>j. j \<noteq> i \<longrightarrow> rs ! j = receipts tb ! j) \<and>
    (i < length (receipts tb) \<longrightarrow>
       (if wanted_receipt (policies tb ! i)
        then \<exists>r. rs ! i = Some r \<and> untag r = Some (receipt_of (Tx_Hash (transactions tb ! i)))
        else rs ! i = receipts tb ! i))"
proof (cases "wanted_receipt (policies tb ! i)")
  case True
  let ?m = "RetryWithMaxElapsed (retry_receipt D) (max_elapsed D)
      (TransactionReceipt (e_client ci) (Tx_Hash (transactions tb ! i)))"
  from True assms have "bindE (wrapE ''getTransactionsReceipt'' ?m)
      (\<lambda>receipt. ret (tb\<lparr>receipts := (receipts tb)[i := Some receipt]\<rparr>)) x = (Inr tb', x')"
    by (simp only: fetchReceiptAt_def wanted_receipt_def Let_def) (simp split: if_splits)
  then obtain r where run: "?m x = (Inr r, x')"
    and tb': "tb' = tb\<lparr>receipts := (receipts tb)[i := Some r]\<rparr>"
    by (auto simp: bindE_Inr_iff wrapE_Inr_iff)
  from rr.retried_read(2) [OF client_keeps_view(3) run] obtain x0 x1
    where "TransactionReceipt (e_client ci) (Tx_Hash (transactions tb ! i)) x0 = (Inr r, x1)" by blast
  then have "untag r = Some (receipt_of (Tx_Hash (transactions tb ! i)))" by (rule TransactionReceipt_chain)
  with True show ?thesis unfolding tb' by (intro exI [of _ "(receipts tb)[i := Some r]"]) simp
next
  case False
  with assms have "tb' = tb" by (auto simp: fetchReceiptAt_def wanted_receipt_def Let_def split: if_splits)
  with False show ?thesis by (intro exI [of _ "receipts tb"]) simp
qed

text \<open>
  After a run over the positions \<open>is\<close>, in any order, each wanted position in \<open>is\<close> holds the
  chain's receipt, and the other positions are as before.
\<close>

lemma fetchReceipts_Inr:
  assumes "foldE (fetchReceiptAt D ci) tb is x = (Inr tb', x')" and "set is \<subseteq> {..<length (receipts tb)}"
  shows "\<exists>rs. tb' = tb\<lparr>receipts := rs\<rparr> \<and> length rs = length (receipts tb) \<and>
    (\<forall>j < length rs. if j \<in> set is \<and> wanted_receipt (policies tb ! j)
       then \<exists>r. rs ! j = Some r \<and> untag r = Some (receipt_of (Tx_Hash (transactions tb ! j)))
       else rs ! j = receipts tb ! j)"
  using assms
proof (induction "is" arbitrary: tb x)
  case Nil
  then show ?case by (intro exI [of _ "receipts tb"]) simp
next
  case (Cons i "is")
  then obtain tb1 x1 where one: "fetchReceiptAt D ci tb i x = (Inr tb1, x1)"
    and rest: "foldE (fetchReceiptAt D ci) tb1 is x1 = (Inr tb', x')"
    by (auto simp: bindE_Inr_iff)
  from fetchReceiptAt_Inr [OF one] obtain rs1 where rs1: "tb1 = tb\<lparr>receipts := rs1\<rparr>"
    "length rs1 = length (receipts tb)" "\<forall>j. j \<noteq> i \<longrightarrow> rs1 ! j = receipts tb ! j"
    "i < length (receipts tb) \<longrightarrow>
       (if wanted_receipt (policies tb ! i)
        then \<exists>r. rs1 ! i = Some r \<and> untag r = Some (receipt_of (Tx_Hash (transactions tb ! i)))
        else rs1 ! i = receipts tb ! i)" by blast
  from Cons.IH [OF rest] Cons.prems(2) rs1 obtain rs where rs: "tb' = tb\<lparr>receipts := rs\<rparr>"
    "length rs = length (receipts tb)"
    "\<forall>j < length rs. if j \<in> set is \<and> wanted_receipt (policies tb ! j)
       then \<exists>r. rs ! j = Some r \<and> untag r = Some (receipt_of (Tx_Hash (transactions tb ! j)))
       else rs ! j = rs1 ! j"
    by (fastforce cong: if_cong)
  have "if j \<in> set (i # is) \<and> wanted_receipt (policies tb ! j)
       then \<exists>r. rs ! j = Some r \<and> untag r = Some (receipt_of (Tx_Hash (transactions tb ! j)))
       else rs ! j = receipts tb ! j" if "j < length rs" for j
    using rs(2,3) rs1(2-4) that by (cases "j = i"; cases "j \<in> set is") auto
  with rs(1,2) show ?case by blast
qed

lemma fetchReceipts_keeps: "keeps (\<lambda>x. tabs x = v) (foldE (fetchReceiptAt D ci) tb is)"
  by (intro keeps_foldE fetchReceiptAt_keeps)

end

subsection \<open>The rows of a batch\<close>

text \<open>The rows of the logs of the \<open>i\<close>-th transaction of a batch.\<close>

definition receipt_rows :: "common_lib \<Rightarrow> transactionsBatch \<Rightarrow> u64 \<Rightarrow> nat \<Rightarrow> db_log list" where
  "receipt_rows L tb row_id i =
     (case receipts tb ! i of
        None \<Rightarrow> []
      | Some r \<Rightarrow>
          if collectEvents (policies tb ! i)
          then map (\<lambda>log. (BuildDBLogFromRequestedLog L log (Block_Time (blocks tb ! i)))\<lparr>l_transaction_id := row_id\<rparr>)
                 (Receipt_Logs r)
          else [])"

lemma buildDBTx_Inr:
  "buildDBTx L row_id tx receipt block txIndex = Inr row \<Longrightarrow>
     t_id row = row_id \<and> t_hash row = drop 2 (HashHex L (Tx_Hash tx)) \<and> t_timestamp row = Block_Time block"
  by (auto simp: buildDBTx_def Let_def split: option.splits)

lemma buildDBLog_Inr:
  "buildDBLog L dbTx log block = Inr row \<longleftrightarrow>
     Block_Number block = Some (uint (lg_block_number log)) \<and>
     row = (BuildDBLogFromRequestedLog L log (Block_Time block))\<lparr>l_transaction_id := t_id dbTx\<rparr>"
  by (auto simp: buildDBLog_def split: option.splits)

lemma addReceiptLogs_Inr:
  assumes "foldR (addReceiptLog L dbTx block) data logs = Inr data'"
  shows "d_Blocks data' = d_Blocks data \<and> d_Transactions data' = d_Transactions data \<and>
    (\<exists>rows. rows = map (\<lambda>log. (BuildDBLogFromRequestedLog L log (Block_Time block))\<lparr>l_transaction_id := t_id dbTx\<rparr>) logs \<and>
       d_Logs data' = d_Logs data @ rows \<and>
       (\<forall>k. LogHashIndexCheck data' k \<longleftrightarrow> LogHashIndexCheck data k \<or> k \<in> log_check_key ` set rows)) \<and>
    (\<forall>log \<in> set logs. Block_Number block = Some (uint (lg_block_number log)))"
  using assms
proof (induction logs arbitrary: data)
  case (Cons log logs)
  then show ?case
    by (auto simp: addReceiptLog_def buildDBLog_Inr dest!: Cons.IH split: if_split_asm)
qed simp

text \<open>The first \<open>n\<close> steps of \<open>processTransactions\<close>.\<close>

lemma processTransactions_prefix:
  assumes "foldE (processTransaction L tb) data [0..<n] id0 = (Inr data', id')"
  shows "id' = id0 + of_nat n \<and> d_Blocks data' = d_Blocks data \<and>
    (\<exists>ts. d_Transactions data' = d_Transactions data @ ts \<and> length ts = n \<and>
       (\<forall>i < n. buildDBTx L (id0 + of_nat i) (transactions tb ! i) (receipts tb ! i) (blocks tb ! i) (indices tb ! i) = Inr (ts ! i))) \<and>
    (\<exists>rows. rows = concat (map (\<lambda>i. receipt_rows L tb (id0 + of_nat i) i) [0..<n]) \<and>
       d_Logs data' = d_Logs data @ rows \<and>
       (\<forall>k. LogHashIndexCheck data' k \<longleftrightarrow> LogHashIndexCheck data k \<or> k \<in> log_check_key ` set rows))"
  using assms
proof (induction n arbitrary: data' id')
  case (Suc n)
  then obtain d1 id1 where pre: "foldE (processTransaction L tb) data [0..<n] id0 = (Inr d1, id1)"
    and step: "processTransaction L tb d1 n id1 = (Inr data', id')"
    by (auto simp: foldE_snoc_Inr)
  note IH = Suc.IH [OF pre]
  then have id1: "id1 = id0 + of_nat n" by simp
  from IH obtain ts where ts: "d_Transactions d1 = d_Transactions data @ ts" "length ts = n"
    "\<forall>i < n. buildDBTx L (id0 + of_nat i) (transactions tb ! i) (receipts tb ! i) (blocks tb ! i) (indices tb ! i) = Inr (ts ! i)"
    by blast
  from step obtain row where row: "buildDBTx L id1 (transactions tb ! n) (receipts tb ! n) (blocks tb ! n) (indices tb ! n) = Inr row"
    and id': "id' = id1 + 1"
    and fin: "(case receipts tb ! n of
        Some r \<Rightarrow> if collectEvents (policies tb ! n)
                  then foldR (addReceiptLog L row (blocks tb ! n)) (d1\<lparr>d_Transactions := d_Transactions d1 @ [row]\<rparr>) (Receipt_Logs r)
                  else Inr (d1\<lparr>d_Transactions := d_Transactions d1 @ [row]\<rparr>)
      | None \<Rightarrow> Inr (d1\<lparr>d_Transactions := d_Transactions d1 @ [row]\<rparr>)) = Inr data'"
    by (auto simp: processTransaction_def Let_def split: sum.splits)
  have tid: "t_id row = id1" using buildDBTx_Inr [OF row] by simp
  have logs: "d_Blocks data' = d_Blocks d1 \<and> d_Transactions data' = d_Transactions d1 @ [row] \<and>
      d_Logs data' = d_Logs d1 @ receipt_rows L tb id1 n \<and>
      (\<forall>k. LogHashIndexCheck data' k \<longleftrightarrow> LogHashIndexCheck d1 k \<or> k \<in> log_check_key ` set (receipt_rows L tb id1 n))"
  proof (cases "receipts tb ! n")
    case None
    with fin show ?thesis by (auto simp: receipt_rows_def)
  next
    case (Some r)
    show ?thesis
    proof (cases "collectEvents (policies tb ! n)")
      case True
      with fin Some have "foldR (addReceiptLog L row (blocks tb ! n))
          (d1\<lparr>d_Transactions := d_Transactions d1 @ [row]\<rparr>) (Receipt_Logs r) = Inr data'" by simp
      from addReceiptLogs_Inr [OF this] show ?thesis using True Some by (simp add: receipt_rows_def tid)
    next
      case False
      with fin Some show ?thesis by (auto simp: receipt_rows_def)
    qed
  qed
  have "\<forall>i < Suc n. buildDBTx L (id0 + of_nat i) (transactions tb ! i) (receipts tb ! i) (blocks tb ! i) (indices tb ! i) = Inr ((ts @ [row]) ! i)"
    using ts(2,3) row id1 by (auto simp: nth_append less_Suc_eq)
  with ts logs have "\<exists>ts. d_Transactions data' = d_Transactions data @ ts \<and> length ts = Suc n \<and>
       (\<forall>i < Suc n. buildDBTx L (id0 + of_nat i) (transactions tb ! i) (receipts tb ! i) (blocks tb ! i) (indices tb ! i) = Inr (ts ! i))"
    by (intro exI [of _ "ts @ [row]"]) simp
  moreover have "\<exists>rows. rows = concat (map (\<lambda>i. receipt_rows L tb (id0 + of_nat i) i) [0..<Suc n]) \<and>
       d_Logs data' = d_Logs data @ rows \<and>
       (\<forall>k. LogHashIndexCheck data' k \<longleftrightarrow> LogHashIndexCheck data k \<or> k \<in> log_check_key ` set rows)"
    using IH logs by (auto simp: id1 image_Un)
  ultimately show ?case using IH logs by (simp add: id1 id' add.assoc)
qed simp

text \<open>
  C21: every collected transaction gets a row of its own number: the counter is handed out
  once per row, in order, and moved past all of them, so that within a batch, and across
  batches as long as 64 bits last, no two rows share an id; the row is the
  transaction's own: its hash and the time of its block; and the rows of logs that are added are those of the
  receipts of the transactions whose events are collected, in order, each referring to the id of its
  transaction's row.
\<close>

theorem transaction_ids_sequential:
  assumes "processTransactions L tb data id0 = (Inr data', id')"
    and "unat id0 + length (transactions tb) < 18446744073709551616"
  shows "unat id' = unat id0 + length (transactions tb) \<and>
    (\<exists>ts. d_Transactions data' = d_Transactions data @ ts \<and>
       map (unat \<circ> t_id) ts = [unat id0..<unat id'] \<and>
       map t_hash ts = map (\<lambda>tx. drop 2 (HashHex L (Tx_Hash tx))) (transactions tb) \<and>
       (batch_ok tb \<longrightarrow> map t_timestamp ts = map Block_Time (blocks tb)) \<and>
       d_Logs data' = d_Logs data @ concat (map (\<lambda>i. receipt_rows L tb (t_id (ts ! i)) i) [0..<length ts]))"
proof -
  let ?n = "length (transactions tb)"
  from processTransactions_prefix [OF assms(1) [unfolded processTransactions_def]] obtain ts
    where id': "id' = id0 + of_nat ?n" and ts: "d_Transactions data' = d_Transactions data @ ts" "length ts = ?n"
    and b: "\<forall>i < ?n. buildDBTx L (id0 + of_nat i) (transactions tb ! i) (receipts tb ! i) (blocks tb ! i) (indices tb ! i) = Inr (ts ! i)"
    and logs: "d_Logs data' = d_Logs data @ concat (map (\<lambda>i. receipt_rows L tb (id0 + of_nat i) i) [0..<?n])"
    by blast
  have row: "t_id (ts ! i) = id0 + of_nat i" "t_hash (ts ! i) = drop 2 (HashHex L (Tx_Hash (transactions tb ! i)))"
    "t_timestamp (ts ! i) = Block_Time (blocks tb ! i)" if "i < ?n" for i
    using b that by (auto dest!: buildDBTx_Inr)
  have u: "unat id' = unat id0 + ?n" using assms(2) by (simp add: id' unat_offset)
  have "unat (t_id (ts ! i)) = unat id0 + i" if "i < ?n" for i
    using row(1) [OF that] that assms(2) by (simp add: unat_offset)
  then have "map (unat \<circ> t_id) ts = [unat id0..<unat id']"
    using ts(2) u by (intro nth_equalityI) auto
  moreover have "map t_hash ts = map (\<lambda>tx. drop 2 (HashHex L (Tx_Hash tx))) (transactions tb)"
    using row(2) ts(2) by (intro nth_equalityI) auto
  moreover have "map t_timestamp ts = map Block_Time (blocks tb)" if "batch_ok tb"
    using row(3) ts(2) that by (intro nth_equalityI) (auto simp: batch_ok_def)
  moreover have "map (\<lambda>i. receipt_rows L tb (t_id (ts ! i)) i) [0..<length ts] = map (\<lambda>i. receipt_rows L tb (id0 + of_nat i) i) [0..<?n]"
    using row(1) ts(2) by simp
  ultimately show ?thesis using u ts(1) logs by auto
qed

text \<open>Two transactions of one block, the second with a receipt whose log is collected.\<close>

definition plain_tx :: "hash \<Rightarrow> ext_tx" where
  "plain_tx h = \<lparr>tx_hash = h, tx_to = Some 0xaa, tx_data = [1, 2, 3, 4, 5], tx_chain_id = 14, tx_value = 0,
     tx_gas_price = 25, tx_gas = 21000\<rparr>"

definition plain_log :: ext_log where
  "plain_log = \<lparr>lg_address = 0xaa, lg_topics = [], lg_data = [1], lg_block_number = 5, lg_tx_hash = 2, lg_index = 0\<rparr>"

definition two_txs :: transactionsBatch where
  "two_txs =
     (let b = AvaxData \<lparr>bk_number = 5, bk_time = 50, bk_hash = 9, bk_txs = [plain_tx 1, plain_tx 2]\<rparr> in
      \<lparr>transactions = [AvaxData (plain_tx 1), AvaxData (plain_tx 2)], blocks = [b, b], indices = [0, 1],
       receipts = [None, Some (AvaxData \<lparr>rc_status = 1, rc_logs = [plain_log]\<rparr>)],
       policies = [\<lparr>status = False, collectEvents = False\<rparr>, \<lparr>status = True, collectEvents = True\<rparr>]\<rparr>)"

theorem transaction_ids_sequential_witness:
  "\<exists>data' ts. processTransactions plain_lib two_txs newDatabaseStructData 7 = (Inr data', 9) \<and>
     d_Transactions data' = ts \<and> map (unat \<circ> t_id) ts = [7, 8] \<and> map t_timestamp ts = [50, 50] \<and>
     map l_transaction_id (d_Logs data') = [8]"
proof -
  have "AvaxSender plain_lib t = Inr 7" for t by (simp add: plain_lib_def)
  then have "case processTransactions plain_lib two_txs newDatabaseStructData 7 of
      (Inr _, n) \<Rightarrow> n = 9 | (Inl _, _) \<Rightarrow> False"
    by (simp add: processTransactions_def processTransaction_def two_txs_def Let_def upt_rec bindE_def
        buildDBTx_def plain_tx_def big_Uint64_def addReceiptLog_def buildDBLog_def plain_log_def wrapR_def)
  then obtain data' where run: "processTransactions plain_lib two_txs newDatabaseStructData 7 = (Inr data', 9)"
    by (cases "processTransactions plain_lib two_txs newDatabaseStructData 7") (auto split: sum.splits)
  have len: "length (transactions two_txs) = 2" by (simp add: two_txs_def Let_def)
  have ok: "batch_ok two_txs" "map Block_Time (blocks two_txs) = [50, 50]"
    by (simp_all add: two_txs_def Let_def batch_ok_def)
  from transaction_ids_sequential [OF run] obtain ts where ts:
    "d_Transactions data' = d_Transactions newDatabaseStructData @ ts" "map (unat \<circ> t_id) ts = [7..<9]"
    "map t_timestamp ts = [50, 50]" and
    logs: "d_Logs data' = d_Logs newDatabaseStructData @ concat (map (\<lambda>i. receipt_rows plain_lib two_txs (t_id (ts ! i)) i) [0..<length ts])"
    by (auto simp: len ok)
  have n: "length ts = 2" using arg_cong [OF ts(2), of length] by simp
  have "unat (t_id (ts ! 1)) = 8" using arg_cong [OF ts(2), of "\<lambda>l. l ! 1"] n by simp
  then have "t_id (ts ! 1) = 8" by (simp add: word_eq_unat)
  then have "map l_transaction_id (d_Logs data') = [8]"
    using logs n by (simp add: newDatabaseStructData_def upt_rec receipt_rows_def two_txs_def Let_def)
  with run ts show ?thesis by (auto simp: newDatabaseStructData_def upt_rec)
qed

end
