(* ===== verification/Save.thy ===== *)
theory Save
  imports Transactions
begin

text \<open>
  Writing a batch, \<^verbatim>\<open>internal/core/database.go\<close>: the rows in one transaction, and after its
  commit the coverage states in another.
\<close>

definition DBTransactionBatchesSize :: nat where "DBTransactionBatchesSize = 1000"

definition lowestBlock :: "db_block list \<Rightarrow> db_block option" where
  "lowestBlock bs =
     fold (\<lambda>b first. case first of None \<Rightarrow> Some b | Some f \<Rightarrow> if b_number b < b_number f then Some b else first)
       bs None"

definition saveRows :: "'x store \<Rightarrow> databaseStructData \<Rightarrow> ('x, unit) io" where
  "saveRows db data =
     bindE (if d_Blocks data \<noteq> []
            then wrapE ''saveData: CreateInBatches0'' (s_insert_blocks db DBTransactionBatchesSize (d_Blocks data))
            else ret ()) (\<lambda>_.
     bindE (if d_Transactions data \<noteq> []
            then wrapE ''saveData: CreateInBatches1'' (s_insert_txs db DBTransactionBatchesSize (d_Transactions data))
            else ret ()) (\<lambda>_.
     bindE (if d_Logs data \<noteq> []
            then wrapE ''saveData: CreateInBatches2'' (s_insert_logs db DBTransactionBatchesSize (d_Logs data))
            else ret ()) (\<lambda>_. ret ())))"

definition saveData :: "'x store \<Rightarrow> databaseStructData \<Rightarrow> u64 \<Rightarrow> u64 \<Rightarrow> ('x, unit) io" where
  "saveData db data lastDBIndex lastDBTimestamp =
     bindE (s_transaction db (saveRows db data)) (\<lambda>_.
       case lowestBlock (d_Blocks data) of
         None \<Rightarrow> UpdateState db LastIndexed lastDBIndex lastDBTimestamp
       | Some first \<Rightarrow> WriteCoverageStates db lastDBIndex lastDBTimestamp (b_number first) (b_timestamp first))"

subsection \<open>What a batch does to the tables\<close>

definition data_tables :: "databaseStructData \<Rightarrow> tables \<Rightarrow> tables" where
  "data_tables data tb =
     fold ins_log (d_Logs data) (fold ins_tx (d_Transactions data) (fold ins_block (d_Blocks data) tb))"

lemma data_tables_states [simp]: "tb_states (data_tables data tb) = tb_states tb"
  by (simp add: data_tables_def)

lemma data_tables_blocks [simp]:
  "tb_blocks (data_tables data tb) = tb_blocks (fold ins_block (d_Blocks data) tb)"
  by (simp add: data_tables_def)

lemma data_tables_txs:
  "tb_txs (data_tables data tb) = tb_txs (fold ins_tx (d_Transactions data) (fold ins_block (d_Blocks data) tb))"
  by (simp add: data_tables_def)

text \<open>The state after the commit of the rows: both states moved, or only \<open>LastIndexed\<close>.\<close>

definition saved_tables :: "databaseStructData \<Rightarrow> u64 \<Rightarrow> u64 \<Rightarrow> tables \<Rightarrow> tables" where
  "saved_tables data li lt tb =
     (case lowestBlock (d_Blocks data) of
        None \<Rightarrow> upsert_state LastIndexed li lt (data_tables data tb)
      | Some first \<Rightarrow> coverage_tables li lt (b_number first) (b_timestamp first) (data_tables data tb))"

context relational_store
begin

lemma saveRows_Inr:
  assumes "saveRows db data x = (Inr (), x')"
  shows "tabs x' = data_tables data (tabs x)"
proof -
  from assms obtain x1 x2 where
    "(if d_Blocks data \<noteq> [] then wrapE ''saveData: CreateInBatches0''
        (s_insert_blocks db DBTransactionBatchesSize (d_Blocks data)) else ret ()) x = (Inr (), x1)"
    "(if d_Transactions data \<noteq> [] then wrapE ''saveData: CreateInBatches1''
        (s_insert_txs db DBTransactionBatchesSize (d_Transactions data)) else ret ()) x1 = (Inr (), x2)"
    "(if d_Logs data \<noteq> [] then wrapE ''saveData: CreateInBatches2''
        (s_insert_logs db DBTransactionBatchesSize (d_Logs data)) else ret ()) x2 = (Inr (), x')"
    by (auto simp: saveRows_def bindE_Inr_iff)
  then have "tabs x1 = fold ins_block (d_Blocks data) (tabs x)"
    "tabs x2 = fold ins_tx (d_Transactions data) (tabs x1)"
    "tabs x' = fold ins_log (d_Logs data) (tabs x2)"
    by (auto simp: wrapE_Inr_iff split: if_splits
        dest: writes_Inr [OF insert_blocks_law] writes_Inr [OF insert_txs_law] writes_Inr [OF insert_logs_law])
  then show ?thesis by (simp add: data_tables_def)
qed

text \<open>The three states a save can leave, with a crash or an error anywhere on the way.\<close>

lemma saveData_outcomes:
  assumes "saveData db data li lt x = (r, x')"
  shows "tabs x' = saved_tables data li lt (tabs x) \<or>
    (\<exists>e. r = Inl e) \<and> (tabs x' = tabs x \<or> tabs x' = data_tables data (tabs x))"
proof -
  obtain r1 x1 where t: "s_transaction db (saveRows db data) x = (r1, x1)" by force
  have c: "tabs x1 = data_tables data (tabs x) \<or> tabs x1 = tabs x \<and> (\<exists>e. r1 = Inl e)"
    using transaction_law [OF t] saveRows_Inr by force
  show ?thesis
  proof (cases r1)
    case (Inl e)
    with assms t have "r = Inl e" "x' = x1" by (auto simp: saveData_def bindE_run_Inl)
    with c show ?thesis by auto
  next
    case (Inr u)
    with c have x1: "tabs x1 = data_tables data (tabs x)" by auto
    from assms t Inr have w: "(case lowestBlock (d_Blocks data) of
         None \<Rightarrow> UpdateState db LastIndexed li lt
       | Some first \<Rightarrow> WriteCoverageStates db li lt (b_number first) (b_timestamp first)) x1 = (r, x')"
      by (simp add: saveData_def bindE_run_Inr)
    show ?thesis
    proof (cases "lowestBlock (d_Blocks data)")
      case None
      with w writesD [OF UpdateState_writes, of LastIndexed li lt x1 r x'] x1 show ?thesis
        by (auto simp: saved_tables_def)
    next
      case (Some first)
      with w writesD [OF WriteCoverageStates_writes, of li lt "b_number first" "b_timestamp first" x1 r x'] x1
      show ?thesis by (auto simp: saved_tables_def)
    qed
  qed
qed

lemma saveData_Inr: "saveData db data li lt x = (Inr (), x') \<Longrightarrow> tabs x' = saved_tables data li lt (tabs x)"
  using saveData_outcomes by blast

end

subsection \<open>Coverage\<close>

text \<open>
  The row of a block of the chain; the rows of a table are rows of the chain; and hashes
  tell the blocks of the chain apart.
\<close>

definition chain_row :: "common_lib \<Rightarrow> ext_block \<Rightarrow> db_block" where
  "chain_row L b = \<lparr>b_hash = drop 2 (HashHex L (bk_hash b)), b_number = word_of_int (bk_number b), b_timestamp = bk_time b\<rparr>"

definition chain_rows :: "common_lib \<Rightarrow> (nat \<Rightarrow> ext_block) \<Rightarrow> tables \<Rightarrow> bool" where
  "chain_rows L chain tb \<longleftrightarrow> (\<forall>b \<in> set (tb_blocks tb). b = chain_row L (chain (unat (b_number b))))"

definition hashes_distinct :: "(nat \<Rightarrow> ext_block) \<Rightarrow> bool" where
  "hashes_distinct chain \<longleftrightarrow>
     (\<forall>j k. j < 18446744073709551616 \<longrightarrow> k < 18446744073709551616 \<longrightarrow>
        bk_hash (chain j) = bk_hash (chain k) \<longrightarrow> j = k)"

text \<open>The blocks of a batch of \<open>n\<close> blocks from \<open>first\<close> on.\<close>

definition batch_blocks :: "common_lib \<Rightarrow> (nat \<Rightarrow> ext_block) \<Rightarrow> u64 \<Rightarrow> nat \<Rightarrow> db_block list" where
  "batch_blocks L chain first n = map (\<lambda>k. chain_row L (chain (unat first + k))) [0..<n]"

text \<open>
  The next batch, from \<open>first\<close> on, connects to what is stored: every block from the floor up
  to \<open>first\<close> is in the table. It may start inside the indexed range, right above it, above
  rows that a crash left unclaimed, or below the floor.
\<close>

definition connects :: "u64 \<Rightarrow> tables \<Rightarrow> bool" where
  "connects first tb \<longleftrightarrow>
     (\<forall>fl m. tb_states tb BlockFloor = Some fl \<longrightarrow> Index fl \<le> m \<longrightarrow> m < first \<longrightarrow>
        m \<in> b_number ` set (tb_blocks tb))"

lemma connectsD:
  "connects first tb \<Longrightarrow> tb_states tb BlockFloor = Some fl \<Longrightarrow> Index fl \<le> m \<Longrightarrow> m < first \<Longrightarrow>
   m \<in> b_number ` set (tb_blocks tb)"
  by (auto simp: connects_def)

lemma connects_above_indexed:
  "covers tb \<Longrightarrow> tb_states tb LastIndexed = Some li \<Longrightarrow> unat first \<le> unat (Index li) + 1 \<Longrightarrow> connects first tb"
  by (auto simp: connects_def word_less_nat_alt word_le_nat_alt intro!: coversD [of tb])

lemma batch_block_number:
  "(\<And>k. bk_number (chain k) = int k) \<Longrightarrow> unat first + k < 18446744073709551616 \<Longrightarrow>
   unat (b_number (chain_row L (chain (unat first + k)))) = unat first + k"
proof -
  assume num: "\<And>k. bk_number (chain k) = int k" and k: "unat first + k < 18446744073709551616"
  have "b_number (chain_row L (chain (unat first + k))) = word_of_nat (unat first + k)"
    unfolding chain_row_def by (simp only: db_block.select_convs num of_int_of_nat_eq)
  with k show ?thesis by (simp only: unat_of_nat) simp
qed

lemma lowestBlock_batch:
  assumes num: "\<And>k. bk_number (chain k) = int k" and n: "unat first + n \<le> 18446744073709551616" "0 < n"
  shows "lowestBlock (batch_blocks L chain first n) = Some (chain_row L (chain (unat first)))"
proof -
  let ?low = "\<lambda>b first. case first of None \<Rightarrow> Some b | Some f \<Rightarrow> if b_number b < b_number f then Some b else first"
  let ?row = "\<lambda>k. chain_row L (chain (unat first + k))"
  have keep: "fold ?low bs (Some f) = Some f" if "\<forall>b \<in> set bs. b_number f \<le> b_number b" for bs f
    using that by (induction bs) auto
  have "b_number (?row 0) \<le> b_number (?row k)" if "k < n" for k
    using batch_block_number [OF num, of first 0 L] batch_block_number [OF num, of first k L] n that
    by (simp add: word_le_nat_alt)
  then have "fold ?low (map ?row [1..<n]) (Some (?row 0)) = Some (?row 0)" by (intro keep) auto
  moreover have "[0..<n] = 0 # [1..<n]" using n(2) by (simp add: upt_conv_Cons)
  ultimately show ?thesis by (simp add: lowestBlock_def batch_blocks_def)
qed

lemma fold_ins_block_chain:
  assumes "chain_rows L chain tb" and num: "\<And>k. bk_number (chain k) = int k"
    and n: "unat first + n \<le> 18446744073709551616"
  shows "chain_rows L chain (fold ins_block (batch_blocks L chain first n) tb)"
  unfolding chain_rows_def
proof
  fix b assume "b \<in> set (tb_blocks (fold ins_block (batch_blocks L chain first n) tb))"
  then consider "b \<in> set (tb_blocks tb)" | k where "k < n" "b = chain_row L (chain (unat first + k))"
    using fold_ins_block_origin [of "batch_blocks L chain first n" tb] by (auto simp: batch_blocks_def)
  then show "b = chain_row L (chain (unat (b_number b)))"
  proof cases
    case 2
    with batch_block_number [OF num, of first k L] n show ?thesis by simp
  qed (use assms(1) in \<open>auto simp: chain_rows_def\<close>)
qed

text \<open>Every block of the batch is then in the table, skipped duplicates included.\<close>

lemma batch_block_present:
  assumes "chain_rows L chain tb" and num: "\<And>k. bk_number (chain k) = int k"
    and L: "hash_hex_law L" and inj: "hashes_distinct chain"
    and n: "unat first + n \<le> 18446744073709551616" and m: "unat first \<le> unat (m::u64)" "unat m < unat first + n"
  shows "chain_row L (chain (unat m)) \<in> set (tb_blocks (fold ins_block (batch_blocks L chain first n) tb))"
proof -
  let ?tb = "fold ins_block (batch_blocks L chain first n) tb"
  have "chain_row L (chain (unat m)) \<in> set (batch_blocks L chain first n)"
    using m unfolding batch_blocks_def set_map by (intro image_eqI [of _ _ "unat m - unat first"]) auto
  from fold_ins_block_keys [OF this, of tb] obtain b where b: "b \<in> set (tb_blocks ?tb)"
    "b_hash b = b_hash (chain_row L (chain (unat m)))" by auto
  have "b = chain_row L (chain (unat (b_number b)))"
    using fold_ins_block_chain [OF assms(1) num n] b(1) by (auto simp: chain_rows_def)
  moreover from this have "b_hash b = drop 2 (HashHex L (bk_hash (chain (unat (b_number b)))))"
    by (metis chain_row_def db_block.select_convs(1))
  then have "bk_hash (chain (unat (b_number b))) = bk_hash (chain (unat m))"
    using b(2) hash_text_inject [OF L] by (simp add: chain_row_def)
  then have "unat (b_number b) = unat m"
    using inj unat_u64_bound [of m] unat_u64_bound [of "b_number b"] unfolding hashes_distinct_def by simp
  ultimately show ?thesis using b(1) by simp
qed

lemma saved_covers:
  assumes "covers tb" "chain_rows L chain tb" "connects first tb"
    and num: "\<And>k. bk_number (chain k) = int k" and L: "hash_hex_law L" and inj: "hashes_distinct chain"
    and n: "unat first + n \<le> 18446744073709551616" "0 < n" and li: "unat li + 1 = unat first + n"
    and data: "d_Blocks data = batch_blocks L chain first n"
  shows "covers (saved_tables data li lt tb)"
proof (rule coversI)
  let ?tb = "saved_tables data li lt tb"
  have low: "lowestBlock (d_Blocks data) = Some (chain_row L (chain (unat first)))"
    by (simp add: data lowestBlock_batch [OF num n])
  note low = low low [unfolded data]
  have first: "b_number (chain_row L (chain (unat first))) = first"
    using batch_block_number [OF num, of first 0 L] n by (simp add: word_eq_unat)
  have blocks: "tb_blocks ?tb = tb_blocks (fold ins_block (batch_blocks L chain first n) tb)"
    by (simp add: saved_tables_def low data)
  fix m fl l assume fl: "tb_states ?tb BlockFloor = Some fl" and l: "tb_states ?tb LastIndexed = Some l"
    and lo: "Index fl \<le> m" and hi: "m \<le> Index l"
  have l': "Index l = li" using l by (auto simp: saved_tables_def low)
  have fl': "fl = lowered (tb_states tb BlockFloor) first (b_timestamp (chain_row L (chain (unat first))))"
    using fl by (auto simp: saved_tables_def low first)
  show "m \<in> b_number ` set (tb_blocks ?tb)"
  proof (cases "first \<le> m")
    case True
    then have "unat first \<le> unat m" "unat m < unat first + n"
      using hi l' li by (auto simp: word_le_nat_alt)
    from batch_block_present [OF assms(2) num L inj n(1) this]
    have "chain_row L (chain (unat m)) \<in> set (tb_blocks ?tb)" by (simp add: blocks)
    moreover have "b_number (chain_row L (chain (unat m))) = m"
      using batch_block_number [OF num, of m 0 L] unat_u64_bound [of m] by (simp add: word_eq_unat)
    ultimately show ?thesis by force
  next
    case False
    then obtain fl0 where fl0: "tb_states tb BlockFloor = Some fl0" "Index fl0 \<le> m" "\<not> first \<le> Index fl0"
      using lo fl' by (auto simp: lowered_def split: option.splits if_splits)
    with connectsD [OF assms(3)] False have "m \<in> b_number ` set (tb_blocks tb)" by simp
    then show ?thesis using fold_ins_block_mono [of tb "batch_blocks L chain first n"] by (auto simp: blocks)
  qed
qed

lemma data_covers: "covers tb \<Longrightarrow> covers (data_tables data tb)"
  using fold_ins_block_mono [of tb "d_Blocks data"] by (fastforce simp: covers_def)

lemma saveData_coverage:
  assumes db: "relational_store db tabs" and num: "\<forall>k. bk_number (chain k) = int k"
    and L: "hash_hex_law L" and inj: "hashes_distinct chain"
    and tb: "covers (tabs x)" "chain_rows L chain (tabs x)" "connects first (tabs x)"
    and data: "d_Blocks data = batch_blocks L chain first n"
    and n: "0 < n" "unat lastIx + 1 = unat first + n"
    and run: "saveData db data lastIx lastTimestamp x = (r, x')"
  shows "covers (tabs x') \<and> chain_rows L chain (tabs x') \<and>
    (r = Inr () \<longrightarrow>
       state_of (tabs x') LastIndexed = \<lparr>Index = lastIx, BlockTimestamp = lastTimestamp\<rparr> \<and>
       Index (state_of (tabs x') BlockFloor) \<le> first \<and>
       (\<forall>m. first \<le> m \<longrightarrow> m \<le> lastIx \<longrightarrow> chain_row L (chain (unat m)) \<in> set (tb_blocks (tabs x'))) \<and>
       connects (lastIx + 1) (tabs x'))"
proof -
  have num': "\<And>k. bk_number (chain k) = int k" using num by blast
  have n': "unat first + n \<le> 18446744073709551616" using n(2) unat_u64_bound [of lastIx] by linarith
  let ?d = "data_tables data (tabs x)" and ?s = "saved_tables data lastIx lastTimestamp (tabs x)"
  have low: "lowestBlock (d_Blocks data) = Some (chain_row L (chain (unat first)))"
    by (simp add: data lowestBlock_batch [OF num' n' n(1)])
  note low = low low [unfolded data]
  have first: "b_number (chain_row L (chain (unat first))) = first"
    using batch_block_number [OF num', of first 0 L] unat_u64_bound [of first] by (simp add: word_eq_unat)
  have rows: "chain_rows L chain ?d" "chain_rows L chain ?s"
    using fold_ins_block_chain [OF tb(2) num' n'] by (simp_all add: chain_rows_def saved_tables_def low data)
  have cov: "covers ?s" by (rule saved_covers [OF tb num' L inj n' n(1) n(2) data])
  have succ: "state_of ?s LastIndexed = \<lparr>Index = lastIx, BlockTimestamp = lastTimestamp\<rparr> \<and>
       Index (state_of ?s BlockFloor) \<le> first \<and>
       (\<forall>m. first \<le> m \<longrightarrow> m \<le> lastIx \<longrightarrow> chain_row L (chain (unat m)) \<in> set (tb_blocks ?s)) \<and>
       connects (lastIx + 1) ?s"
  proof (intro conjI allI impI)
    fix m assume "first \<le> m" "m \<le> lastIx"
    then have "unat first \<le> unat m" "unat m < unat first + n" using n(2) by (auto simp: word_le_nat_alt)
    from batch_block_present [OF tb(2) num' L inj n' this] show "chain_row L (chain (unat m)) \<in> set (tb_blocks ?s)"
      by (simp add: saved_tables_def low data)
  next
    have "unat (lastIx + 1) \<le> unat lastIx + 1" unfolding unat_plus_if' by simp linarith
    then show "connects (lastIx + 1) ?s"
      by (intro connects_above_indexed [OF cov]) (auto simp: saved_tables_def low)
  qed (auto simp: saved_tables_def low state_of_def first lowered_def split: option.split)
  from relational_store.saveData_outcomes [OF db run] show ?thesis
    using rows cov succ tb(1,2) data_covers [OF tb(1)] by auto
qed

text \<open>
  C10: saving a batch keeps the claim of the coverage states whatever fails, and wherever the
  process stops: after every outcome all blocks from \<open>BlockFloor\<close> to \<open>LastIndexed\<close> are in
  the table, as rows of the chain. On success \<open>LastIndexed\<close> is the batch's last block, the
  floor is at most its first, every block of the batch is there, and the next block
  connects again. The batch must connect to what is stored.
\<close>

theorem save_keeps_coverage:
  assumes db: "relational_store db tabs" and num: "\<forall>k. bk_number (chain k) = int k"
    and L: "hash_hex_law L" and inj: "hashes_distinct chain"
    and tb: "covers (tabs x)" "chain_rows L chain (tabs x)" "connects first (tabs x)"
    and data: "d_Blocks data = batch_blocks L chain first n"
    and n: "0 < n" "unat lastIx + 1 = unat first + n"
    and run: "saveData db data lastIx lastTimestamp x = (r, x')"
  shows "covers (tabs x') \<and> chain_rows L chain (tabs x') \<and>
    (r = Inr () \<longrightarrow>
       state_of (tabs x') LastIndexed = \<lparr>Index = lastIx, BlockTimestamp = lastTimestamp\<rparr> \<and>
       Index (state_of (tabs x') BlockFloor) \<le> first \<and>
       (\<forall>m. first \<le> m \<longrightarrow> m \<le> lastIx \<longrightarrow> chain_row L (chain (unat m)) \<in> set (tb_blocks (tabs x'))) \<and>
       connects (lastIx + 1) (tabs x'))"
  by (rule saveData_coverage [OF assms])

text \<open>Blocks 1 and 2 are stored and claimed; the batch holds the blocks 3 and 4.\<close>

definition ten_apart :: "nat \<Rightarrow> ext_block" where
  "ten_apart = make_chain (\<lambda>k. of_nat (10 * k)) (\<lambda>_. [])"

definition two_blocks :: tables where
  "two_blocks = upsert_state LastIndexed 2 20 (upsert_state BlockFloor 1 10
     (empty_tables\<lparr>tb_blocks := batch_blocks plain_lib ten_apart 1 2\<rparr>))"

definition next_two :: databaseStructData where
  "next_two = newDatabaseStructData\<lparr>d_Blocks := batch_blocks plain_lib ten_apart 3 2\<rparr>"

lemma make_chain_distinct: "hashes_distinct (make_chain time txs)"
proof -
  have "j = k" if "(of_nat j :: hash) = of_nat k" "j < 18446744073709551616" "k < 18446744073709551616" for j k
  proof -
    have "unat (of_nat j :: hash) = unat (of_nat k :: hash)" using that(1) by simp
    with that(2,3) show ?thesis by (simp add: unat_of_nat)
  qed
  then show ?thesis by (auto simp: hashes_distinct_def make_chain_def)
qed

lemma two_blocks_start:
  "covers two_blocks" "chain_rows plain_lib ten_apart two_blocks" "connects 3 two_blocks"
proof -
  have b: "tb_blocks two_blocks = [chain_row plain_lib (ten_apart 1), chain_row plain_lib (ten_apart 2)]"
    by (simp add: two_blocks_def batch_blocks_def upt_rec numeral_2_eq_2)
  have n: "b_number (chain_row plain_lib (ten_apart 1)) = 1" "b_number (chain_row plain_lib (ten_apart 2)) = 2"
    by (simp_all add: chain_row_def ten_apart_def make_chain_def)
  have "n = 1 \<or> n = 2" if "1 \<le> n" "n \<le> 2" for n :: u64
  proof -
    from that have "unat n = 1 \<or> unat n = 2" by (auto simp: word_le_nat_alt)
    then show ?thesis by (auto simp: word_eq_unat)
  qed
  then show cov: "covers two_blocks" using b n by (auto simp: covers_def two_blocks_def)
  show "chain_rows plain_lib ten_apart two_blocks" using n by (simp only: chain_rows_def b) simp
  show "connects 3 two_blocks"
    by (rule connects_above_indexed [OF cov, of "\<lparr>Index = 2, BlockTimestamp = 20\<rparr>"]) (simp_all add: two_blocks_def)
qed

theorem save_keeps_coverage_witness:
  "\<exists>x'. saveData mem_store next_two 4 40 (empty_mem\<lparr>m_tabs := two_blocks\<rparr>) = (Inr (), x') \<and>
     covers (m_tabs x') \<and> Index (state_of (m_tabs x') LastIndexed) = 4 \<and> connects 5 (m_tabs x')"
proof -
  have "case fst (saveData mem_store next_two 4 40 (empty_mem\<lparr>m_tabs := two_blocks\<rparr>)) of
      Inr _ \<Rightarrow> True | Inl _ \<Rightarrow> False"
    by code_simp
  then obtain x' where run: "saveData mem_store next_two 4 40 (empty_mem\<lparr>m_tabs := two_blocks\<rparr>) = (Inr (), x')"
    by (cases "saveData mem_store next_two 4 40 (empty_mem\<lparr>m_tabs := two_blocks\<rparr>)") (auto split: sum.splits)
  have num: "\<forall>k. bk_number (ten_apart k) = int k" by (simp add: ten_apart_def make_chain_def)
  have inj: "hashes_distinct ten_apart" unfolding ten_apart_def by (rule make_chain_distinct)
  from save_keeps_coverage [OF mem_store.relational_store_axioms num plain_hash_law inj _ _ _ _ _ _ run,
      of 3 2] two_blocks_start
  have "covers (m_tabs x') \<and> state_of (m_tabs x') LastIndexed = \<lparr>Index = 4, BlockTimestamp = 40\<rparr> \<and> connects (4 + 1) (m_tabs x')"
    by (simp add: next_two_def)
  with run show ?thesis by auto
qed

end
