(* ===== verification/Indexing.thy ===== *)
theory Indexing
  imports Save
begin

text \<open>
  The indexing loops of \<^verbatim>\<open>internal/core/engine.go\<close>. They run on the state of the process:
  the outside state, the counter \<^verbatim>\<open>database.TransactionId\<close>, the flag of \<^verbatim>\<open>ready\<close> and the cache
  of the contract resolver. A batch's goroutines run in the order \<open>schedule D\<close>, the logs
  stream before or after the blocks stream; times and logging are left out.
\<close>

record 'x world =
  ext :: 'x
  TransactionId :: u64
  synced :: bool
  cache :: "string \<Rightarrow> address option"

definition liftX :: "('x, 'a) io \<Rightarrow> ('x world, 'a) io" where
  "liftX m = (\<lambda>w. case m (ext w) of (r, x') \<Rightarrow> (r, w\<lparr>ext := x'\<rparr>))"

definition liftT :: "(u64, 'a) io \<Rightarrow> ('x world, 'a) io" where
  "liftT m = (\<lambda>w. case m (TransactionId w) of (r, t) \<Rightarrow> (r, w\<lparr>TransactionId := t\<rparr>))"

subsection \<open>A batch\<close>

text \<open>
  The slots of a batch are nil pointers until their goroutine has filled them; the first
  read of a nil slot would panic.
\<close>

definition fill_slot ::
  "'x deps \<Rightarrow> 'x engine \<Rightarrow> u64 \<Rightarrow> block option list \<Rightarrow> nat \<Rightarrow> ('x, block option list) io" where
  "fill_slot D ci firstBlockNumber slots i =
     bindE (fetchBlock D ci (Some (firstBlockNumber + of_nat i))) (\<lambda>block. ret (slots[i := Some block]))"

definition read_slot :: "block option \<Rightarrow> go_error + block" where
  "read_slot s = (case s of None \<Rightarrow> Inl (Panic ''nil block'') | Some b \<Rightarrow> Inr b)"

definition obtainBlocksBatch :: "'x deps \<Rightarrow> 'x engine \<Rightarrow> u64 \<Rightarrow> u64 \<Rightarrow> ('x, block list) io" where
  "obtainBlocksBatch D ci firstBlockNumber lastBlockNumInRound =
     (let batchSize = unat (lastBlockNumInRound + 1 - firstBlockNumber) in
      bindE (foldE (fill_slot D ci firstBlockNumber) (replicate batchSize None) (schedule D batchSize)) (\<lambda>slots.
        liftR (mapR read_slot slots)))"

definition processBlocksBatch :: "'x engine \<Rightarrow> block list \<Rightarrow> transactionsBatch" where
  "processBlocksBatch ci bBatch = processBlocks ci bBatch empty_txBatch"

definition obtainLogsBatch :: "'x deps \<Rightarrow> 'x engine \<Rightarrow> u64 \<Rightarrow> u64 \<Rightarrow> ('x, ext_log list) io" where
  "obtainLogsBatch D ci batchIx lastBlockNumInRound =
     foldE (\<lambda>lgBatch logInfo.
         requestLogs D ci lgBatch logInfo batchIx (lastBlockNumInRound + 1) lastBlockNumInRound)
       [] (CollectLogs (params ci))"

definition processAndSave ::
  "'x deps \<Rightarrow> 'x engine \<Rightarrow> block list \<Rightarrow> transactionsBatch \<Rightarrow> ext_log list \<Rightarrow> u64 \<Rightarrow> u64 \<Rightarrow> u64 \<Rightarrow> ('x world, unit) io" where
  "processAndSave D ci bBatch txBatch lgBatch firstBlockNum lastDBIndex lastDBTimestamp =
     bindE (liftR (convertBlocksToDB (lib D) bBatch)) (\<lambda>dbBlocks.
     bindE (wrapE ''ci.processTransactions''
              (liftT (processTransactions (lib D) txBatch (newDatabaseStructData\<lparr>d_Blocks := dbBlocks\<rparr>)))) (\<lambda>data.
     bindE (wrapE ''ci.processLogs'' (liftR (processLogs (lib D) lgBatch bBatch firstBlockNum data))) (\<lambda>data.
       wrapE ''ci.saveData'' (liftX (saveData (e_db ci) data lastDBIndex lastDBTimestamp)))))"

record indexRange =
  r_start :: u64
  r_end :: u64

text \<open>The stream of blocks with their transactions and receipts.\<close>

definition blocksStream ::
  "'x deps \<Rightarrow> 'x engine \<Rightarrow> u64 \<Rightarrow> u64 \<Rightarrow> ('x, block list \<times> transactionsBatch) io" where
  "blocksStream D ci batchIx lastBlockNumInRound =
     bindE (obtainBlocksBatch D ci batchIx lastBlockNumInRound) (\<lambda>bBatch.
     bindE (processTransactionsBatch D ci (processBlocksBatch ci bBatch)) (\<lambda>txBatch.
       ret (bBatch, txBatch)))"

definition bothStreams ::
  "'x deps \<Rightarrow> 'x engine \<Rightarrow> u64 \<Rightarrow> u64 \<Rightarrow> ('x, (block list \<times> transactionsBatch) \<times> ext_log list) io" where
  "bothStreams D ci batchIx lastBlockNumInRound =
     (if logs_first D
      then bindE (obtainLogsBatch D ci batchIx lastBlockNumInRound) (\<lambda>lgs.
           bindE (blocksStream D ci batchIx lastBlockNumInRound) (\<lambda>bts. ret (bts, lgs)))
      else bindE (blocksStream D ci batchIx lastBlockNumInRound) (\<lambda>bts.
           bindE (obtainLogsBatch D ci batchIx lastBlockNumInRound) (\<lambda>lgs. ret (bts, lgs))))"

definition indexBatch :: "'x deps \<Rightarrow> 'x engine \<Rightarrow> u64 \<Rightarrow> indexRange \<Rightarrow> ('x world, unit) io" where
  "indexBatch D ci batchIx ixRange =
     (let lastBlockNumInRound = min (batchIx + BatchSize (params ci) - 1) (r_end ixRange) in
      bindE (liftX (bothStreams D ci batchIx lastBlockNumInRound)) (\<lambda>((bBatch, txBatch), lgBatch).
        let i = unat (min (BatchSize (params ci) - 1) (r_end ixRange - batchIx)) in
        if length bBatch \<le> i then throw (Panic ''index out of range'')
        else processAndSave D ci bBatch txBatch lgBatch batchIx lastBlockNumInRound (Block_Time (bBatch ! i))))"

subsection \<open>History\<close>

definition getIndexRange :: "'x deps \<Rightarrow> 'x engine \<Rightarrow> u64 \<Rightarrow> ('x, indexRange) io" where
  "getIndexRange D ci startIndex =
     bindE (wrapE ''ci.fetchLastBlockIndex'' (fetchLastBlockIndex D ci)) (\<lambda>(lastChainIndex, lastChainTimestamp).
     bindE (wrapE ''database.UpdateState(LastChainIndexState)''
              (UpdateState (e_db ci) ChainTip lastChainIndex lastChainTimestamp)) (\<lambda>_.
       ret \<lparr>r_start = startIndex, r_end = min lastChainIndex (StopIndex (params ci))\<rparr>))"

definition updateLastIndexContinuous :: "'x deps \<Rightarrow> 'x engine \<Rightarrow> indexRange \<Rightarrow> ('x, indexRange) io" where
  "updateLastIndexContinuous D ci ixRange =
     bindE (wrapE ''ci.fetchLastBlockIndex'' (fetchLastBlockIndex D ci)) (\<lambda>(lastIndex, lastChainTimestamp).
     bindE (wrapE ''database.UpdateState'' (UpdateState (e_db ci) ChainTip lastIndex lastChainTimestamp)) (\<lambda>_.
       ret \<lparr>r_start = r_start ixRange, r_end = lastIndex\<rparr>))"

definition shouldUpdateLastIndex :: "'x engine \<Rightarrow> indexRange \<Rightarrow> u64 \<Rightarrow> bool" where
  "shouldUpdateLastIndex ci ixRange batchIx \<longleftrightarrow>
     batchIx + BatchSize (params ci) \<le> r_end ixRange \<and> r_end ixRange < batchIx + 2 * BatchSize (params ci)"

definition updateLastIndexHistory :: "'x deps \<Rightarrow> 'x engine \<Rightarrow> indexRange \<Rightarrow> ('x, indexRange) io" where
  "updateLastIndexHistory D ci ixRange =
     bindE (wrapE ''ci.fetchLastBlockIndex'' (fetchLastBlockIndex D ci)) (\<lambda>(lastChainIndex, lastChainTimestamp).
     bindE (wrapE ''database.UpdateState'' (UpdateState (e_db ci) ChainTip lastChainIndex lastChainTimestamp)) (\<lambda>_.
       ret (if r_end ixRange < lastChainIndex \<and> r_end ixRange < StopIndex (params ci)
            then ixRange\<lparr>r_end := min lastChainIndex (StopIndex (params ci))\<rparr> else ixRange)))"

primrec IndexHistory_from :: "nat \<Rightarrow> 'x deps \<Rightarrow> 'x engine \<Rightarrow> u64 \<Rightarrow> indexRange \<Rightarrow> ('x world, u64) io" where
  "IndexHistory_from 0 D ci i ixRange = throw OutOfFuel"
| "IndexHistory_from (Suc n) D ci i ixRange =
     (if i \<le> r_end ixRange then
        bindE (wrapE ''indexBatch'' (indexBatch D ci i ixRange)) (\<lambda>_.
        bindE (if shouldUpdateLastIndex ci ixRange i then liftX (updateLastIndexHistory D ci ixRange)
               else ret ixRange) (\<lambda>ixRange.
          IndexHistory_from n D ci (i + BatchSize (params ci)) ixRange))
      else ret (r_end ixRange))"

definition IndexHistory :: "'x deps \<Rightarrow> 'x engine \<Rightarrow> u64 \<Rightarrow> ('x world, u64) io" where
  "IndexHistory D ci startIndex =
     bindE (liftX (getIndexRange D ci startIndex)) (\<lambda>ixRange.
       IndexHistory_from (loop_fuel D) D ci (r_start ixRange) ixRange)"

subsection \<open>Continuous indexing\<close>

definition indexContinuousIteration :: "'x deps \<Rightarrow> 'x engine \<Rightarrow> u64 \<Rightarrow> ('x world, unit) io" where
  "indexContinuousIteration D ci index =
     bindE (wrapE ''fetchBlock'' (liftX (fetchBlock D ci (Some index)))) (\<lambda>block.
     let bBatch = [block]; txBatch = processBlocks ci bBatch empty_txBatch in
     bindE (wrapE ''getTransactionsReceipt''
              (liftX (getTransactionsReceipt D ci txBatch 0 (length (transactions txBatch))))) (\<lambda>txBatch.
     bindE (liftX (foldE (\<lambda>logsBatch logInfo.
              wrapE ''requestLogs'' (requestLogs D ci logsBatch logInfo index (index + 1) index))
              [] (CollectLogs (params ci)))) (\<lambda>logsBatch.
     bindE (liftR (convertBlocksToDB (lib D) bBatch)) (\<lambda>dbBlocks.
     bindE (wrapE ''processTransactions''
              (liftT (processTransactions (lib D) txBatch (newDatabaseStructData\<lparr>d_Blocks := dbBlocks\<rparr>)))) (\<lambda>data.
     bindE (wrapE ''processLogs'' (liftR (processLogs (lib D) logsBatch bBatch index data))) (\<lambda>data.
       wrapE ''saveData'' (liftX (saveData (e_db ci) data index (Block_Time (bBatch ! 0))))))))))"

text \<open>
  The loop ends at \<^verbatim>\<open>StopIndex\<close> only; \<open>n\<close> bounds its rounds, waiting rounds included.
\<close>

primrec IndexContinuous_from :: "nat \<Rightarrow> 'x deps \<Rightarrow> 'x engine \<Rightarrow> u64 \<Rightarrow> indexRange \<Rightarrow> ('x world, unit) io" where
  "IndexContinuous_from 0 D ci blockNum ixRange = throw OutOfFuel"
| "IndexContinuous_from (Suc n) D ci blockNum ixRange =
     (if blockNum \<le> StopIndex (params ci) then
        if r_end ixRange < blockNum then
          bindE (liftX (updateLastIndexContinuous D ci ixRange)) (\<lambda>ixRange.
            IndexContinuous_from n D ci blockNum ixRange)
        else
          bindE (indexContinuousIteration D ci blockNum) (\<lambda>_.
            IndexContinuous_from n D ci (blockNum + 1) ixRange)
      else ret ())"

definition IndexContinuous :: "'x deps \<Rightarrow> 'x engine \<Rightarrow> u64 \<Rightarrow> ('x world, unit) io" where
  "IndexContinuous D ci startIndex =
     bindE (wrapE ''ci.getIndexRange'' (liftX (getIndexRange D ci startIndex))) (\<lambda>ixRange.
       IndexContinuous_from (loop_fuel D) D ci (r_start ixRange) ixRange)"

subsection \<open>Lifting\<close>

lemma liftX_iff: "liftX m w = (r, w') \<longleftrightarrow> (\<exists>x'. m (ext w) = (r, x') \<and> w' = w\<lparr>ext := x'\<rparr>)"
  by (auto simp: liftX_def split: prod.splits)

lemma liftT_iff: "liftT m w = (r, w') \<longleftrightarrow> (\<exists>t. m (TransactionId w) = (r, t) \<and> w' = w\<lparr>TransactionId := t\<rparr>)"
  by (auto simp: liftT_def split: prod.splits)

lemma liftX_triple: "triple P m Q R \<Longrightarrow> triple (\<lambda>w. P (ext w)) (liftX m) (\<lambda>y w. Q y (ext w)) (\<lambda>e w. R e (ext w))"
  by (rule tripleI) (auto simp: liftX_iff dest: triple_Inr triple_Inl)

lemma liftT_keeps: "keeps (\<lambda>w. P (ext w)) (liftT m)"
  by (rule keepsI) (auto simp: liftT_iff)

subsection \<open>A batch of blocks\<close>

text \<open>A schedule runs each goroutine of a batch exactly once.\<close>

definition fair :: "'x deps \<Rightarrow> bool" where
  "fair D \<longleftrightarrow> (\<forall>n. mset (schedule D n) = mset [0..<n])"

lemma fair_set: "fair D \<Longrightarrow> set (schedule D n) = {..<n}"
  unfolding fair_def by (metis atLeast_upt set_mset_mset)

text \<open>The blocks of a batch are those of the chain.\<close>

definition chain_batch :: "(nat \<Rightarrow> ext_block) \<Rightarrow> u64 \<Rightarrow> nat \<Rightarrow> block list \<Rightarrow> bool" where
  "chain_batch chain first n bs \<longleftrightarrow>
     length bs = n \<and> (\<forall>i < n. untag (bs ! i) = Some (chain (unat first + i)))"

lemma read_slot_Inr [simp]: "read_slot s = Inr b \<longleftrightarrow> s = Some b"
  by (auto simp: read_slot_def split: option.splits)

lemma batch_size:
  fixes first last' :: u64
  assumes "first \<le> last'" and "unat last' < 18446744073709551615"
  shows "unat (last' + 1 - first) = Suc (unat last') - unat first"
proof -
  have "unat (last' + 1) = Suc (unat last')" using assms(2) unat_Suc_below_max by simp
  moreover have "first \<le> last' + 1" using assms calculation by (simp add: word_le_nat_alt)
  ultimately show ?thesis by (simp add: unat_minus_exact)
qed

context indexer
begin

lemma fetchBlock_keeps: "keeps (\<lambda>x. tabs x = v) (fetchBlock D ci n)"
  unfolding fetchBlock_def by (intro rb.RetryWithMaxElapsed_triple client_keeps_view)

lemma fetchBlockHeader_keeps: "keeps (\<lambda>x. tabs x = v) (fetchBlockHeader D ci n)"
  unfolding fetchBlockHeader_def by (intro rh.RetryWithMaxElapsed_triple client_keeps_view)

lemma fill_slot_Inr:
  "fill_slot D ci first slots i x = (Inr slots', x') \<longleftrightarrow>
     (\<exists>b. fetchBlock D ci (Some (first + of_nat i)) x = (Inr b, x') \<and> slots' = slots[i := Some b])"
  by (auto simp: fill_slot_def bindE_Inr_iff)

lemma fill_slots_Inr:
  assumes "foldE (fill_slot D ci first) slots is x = (Inr slots', x')" and "set is \<subseteq> {..<length slots}"
  shows "length slots' = length slots \<and>
    (\<forall>j < length slots. if j \<in> set is
       then \<exists>b. slots' ! j = Some b \<and> untag b = Some (chain (unat (first + of_nat j)))
       else slots' ! j = slots ! j)"
  using assms
proof (induction "is" arbitrary: slots x)
  case (Cons i "is")
  then obtain b x1 where one: "fetchBlock D ci (Some (first + of_nat i)) x = (Inr b, x1)"
    and rest: "foldE (fill_slot D ci first) (slots[i := Some b]) is x1 = (Inr slots', x')"
    by (auto simp: fill_slot_Inr bindE_Inr_iff)
  have b: "untag b = Some (chain (unat (first + of_nat i)))" by (rule fetchBlock_Inr(2) [OF one]) simp
  from Cons.IH [OF rest] Cons.prems(2)
  have IH: "length slots' = length slots" "\<And>j. j < length slots \<Longrightarrow> (if j \<in> set is
       then \<exists>b. slots' ! j = Some b \<and> untag b = Some (chain (unat (first + of_nat j)))
       else slots' ! j = slots[i := Some b] ! j)" by auto
  have "if j \<in> set (i # is)
       then \<exists>b. slots' ! j = Some b \<and> untag b = Some (chain (unat (first + of_nat j)))
       else slots' ! j = slots ! j" if "j < length slots" for j
    using IH(2) [OF that] b that by (cases "j \<in> set is"; cases "j = i") auto
  with IH(1) show ?case by blast
qed simp

lemma obtainBlocksBatch_chain:
  assumes run: "obtainBlocksBatch D ci first lastN x = (Inr bs, x')" and fair: "fair D"
    and range: "first \<le> lastN" "unat lastN < 18446744073709551615"
  shows "chain_batch chain first (Suc (unat lastN) - unat first) bs"
proof -
  let ?n = "Suc (unat lastN) - unat first"
  have n: "unat (lastN + 1 - first) = ?n" by (rule batch_size [OF range])
  from run obtain slots x1 where
    fill: "foldE (fill_slot D ci first) (replicate ?n None) (schedule D ?n) x = (Inr slots, x1)"
    and bs: "mapR read_slot slots = Inr bs"
    by (auto simp: obtainBlocksBatch_def Let_def n bindE_Inr_iff)
  have slots: "length slots = ?n" "\<And>j. j < ?n \<Longrightarrow> \<exists>b. slots ! j = Some b \<and> untag b = Some (chain (unat (first + of_nat j)))"
    using fill_slots_Inr [OF fill] fair_set [OF fair, of ?n] by auto
  have "unat (first + of_nat j) = unat first + j" if "j < ?n" for j
    using that range by (intro unat_offset) linarith
  with slots bs show ?thesis unfolding chain_batch_def mapR_Inr_iff by auto
qed

lemma obtainBlocksBatch_keeps: "keeps (\<lambda>x. tabs x = v) (obtainBlocksBatch D ci first lastN)"
  unfolding obtainBlocksBatch_def Let_def fill_slot_def
  by (intro keeps_bind keeps_foldE fetchBlock_keeps triple_ret triple_liftR)

lemma chain_batch_rows:
  assumes "chain_batch chain first n bs"
  shows "convertBlocksToDB L bs = Inr (batch_blocks L chain first n)"
  unfolding convertBlocksToDB_def mapR_Inr_iff
  using assms untag_reads
  by (auto simp: chain_batch_def batch_blocks_def chain_row_def)

end

text \<open>
  C11: the goroutines of a batch may run in any order: whichever schedule runs, a batch that
  is fetched holds the blocks of its range, in order, without a gap.
\<close>

theorem batch_any_schedule:
  assumes "indexer D ci chain logs_at receipt_of tabs" and "fair D"
    and "first \<le> lastN" and "unat lastN < 18446744073709551615"
    and "obtainBlocksBatch D ci first lastN x = (Inr bs, x')"
  shows "map untag bs = map (\<lambda>k. Some (chain k)) [unat first..<Suc (unat lastN)]"
proof -
  have "chain_batch chain first (Suc (unat lastN) - unat first) bs"
    by (rule indexer.obtainBlocksBatch_chain [OF assms(1,5,2-4)])
  then show ?thesis by (intro nth_equalityI) (auto simp: chain_batch_def simp del: upt_Suc)
qed

lemma mem_deps_fair: "fair (mem_deps k n)"
  by (simp add: fair_def)

theorem batch_any_schedule_witness:
  "\<exists>bs x'. obtainBlocksBatch (mem_deps 1 10) plain_engine 2 4 ((head_at 5)\<lparr>m_faults := [False, True]\<rparr>) = (Inr bs, x') \<and>
     length bs = 3"
proof -
  have "(case fst (obtainBlocksBatch (mem_deps 1 10) plain_engine 2 4 ((head_at 5)\<lparr>m_faults := [False, True]\<rparr>)) of
      Inr _ \<Rightarrow> True | Inl _ \<Rightarrow> False)"
    by code_simp
  then obtain bs x' where run: "obtainBlocksBatch (mem_deps 1 10) plain_engine 2 4
      ((head_at 5)\<lparr>m_faults := [False, True]\<rparr>) = (Inr bs, x')"
    by (cases "obtainBlocksBatch (mem_deps 1 10) plain_engine 2 4 ((head_at 5)\<lparr>m_faults := [False, True]\<rparr>)")
       (auto split: sum.splits)
  from batch_any_schedule [OF plain_indexer mem_deps_fair _ _ run]
  have "map untag bs = map (\<lambda>k. Some (make_chain (\<lambda>k. of_nat (10 * k)) (\<lambda>_. []) k)) [2..<5]" by simp
  from arg_cong [OF this, of length] have "length bs = 3" by simp
  with run show ?thesis by blast
qed

subsection \<open>A batch keeps the coverage\<close>

text \<open>
  The state between batches: what the coverage states claim is there, as rows of the chain,
  and indexing from \<open>first\<close> on connects to it.
\<close>

definition sound :: "common_lib \<Rightarrow> (nat \<Rightarrow> ext_block) \<Rightarrow> u64 \<Rightarrow> tables \<Rightarrow> bool" where
  "sound L chain first tb \<longleftrightarrow> covers tb \<and> chain_rows L chain tb \<and> connects first tb"

definition rows_present :: "common_lib \<Rightarrow> (nat \<Rightarrow> ext_block) \<Rightarrow> nat \<Rightarrow> nat \<Rightarrow> tables \<Rightarrow> bool" where
  "rows_present L chain lo hi tb \<longleftrightarrow>
     (\<forall>m. lo \<le> m \<longrightarrow> m < hi \<longrightarrow> chain_row L (chain m) \<in> set (tb_blocks tb))"

lemma rows_present_mono:
  "rows_present L chain lo hi tb \<Longrightarrow> set (tb_blocks tb) \<subseteq> set (tb_blocks tb') \<Longrightarrow> rows_present L chain lo hi tb'"
  by (auto simp: rows_present_def)

lemma rows_present_join:
  "rows_present L chain a b tb \<Longrightarrow> rows_present L chain b c tb \<Longrightarrow> rows_present L chain a c tb"
  unfolding rows_present_def by (meson not_le)

definition floor_at_most :: "u64 \<Rightarrow> tables \<Rightarrow> bool" where
  "floor_at_most k tb \<longleftrightarrow> (\<exists>fl. tb_states tb BlockFloor = Some fl \<and> Index fl \<le> k)"

text \<open>
  No row from \<open>s\<close> on lies above a gap: every block from \<open>s\<close> up to a stored one is stored. This
  holds when indexing starts from \<open>s\<close> above all stored rows.
\<close>

definition gapless :: "u64 \<Rightarrow> tables \<Rightarrow> bool" where
  "gapless s tb \<longleftrightarrow>
     (\<forall>b \<in> set (tb_blocks tb). \<forall>m. s \<le> m \<longrightarrow> m \<le> b_number b \<longrightarrow> m \<in> b_number ` set (tb_blocks tb))"

text \<open>
  Rows were inserted in the order of their numbers, which are block numbers of a chain; the
  floor and \<open>LastIndexed\<close> are set together, the floor not above \<open>LastIndexed\<close>.
\<close>

definition ordered :: "tables \<Rightarrow> bool" where
  "ordered tb \<longleftrightarrow>
     sorted_wrt (<) (map b_number (tb_blocks tb)) \<and> (\<forall>b \<in> set (tb_blocks tb). unat (b_number b) < 2 ^ 62)"

definition floored :: "tables \<Rightarrow> bool" where
  "floored tb \<longleftrightarrow>
     (case (tb_states tb BlockFloor, tb_states tb LastIndexed) of
        (None, None) \<Rightarrow> True | (Some fl, Some li) \<Rightarrow> Index fl \<le> Index li | _ \<Rightarrow> False)"

text \<open>The floor is the number of a stored row, with the time of that row.\<close>

definition floor_row :: "tables \<Rightarrow> bool" where
  "floor_row tb \<longleftrightarrow>
     (\<forall>fl. tb_states tb BlockFloor = Some fl \<longrightarrow>
        (\<exists>b \<in> set (tb_blocks tb). b_number b = Index fl \<and> b_timestamp b = BlockTimestamp fl))"

lemma tip_fields [simp]:
  "gapless s (upsert_state ChainTip i t tb) \<longleftrightarrow> gapless s tb"
  "covers (upsert_state ChainTip i t tb) \<longleftrightarrow> covers tb"
  "chain_rows L chain (upsert_state n i t tb) \<longleftrightarrow> chain_rows L chain tb"
  "connects first (upsert_state ChainTip i t tb) \<longleftrightarrow> connects first tb"
  "sound L chain first (upsert_state ChainTip i t tb) \<longleftrightarrow> sound L chain first tb"
  "ordered (upsert_state ChainTip i t tb) \<longleftrightarrow> ordered tb"
  "floor_row (upsert_state ChainTip i t tb) \<longleftrightarrow> floor_row tb"
  by (auto simp: covers_def chain_rows_def connects_def sound_def gapless_def ordered_def floor_row_def)

text \<open>
  What indexing from \<open>s\<close> on preserves besides: no stored block is lost, none below \<open>s\<close> is added,
  no floor is raised, rows stay gapless and ordered when they were, and \<open>LastIndexed\<close> stays a
  block number of a chain.
\<close>

definition tip_low :: "tables \<Rightarrow> bool" where
  "tip_low tb \<longleftrightarrow> (\<forall>li. tb_states tb LastIndexed = Some li \<longrightarrow> unat (Index li) < 2 ^ 62)"

definition grows :: "u64 \<Rightarrow> tables \<Rightarrow> tables \<Rightarrow> bool" where
  "grows s tb tb' \<longleftrightarrow>
     set (tb_blocks tb) \<subseteq> set (tb_blocks tb') \<and> (\<forall>k. floor_at_most k tb \<longrightarrow> floor_at_most k tb') \<and>
     (\<forall>b \<in> set (tb_blocks tb'). b \<in> set (tb_blocks tb) \<or> s \<le> b_number b) \<and> (floored tb \<longrightarrow> floored tb') \<and>
     (floor_row tb \<longrightarrow> floor_row tb') \<and>
     (gapless s tb \<longrightarrow> gapless s tb' \<and> (ordered tb \<longrightarrow> ordered tb')) \<and> (tip_low tb \<longrightarrow> tip_low tb')"

lemma grows_refl [simp]: "grows s tb tb"
  by (simp add: grows_def)

lemma grows_trans [trans]: "grows s a b \<Longrightarrow> grows s b c \<Longrightarrow> grows s a c"
  unfolding grows_def by (meson subset_trans)

lemma grows_tip [simp]: "grows s tb (upsert_state ChainTip i t tb)"
  by (simp add: grows_def floor_at_most_def tip_low_def floored_def)

text \<open>
  What a batch from \<open>first\<close> to \<open>lastIx\<close> does to the tables, successful (\<open>ok\<close>) or not: nothing
  that was claimed or stored is lost, a floor is not raised, and a successful batch is
  stored, claimed, and connects to the next one.
\<close>

definition batch_effect ::
  "common_lib \<Rightarrow> (nat \<Rightarrow> ext_block) \<Rightarrow> u64 \<Rightarrow> u64 \<Rightarrow> u64 \<Rightarrow> bool \<Rightarrow> tables \<Rightarrow> tables \<Rightarrow> bool" where
  "batch_effect L chain s first lastIx ok tb tb' \<longleftrightarrow>
     sound L chain s tb' \<and> set (tb_blocks tb) \<subseteq> set (tb_blocks tb') \<and>
     (\<forall>k. floor_at_most k tb \<longrightarrow> floor_at_most k tb') \<and>
     (rows_present L chain (unat s) (unat first) tb \<longrightarrow> unat lastIx < 2 ^ 62 \<longrightarrow> grows s tb tb') \<and>
     (ok \<longrightarrow> Index (state_of tb' LastIndexed) = lastIx \<and> floor_at_most first tb' \<and>
        connects (lastIx + 1) tb' \<and> rows_present L chain (unat first) (unat lastIx + 1) tb')"

lemma batch_effect_refl: "sound L chain s tb \<Longrightarrow> batch_effect L chain s first lastIx False tb tb"
  by (simp add: batch_effect_def)

text \<open>What a save does to the floor and to the numbers of the stored blocks, on every outcome.\<close>

lemma saveData_floor:
  assumes "relational_store db tabs" "lowestBlock (d_Blocks data) = Some b" "saveData db data li lt x = (r, x')"
  shows "tb_states (tabs x') BlockFloor = tb_states (tabs x) BlockFloor \<or>
    tb_states (tabs x') BlockFloor = Some (lowered (tb_states (tabs x) BlockFloor) (b_number b) (b_timestamp b))"
  using relational_store.saveData_outcomes [OF assms(1,3)] assms(2) by (auto simp: saved_tables_def)

lemma connects_saved:
  assumes "connects s tb" "s \<le> first" "set (tb_blocks tb) \<subseteq> set (tb_blocks tb')"
    and "tb_states tb' BlockFloor = tb_states tb BlockFloor \<or>
      tb_states tb' BlockFloor = Some (lowered (tb_states tb BlockFloor) first ts)"
  shows "connects s tb'"
  unfolding connects_def
proof (intro allI impI)
  fix fl m assume fl: "tb_states tb' BlockFloor = Some fl" and m: "Index fl \<le> m" "m < s"
  with assms(2) have "\<not> first \<le> m" by auto
  with fl m assms(4) have "tb_states tb BlockFloor = Some fl"
    by (auto simp: lowered_def split: option.splits if_splits)
  from connectsD [OF assms(1) this m] assms(3) show "m \<in> b_number ` set (tb_blocks tb')" by auto
qed

lemma gapless_saved:
  assumes num: "\<And>k. bk_number (chain k) = int k"
    and pre: "gapless s tb" "rows_present L chain (unat s) (unat first) tb"
    and mono: "set (tb_blocks tb) \<subseteq> set (tb_blocks tb')"
    and new: "\<And>b m. b \<in> set (tb_blocks tb') \<Longrightarrow> b \<notin> set (tb_blocks tb) \<Longrightarrow> first \<le> m \<Longrightarrow> m \<le> b_number b \<Longrightarrow>
      m \<in> b_number ` set (tb_blocks tb')"
  shows "gapless s tb'"
proof -
  have "m \<in> b_number ` set (tb_blocks tb')" if "b \<in> set (tb_blocks tb')" "s \<le> m" "m \<le> b_number b" for b m
  proof -
    consider "b \<in> set (tb_blocks tb)" | "b \<notin> set (tb_blocks tb)" "first \<le> m" | "m < first" by fastforce
    then show ?thesis
    proof cases
      case 1
      with that pre(1) have "m \<in> b_number ` set (tb_blocks tb)" unfolding gapless_def by blast
      with mono show ?thesis by auto
    next
      case 2
      with that new show ?thesis by blast
    next
      case 3
      then have "unat s \<le> unat m" "unat m < unat first" using that(2) by (auto simp: word_le_nat_alt word_less_nat_alt)
      with pre(2) mono have "chain_row L (chain (unat m)) \<in> set (tb_blocks tb')" by (auto simp: rows_present_def)
      moreover have "b_number (chain_row L (chain (unat m))) = m"
        using batch_block_number [OF num, of m 0 L] unat_u64_bound [of m] by (simp add: word_eq_unat)
      ultimately show ?thesis by force
    qed
  qed
  then show ?thesis by (auto simp: gapless_def)
qed

text \<open>
  Inserting a batch from \<open>first\<close> on appends the rows above all stored ones; the others are
  there already.
\<close>

lemma inserted_ascending:
  assumes num: "\<And>k. bk_number (chain k) = int k" and rows: "chain_rows L chain tb"
    and gap: "gapless s tb" "s \<le> first" and asc: "sorted_wrt (<) (map b_number (tb_blocks tb))"
    and n: "unat first + n \<le> 18446744073709551616"
  shows "sorted_wrt (<) (map b_number (tb_blocks (fold ins_block (batch_blocks L chain first n) tb)))"
  using n
proof (induction n)
  case 0
  with asc show ?case by (simp add: batch_blocks_def)
next
  case (Suc n)
  let ?tb = "fold ins_block (batch_blocks L chain first n) tb" and ?row = "chain_row L (chain (unat first + n))"
  have row: "unat (b_number ?row) = unat first + n" using batch_block_number [OF num, of first n L] Suc.prems by simp
  have "b_number b < b_number ?row" if b: "b \<in> set (tb_blocks ?tb)" and new: "b_hash ?row \<notin> b_hash ` set (tb_blocks ?tb)" for b
  proof -
    consider "b \<in> set (tb_blocks tb)" | k where "k < n" "b = chain_row L (chain (unat first + k))"
      using b fold_ins_block_origin [of "batch_blocks L chain first n" tb] by (auto simp: batch_blocks_def)
    then show ?thesis
    proof cases
      case 1
      show ?thesis
      proof (rule ccontr)
        assume "\<not> b_number b < b_number ?row"
        moreover have "s \<le> b_number ?row" using gap(2) row by (simp add: word_le_nat_alt)
        ultimately have "b_number ?row \<in> b_number ` set (tb_blocks tb)"
          using gap(1) 1 by (auto simp: gapless_def not_less)
        then obtain c where c: "c \<in> set (tb_blocks tb)" "b_number c = b_number ?row" by auto
        then have "c = ?row" using rows row unfolding chain_rows_def by metis
        with c(1) new fold_ins_block_mono [of tb "batch_blocks L chain first n"] show False by blast
      qed
    next
      case 2
      with batch_block_number [OF num, of first k L] row Suc.prems show ?thesis by (simp add: word_less_nat_alt)
    qed
  qed
  moreover have "fold ins_block (batch_blocks L chain first (Suc n)) tb = ins_block ?row ?tb"
    by (simp add: batch_blocks_def)
  ultimately show ?case using Suc by (simp add: ins_block_def [of ?row ?tb] sorted_wrt_append)
qed

lemma saved_rows:
  assumes db: "relational_store db tabs" and num: "\<And>k. bk_number (chain k) = int k"
    and data: "d_Blocks data = batch_blocks L chain first n" and n: "unat first + n \<le> 18446744073709551616"
    and run: "saveData db data li lt x = (r, x')" and b: "b \<in> set (tb_blocks (tabs x'))"
  shows "b \<in> set (tb_blocks (tabs x)) \<or> unat first \<le> unat (b_number b) \<and> unat (b_number b) < unat first + n"
proof -
  consider "b \<in> set (tb_blocks (tabs x))" | k where "k < n" "b = chain_row L (chain (unat first + k))"
    using b relational_store.saveData_outcomes [OF db run]
      fold_ins_block_origin [of "batch_blocks L chain first n" "tabs x"]
    by (auto simp: saved_tables_def data batch_blocks_def split: option.splits)
  then show ?thesis
    using batch_block_number [OF num, of first _ L] n by cases auto
qed

lemma saved_ordered:
  assumes db: "relational_store db tabs" and num: "\<And>k. bk_number (chain k) = int k"
    and rows: "chain_rows L chain (tabs x)" and gap: "gapless s (tabs x)" "s \<le> first"
    and data: "d_Blocks data = batch_blocks L chain first n" and n: "unat first + n \<le> 4611686018427387904"
    and run: "saveData db data li lt x = (r, x')" and old: "ordered (tabs x)"
  shows "ordered (tabs x')"
proof -
  have n': "unat first + n \<le> 18446744073709551616" using n by simp
  have "unat (b_number b) < 2 ^ 62" if "b \<in> set (tb_blocks (tabs x'))" for b
    using saved_rows [OF db num data n' run that] old n by (auto simp: ordered_def)
  moreover have "tabs x' = tabs x \<or> tb_blocks (tabs x') = tb_blocks (fold ins_block (batch_blocks L chain first n) (tabs x))"
    using relational_store.saveData_outcomes [OF db run] by (auto simp: saved_tables_def data split: option.splits)
  ultimately show ?thesis using old inserted_ascending [OF num rows gap _ n'] by (auto simp: ordered_def)
qed

lemma saved_block_numbers:
  assumes db: "relational_store db tabs" and num: "\<And>k. bk_number (chain k) = int k"
    and rows: "chain_rows L chain (tabs x)" "hash_hex_law L" "hashes_distinct chain"
    and data: "d_Blocks data = batch_blocks L chain first n" and n: "unat first + n \<le> 18446744073709551616"
    and run: "saveData db data li lt x = (r, x')"
    and b: "b \<in> set (tb_blocks (tabs x'))" "b \<notin> set (tb_blocks (tabs x))" and m: "first \<le> m" "m \<le> b_number b"
  shows "m \<in> b_number ` set (tb_blocks (tabs x'))"
proof -
  have new: "tb_blocks (tabs x') = tb_blocks (fold ins_block (batch_blocks L chain first n) (tabs x))"
    using relational_store.saveData_outcomes [OF db run] b
    by (auto simp: saved_tables_def data split: option.splits)
  with b fold_ins_block_origin obtain k where k: "k < n" "b = chain_row L (chain (unat first + k))"
    by (fastforce simp: batch_blocks_def)
  then have "unat (b_number b) = unat first + k" using batch_block_number [OF num, of first k L] n by simp
  then have "unat first \<le> unat m" "unat m < unat first + n" using m k(1) by (auto simp: word_le_nat_alt)
  from batch_block_present [OF rows(1) num rows(2,3) n this] new
  have "chain_row L (chain (unat m)) \<in> set (tb_blocks (tabs x'))" by simp
  moreover have "b_number (chain_row L (chain (unat m))) = m"
    using batch_block_number [OF num, of m 0 L] unat_u64_bound [of m] by (simp add: word_eq_unat)
  ultimately show ?thesis by force
qed

locale indexing = indexer D ci chain logs_at receipt_of tabs
  for D :: "'x deps" and ci :: "'x engine" and chain logs_at receipt_of and tabs :: "'x \<Rightarrow> tables" +
  assumes schedule_law: "fair D"
    and hash_law: "hash_hex_law (lib D)"
    and distinct_law: "hashes_distinct chain"
begin

lemma save_step:
  assumes "sound (lib D) chain s (tabs x)" "connects first (tabs x)" "s \<le> first"
    and data: "d_Blocks data = batch_blocks (lib D) chain first n"
    and n: "0 < n" "unat lastIx + 1 = unat first + n"
    and run: "saveData (e_db ci) data lastIx ts x = (r, x')"
  shows "batch_effect (lib D) chain s first lastIx (r = Inr ()) (tabs x) (tabs x')"
proof -
  have num: "\<forall>k. bk_number (chain k) = int k" using number by blast
  from assms(1) have pre: "covers (tabs x)" "chain_rows (lib D) chain (tabs x)" "connects s (tabs x)"
    by (auto simp: sound_def)
  have n': "unat first + n \<le> 18446744073709551616" using n(2) unat_u64_bound [of lastIx] by linarith
  have low: "lowestBlock (d_Blocks data) = Some (chain_row (lib D) (chain (unat first)))"
    by (simp add: data lowestBlock_batch [OF number n' n(1)])
  have first: "b_number (chain_row (lib D) (chain (unat first))) = first"
    using batch_block_number [OF number, of first 0] unat_u64_bound [of first] by (simp add: word_eq_unat)
  note c = saveData_coverage [OF relational_store_axioms num hash_law distinct_law pre(1,2) assms(2) data n run]
  have mono: "set (tb_blocks (tabs x)) \<subseteq> set (tb_blocks (tabs x'))"
    using saveData_outcomes [OF run] fold_ins_block_mono [of "tabs x" "d_Blocks data"]
    by (auto simp: saved_tables_def split: option.splits)
  note floor' = saveData_floor [OF relational_store_axioms low run, unfolded first]
  have "connects s (tabs x')"
    using connects_saved [OF pre(3) assms(3) mono floor'] .
  moreover note mono
  moreover have gap: "gapless s (tabs x) \<Longrightarrow> gapless s (tabs x')"
    if "rows_present (lib D) chain (unat s) (unat first) (tabs x)"
    by (rule gapless_saved [OF number _ that mono])
       (assumption, rule saved_block_numbers [OF relational_store_axioms number pre(2) hash_law distinct_law data n' run])
  moreover have "gapless s (tabs x) \<Longrightarrow> ordered (tabs x) \<Longrightarrow> ordered (tabs x')" if "unat lastIx < 2 ^ 62"
    using saved_ordered [OF relational_store_axioms number pre(2) _ assms(3) data _ run] n(2) that by simp
  moreover have "\<forall>b \<in> set (tb_blocks (tabs x')). b \<in> set (tb_blocks (tabs x)) \<or> s \<le> b_number b"
    using saved_rows [OF relational_store_axioms number data n' run] assms(3) by (fastforce simp: word_le_nat_alt)
  moreover have "floor_row (tabs x')" if "floor_row (tabs x)"
  proof -
    have "chain_row (lib D) (chain (unat first)) \<in> set (tb_blocks (tabs x'))"
      if "tabs x' = saved_tables data lastIx ts (tabs x)"
      using batch_block_present [OF pre(2) number hash_law distinct_law n', of first] n(1) data low that
      by (simp add: saved_tables_def)
    with saveData_outcomes [OF run] \<open>floor_row (tabs x)\<close> low first mono show ?thesis
      by (fastforce simp: floor_row_def saved_tables_def lowered_def split: option.splits if_splits)
  qed
  moreover have "floored (tabs x')" if "floored (tabs x)"
  proof -
    have "first \<le> lastIx" using n by (simp add: word_le_nat_alt)
    with saveData_outcomes [OF run] that low first order.trans [OF _ this] show ?thesis
      by (auto simp: floored_def saved_tables_def lowered_def not_less split: option.splits)
  qed
  moreover have "tip_low (tabs x) \<Longrightarrow> tip_low (tabs x')" if "unat lastIx < 2 ^ 62"
    using saveData_outcomes [OF run] that low by (auto simp: tip_low_def saved_tables_def split: option.splits)
  moreover have "rows_present (lib D) chain (unat first) (unat first + n) (tabs x')" if "r = Inr ()"
    unfolding rows_present_def
  proof (intro allI impI)
    fix m assume m: "unat first \<le> m" "m < unat first + n"
    then have "m < 18446744073709551616" using n(2) unat_u64_bound [of lastIx] by linarith
    then have u: "unat (of_nat m :: u64) = m" by (simp add: unat_of_nat)
    then have "first \<le> of_nat m" "of_nat m \<le> lastIx" using m n(2) by (auto simp: word_le_nat_alt)
    with c that have "chain_row (lib D) (chain (unat (of_nat m :: u64))) \<in> set (tb_blocks (tabs x'))" by blast
    then show "chain_row (lib D) (chain m) \<in> set (tb_blocks (tabs x'))" by (simp add: u)
  qed
  moreover have "\<forall>k. floor_at_most k (tabs x) \<longrightarrow> floor_at_most k (tabs x')"
    using saveData_outcomes [OF run]
    by (auto simp: floor_at_most_def saved_tables_def lowered_def split: option.splits)
  moreover have "floor_at_most first (tabs x')" if "r = Inr ()"
    using saveData_Inr [OF run [unfolded that]] low first
    by (auto simp: floor_at_most_def saved_tables_def lowered_def split: option.splits)
  ultimately show ?thesis using c n(2) by (simp add: sound_def batch_effect_def grows_def)
qed

lemma obtainLogsBatch_keeps: "keeps (\<lambda>x. tabs x = v) (obtainLogsBatch D ci f l)"
  unfolding obtainLogsBatch_def requestLogs_def
  by (intro keeps_foldE keepsI) (simp add: requestLogs_view)

lemma blocksStream_keeps: "keeps (\<lambda>x. tabs x = v) (blocksStream D ci f l)"
  unfolding blocksStream_def processTransactionsBatch_def
  by (intro keeps_bind obtainBlocksBatch_keeps fetchReceipts_keeps triple_ret)

lemma bothStreams_keeps: "keeps (\<lambda>x. tabs x = v) (bothStreams D ci f l)"
  unfolding bothStreams_def
  by (intro triple_if keeps_bind obtainLogsBatch_keeps blocksStream_keeps triple_ret)

lemma bothStreams_chain:
  assumes "bothStreams D ci f l x = (Inr ((bs, tb), lgs), x')" and "f \<le> l" "unat l < 18446744073709551615"
  shows "chain_batch chain f (Suc (unat l) - unat f) bs"
proof -
  from assms(1) obtain x0 x1 where "blocksStream D ci f l x0 = (Inr (bs, tb), x1)"
    by (auto simp: bothStreams_def bindE_Inr_iff split: if_splits)
  then obtain x2 where "obtainBlocksBatch D ci f l x0 = (Inr bs, x2)"
    by (auto simp: blocksStream_def bindE_Inr_iff)
  from obtainBlocksBatch_chain [OF this schedule_law assms(2,3)] show ?thesis .
qed

text \<open>Everything before \<open>saveData\<close> leaves the tables alone and keeps the blocks of the batch.\<close>

lemma processTransactions_blocks:
  "processTransactions L tb data t = (Inr data', t') \<Longrightarrow> d_Blocks data' = d_Blocks data"
  unfolding processTransactions_def by (drule processTransactions_prefix) simp

lemma save_stage_cases:
  assumes bs: "chain_batch chain first n bs"
    and run: "bindE (liftR (convertBlocksToDB (lib D) bs)) (\<lambda>dbBlocks.
     bindE (wrapE a (liftT (processTransactions (lib D) tb (newDatabaseStructData\<lparr>d_Blocks := dbBlocks\<rparr>)))) (\<lambda>data.
     bindE (wrapE b (liftR (processLogs (lib D) lgs bs first data))) (\<lambda>data.
       wrapE c (liftX (saveData (e_db ci) data lastIx ts))))) w = (r, w')"
  shows "tabs (ext w') = tabs (ext w) \<and> r \<noteq> Inr () \<or>
    (\<exists>x data ts r2 x'. tabs x = tabs (ext w) \<and> d_Blocks data = batch_blocks (lib D) chain first n \<and>
       saveData (e_db ci) data lastIx ts x = (r2, x') \<and> tabs x' = tabs (ext w') \<and> (r2 = Inr () \<longleftrightarrow> r = Inr ()))"
proof -
  note conv = chain_batch_rows [OF bs, of "lib D"]
  let ?data0 = "newDatabaseStructData\<lparr>d_Blocks := batch_blocks (lib D) chain first n\<rparr>"
  obtain r1 t1 where tx: "processTransactions (lib D) tb ?data0 (TransactionId w) = (r1, t1)" by force
  let ?w1 = "w\<lparr>TransactionId := t1\<rparr>"
  show ?thesis
  proof (cases "\<exists>d1 d2. r1 = Inr d1 \<and> processLogs (lib D) lgs bs first d1 = Inr d2")
    case False
    with run have "tabs (ext w') = tabs (ext w) \<and> r \<noteq> Inr ()"
      by (cases r1) (auto simp: conv tx bindE_def wrapE_def liftT_def split: sum.splits)
    then show ?thesis by simp
  next
    case True
    then obtain d1 d2 where d: "r1 = Inr d1" "processLogs (lib D) lgs bs first d1 = Inr d2" by blast
    with run have "wrapE c (liftX (saveData (e_db ci) d2 lastIx ts)) ?w1 = (r, w')"
      by (simp add: conv tx bindE_def wrapE_def liftT_def)
    then obtain r2 x' where s: "saveData (e_db ci) d2 lastIx ts (ext w) = (r2, x')"
      and r: "r = wrapR c r2" "w' = ?w1\<lparr>ext := x'\<rparr>"
      by (auto simp: wrapE_def liftX_def split: prod.splits)
    have "d_Blocks d2 = batch_blocks (lib D) chain first n"
      using processTransactions_blocks [OF tx [unfolded d(1)]] processLogs_Inr [OF d(2)] by simp
    moreover have "r2 = Inr () \<longleftrightarrow> r = Inr ()" using r(1) by (cases r2) auto
    moreover have "tabs x' = tabs (ext w')" using r(2) by simp
    ultimately show ?thesis using s by blast
  qed
qed

lemma saved_cases_effect:
  assumes st: "sound (lib D) chain s tb" "connects first tb" "s \<le> first" "0 < n" "unat lastIx + 1 = unat first + n"
    and "tb' = tb \<and> r \<noteq> Inr () \<or>
    (\<exists>x data ts r2 x'. tabs x = tb \<and> d_Blocks data = batch_blocks (lib D) chain first n \<and>
       saveData (e_db ci) data lastIx ts x = (r2, x') \<and> tabs x' = tb' \<and> (r2 = Inr () \<longleftrightarrow> r = Inr ()))"
  shows "batch_effect (lib D) chain s first lastIx (r = Inr ()) tb tb'"
  using assms(6)
proof (elim disjE exE conjE)
  fix x data ts r2 x'
  assume x: "tabs x = tb" and data: "d_Blocks data = batch_blocks (lib D) chain first n"
    and save: "saveData (e_db ci) data lastIx ts x = (r2, x')" and x': "tabs x' = tb'" "r2 = Inr () \<longleftrightarrow> r = Inr ()"
  from save_step [OF _ _ st(3) data st(4,5) save] st(1,2) x x' show ?thesis by simp
qed (simp add: batch_effect_refl [OF st(1)])

lemma save_stage:
  assumes "sound (lib D) chain s (tabs (ext w))" "connects first (tabs (ext w))" "s \<le> first"
    and bs: "chain_batch chain first n bs"
    and n: "0 < n" "unat lastIx + 1 = unat first + n"
    and run: "bindE (liftR (convertBlocksToDB (lib D) bs)) (\<lambda>dbBlocks.
     bindE (wrapE a (liftT (processTransactions (lib D) tb (newDatabaseStructData\<lparr>d_Blocks := dbBlocks\<rparr>)))) (\<lambda>data.
     bindE (wrapE b (liftR (processLogs (lib D) lgs bs first data))) (\<lambda>data.
       wrapE c (liftX (saveData (e_db ci) data lastIx ts))))) w = (r, w')"
  shows "batch_effect (lib D) chain s first lastIx (r = Inr ()) (tabs (ext w)) (tabs (ext w'))"
  by (rule saved_cases_effect [OF assms(1-3) n save_stage_cases [OF bs run]])

end

interpretation mem_indexing:
  indexing "mem_deps k n" "mem_engine p ts time txs logs receipt_of" "make_chain time txs"
    "make_logs logs" receipt_of m_tabs
  by unfold_locales (simp_all add: mem_deps_fair plain_hash_law make_chain_distinct)

subsection \<open>Indexing the history\<close>

context indexing
begin

lemma fetchLastBlockIndex_keeps: "keeps (\<lambda>x. tabs x = v) (fetchLastBlockIndex D ci)"
  unfolding fetchLastBlockIndex_def Let_def
  by (intro keeps_bind keeps_wrap fetchBlockHeader_keeps triple_liftR triple_if triple_throw triple_ret
      | simp add: case_prod_beta)+

text \<open>The confirmed tip: below the head by the confirmations, with the time of its block.\<close>

lemma fetchLastBlockIndex_Inr:
  assumes "fetchLastBlockIndex D ci x = (Inr (n, t), x')"
  shows "unat n + unat (Confirmations (params ci)) < 2 ^ 62 \<and> t = bk_time (chain (unat n))"
proof -
  from assms obtain h x1 k where h: "fetchBlockHeader D ci None x = (Inr h, x1)"
    and k: "Header_Number h = Some k" "\<not> (word_of_int k :: u64) < Confirmations (params ci)"
    and n: "n = word_of_int k - Confirmations (params ci)"
    and t: "\<exists>h'. fetchBlockHeader D ci (Some n) x1 = (Inr h', x') \<and> t = Header_Time h'"
    by (auto simp: fetchLastBlockIndex_def Let_def bindE_Inr_iff wrapE_Inr_iff big_Uint64_def
        split: option.splits if_splits)
  obtain x2 x3 where "HeaderByNumber (e_client ci) None x2 = (Inr h, x3)"
    using rh.retried_read(2) [OF client_keeps_view(2) h [unfolded fetchBlockHeader_def]] by auto
  from HeaderByNumber_head [OF this] k(1) have "0 \<le> k" "k < 2 ^ 62" by auto
  then have "unat (word_of_int k :: u64) < 2 ^ 62"
    by (simp add: unat_word_of_int_exact nat_less_iff)
  moreover have "unat n + unat (Confirmations (params ci)) = unat (word_of_int k :: u64)"
    using k(2) by (simp add: n not_less unat_minus_exact word_le_nat_alt)
  ultimately show ?thesis using t fetchBlockHeader_chain by auto
qed

text \<open>The three range functions read the confirmed tip and record it as \<open>ChainTip\<close>.\<close>

lemma record_tip:
  assumes "bindE (wrapE a (fetchLastBlockIndex D ci)) (\<lambda>(n, t).
      bindE (wrapE b (UpdateState (e_db ci) ChainTip n t)) (\<lambda>_. ret (g n))) x = (r, x')"
  shows "tabs x' = tabs x \<or> (\<exists>i t. tabs x' = upsert_state ChainTip i t (tabs x))"
    and "r = Inr y \<Longrightarrow> \<exists>n. y = g n \<and> unat n < 2 ^ 62"
    and "r \<noteq> Inl OutOfFuel"
proof -
  obtain r1 x1 where f: "fetchLastBlockIndex D ci x = (r1, x1)" by force
  have t1: "tabs x1 = tabs x" using keepsD [OF fetchLastBlockIndex_keeps f] by blast
  show "tabs x' = tabs x \<or> (\<exists>i t. tabs x' = upsert_state ChainTip i t (tabs x))"
  proof (cases r1)
    case (Inl e)
    with assms f t1 show ?thesis by (auto simp: bindE_def wrapE_def)
  next
    case (Inr nt)
    obtain n t where nt: "nt = (n, t)" by force
    obtain r2 x2 where u: "UpdateState (e_db ci) ChainTip n t x1 = (r2, x2)" by force
    have "x' = x2" using assms f Inr nt u by (cases r2) (auto simp: bindE_def wrapE_def)
    then show ?thesis using writesD [OF UpdateState_writes u] t1 by auto
  qed
  show "r = Inr y \<Longrightarrow> \<exists>n. y = g n \<and> unat n < 2 ^ 62"
    using assms by (auto simp: bindE_Inr_iff wrapE_Inr_iff dest!: fetchLastBlockIndex_Inr)
  show "r \<noteq> Inl OutOfFuel"
    using assms by (auto simp: bindE_Inl_iff case_prod_beta)
qed

lemma getIndexRange_Inr:
  assumes "getIndexRange D ci s x = (Inr rg, x')"
  shows "r_start rg = s \<and> unat (r_end rg) < 2 ^ 62 \<and> r_end rg \<le> StopIndex (params ci)"
  using record_tip(2) [OF assms [unfolded getIndexRange_def] refl]
  by (auto simp: min_def word_le_nat_alt)

lemma updateLastIndexHistory_Inr:
  assumes "updateLastIndexHistory D ci rg x = (Inr rg', x')"
    and "unat (r_end rg) < 2 ^ 62" "r_end rg \<le> StopIndex (params ci)"
  shows "r_end rg \<le> r_end rg' \<and> unat (r_end rg') < 2 ^ 62 \<and> r_end rg' \<le> StopIndex (params ci)"
  using record_tip(2) [OF assms(1) [unfolded updateLastIndexHistory_def] refl] assms(2,3)
  by (auto simp: min_def word_le_nat_alt word_less_nat_alt)

end

context indexing
begin

lemma record_tip_sound:
  assumes "bindE (wrapE a (fetchLastBlockIndex D ci)) (\<lambda>(n, t).
      bindE (wrapE b (UpdateState (e_db ci) ChainTip n t)) (\<lambda>_. ret (g n))) x = (r, x')"
  shows "(sound L chain s (tabs x') \<longleftrightarrow> sound L chain s (tabs x)) \<and>
    (connects i (tabs x') \<longleftrightarrow> connects i (tabs x)) \<and> tb_blocks (tabs x') = tb_blocks (tabs x) \<and>
    state_of (tabs x') LastIndexed = state_of (tabs x) LastIndexed \<and>
    state_of (tabs x') BlockFloor = state_of (tabs x) BlockFloor"
  using record_tip(1) [OF assms] by (auto simp: state_of_def)

text \<open>The last block of a batch, where \<open>i\<close> is its first: no sum wraps around.\<close>

lemma batch_last:
  assumes "0 < BatchSize (params ci)" "unat (BatchSize (params ci)) \<le> 2 ^ 62" "unat e < 2 ^ 62" "i \<le> e"
  defines "l \<equiv> min (i + BatchSize (params ci) - 1) e"
  shows "i \<le> l" "l \<le> e" "unat l + 1 = min (unat i + unat (BatchSize (params ci))) (unat e + 1)"
    and "unat (i + BatchSize (params ci)) = unat i + unat (BatchSize (params ci))"
    and "unat (min (BatchSize (params ci) - 1) (e - i)) = unat l - unat i"
proof -
  let ?B = "BatchSize (params ci)"
  have B: "0 < unat ?B" using assms(1) by (simp add: word_less_nat_alt)
  have i: "unat i \<le> unat e" using assms(4) by (simp add: word_le_nat_alt)
  show s: "unat (i + ?B) = unat i + unat ?B" using assms(2,3) i by (intro unat_plus_exact) simp
  then have p: "unat (i + ?B - 1) = unat i + unat ?B - 1"
    using B by (subst unat_minus_exact) (auto simp: word_le_nat_alt)
  show l: "unat l + 1 = min (unat i + unat ?B) (unat e + 1)"
    using p B by (auto simp: l_def min_def word_le_nat_alt)
  show "i \<le> l" "l \<le> e" using l B i by (auto simp: word_le_nat_alt)
  have "unat (?B - 1) = unat ?B - 1" using B by (subst unat_minus_exact) (auto simp: word_le_nat_alt)
  moreover have "unat (e - i) = unat e - unat i" using assms(4) by (simp add: unat_minus_exact)
  ultimately show "unat (min (?B - 1) (e - i)) = unat l - unat i"
    using l B i unfolding min_def word_le_nat_alt by (simp split: if_splits; arith)
qed

text \<open>A batch either leaves the tables alone and fails, or saves the blocks of the chain.\<close>

lemma indexBatch_cases:
  assumes B: "0 < BatchSize (params ci)" "unat (BatchSize (params ci)) \<le> 2 ^ 62"
    and rg: "unat (r_end rg) < 2 ^ 62" "i \<le> r_end rg"
    and run: "indexBatch D ci i rg w = (r, w')"
  defines "l \<equiv> min (i + BatchSize (params ci) - 1) (r_end rg)"
  shows "tabs (ext w') = tabs (ext w) \<and> r \<noteq> Inr () \<or>
    (\<exists>x data ts r2 x'. tabs x = tabs (ext w) \<and> d_Blocks data = batch_blocks (lib D) chain i (Suc (unat l) - unat i) \<and>
       saveData (e_db ci) data l ts x = (r2, x') \<and> tabs x' = tabs (ext w') \<and> (r2 = Inr () \<longleftrightarrow> r = Inr ()))"
proof -
  note last = batch_last [OF B rg, folded l_def]
  have l62: "unat l < 18446744073709551615" using last(2) rg(1) by (simp add: word_le_nat_alt)
  obtain r1 x1 where b: "bothStreams D ci i l (ext w) = (r1, x1)" by force
  have t1: "tabs x1 = tabs (ext w)" using keepsD [OF bothStreams_keeps b] by blast
  show ?thesis
  proof (cases r1)
    case (Inl e)
    with run b have "r = Inl e" "w' = w\<lparr>ext := x1\<rparr>"
      by (auto simp: indexBatch_def Let_def l_def [symmetric] bindE_def liftX_def)
    with t1 show ?thesis by simp
  next
    case (Inr y)
    obtain bs tb lgs where y: "y = ((bs, tb), lgs)" by (metis prod.exhaust)
    have cb: "chain_batch chain i (Suc (unat l) - unat i) bs"
      by (rule bothStreams_chain [OF b [unfolded Inr y] last(1) l62])
    then have len: "\<not> length bs \<le> unat (min (BatchSize (params ci) - 1) (r_end rg - i))"
      using last(1,5) by (auto simp: chain_batch_def word_le_nat_alt)
    let ?ts = "Block_Time (bs ! unat (min (BatchSize (params ci) - 1) (r_end rg - i)))"
    from run b len have "processAndSave D ci bs tb lgs i l ?ts (w\<lparr>ext := x1\<rparr>) = (r, w')"
      by (simp add: indexBatch_def Let_def l_def [symmetric] bindE_def liftX_def Inr y)
    from save_stage_cases [OF cb this [unfolded processAndSave_def]] t1 show ?thesis by simp
  qed
qed

lemma indexBatch_step:
  assumes B: "0 < BatchSize (params ci)" "unat (BatchSize (params ci)) \<le> 2 ^ 62"
    and rg: "unat (r_end rg) < 2 ^ 62" "i \<le> r_end rg"
    and st: "sound (lib D) chain s (tabs (ext w))" "connects i (tabs (ext w))" "s \<le> i"
    and run: "indexBatch D ci i rg w = (r, w')"
  defines "l \<equiv> min (i + BatchSize (params ci) - 1) (r_end rg)"
  shows "batch_effect (lib D) chain s i l (r = Inr ()) (tabs (ext w)) (tabs (ext w'))"
proof -
  have "unat i \<le> unat l" using batch_last(1) [OF B rg] by (simp add: l_def word_le_nat_alt)
  then show ?thesis
    using saved_cases_effect [OF st _ _ indexBatch_cases [OF B rg run, folded l_def]] by simp
qed

end

end
