(* ===== verification/Contract_Registry.thy ===== *)
theory Contract_Registry
  imports Chain_Client
begin

text \<open>
  The read-only binding of the registry contract,
  \<^verbatim>\<open>internal/contracts/contractregistry/autogen.go\<close>: the caller, its getters and the session of a
  caller. The package \<^verbatim>\<open>bind\<close> of go-ethereum, which packs a call, sends it through the client and unpacks what
  comes back, is a parameter; so is its conversion of values of the type \<^verbatim>\<open>interface{}\<close>. Left out are
  the bindings that write to the contract or filter its events: no code uses them.
\<close>

subsection \<open>Dynamic values\<close>

text \<open>The types of the ABI in Go, and the values of \<^verbatim>\<open>interface{}\<close> that have them.\<close>

datatype abi_type = StringT | AddressT | Bytes32T | SliceT abi_type

datatype abi_value =
    StringV string
  | AddressV address
  | Bytes32V hash
  | StringsV "string list"
  | AddressesV "address list"
  | Bytes32sV "hash list"

fun abi_type_of :: "abi_value \<Rightarrow> abi_type" where
  "abi_type_of (StringV _) = StringT"
| "abi_type_of (AddressV _) = AddressT"
| "abi_type_of (Bytes32V _) = Bytes32T"
| "abi_type_of (StringsV _) = SliceT StringT"
| "abi_type_of (AddressesV _) = SliceT AddressT"
| "abi_type_of (Bytes32sV _) = SliceT Bytes32T"

text \<open>The indexing of a slice and the type assertions panic.\<close>

definition out_at :: "abi_value list \<Rightarrow> nat \<Rightarrow> go_error + abi_value" where
  "out_at out i = (if i < length out then Inr (out ! i) else Inl (Panic ''index out of range''))"

definition as_Address :: "abi_value \<Rightarrow> go_error + address" where
  "as_Address v = (case v of AddressV a \<Rightarrow> Inr a | _ \<Rightarrow> Inl (Panic ''interface conversion''))"

definition as_Addresses :: "abi_value \<Rightarrow> go_error + address list" where
  "as_Addresses v = (case v of AddressesV as \<Rightarrow> Inr as | _ \<Rightarrow> Inl (Panic ''interface conversion''))"

definition as_Strings :: "abi_value \<Rightarrow> go_error + string list" where
  "as_Strings v = (case v of StringsV ss \<Rightarrow> Inr ss | _ \<Rightarrow> Inl (Panic ''interface conversion''))"

subsection \<open>The packages \<^verbatim>\<open>abi\<close> and \<^verbatim>\<open>bind\<close>\<close>

text \<open>The methods of a parsed ABI, with the types of their inputs and outputs.\<close>

type_synonym parsed_abi = "string \<Rightarrow> (abi_type list \<times> abi_type list) option"

record call_opts =
  co_Pending :: bool
  co_From :: address
  co_BlockNumber :: "int option"

definition plain_opts :: call_opts where
  "plain_opts = \<lparr>co_Pending = False, co_From = 0, co_BlockNumber = None\<rparr>"

type_synonym 'x bound_contract = "call_opts \<Rightarrow> string \<Rightarrow> abi_value list \<Rightarrow> ('x, abi_value list) io"

text \<open>
  \<open>GetAbi\<close> parses the ABI of the metadata; a bound contract is known by its method \<^verbatim>\<open>Call\<close>.
\<close>

record 'x bind_package =
  GetAbi :: "go_error + parsed_abi"
  NewBoundContract :: "address \<Rightarrow> parsed_abi \<Rightarrow> 'x client \<Rightarrow> 'x bound_contract"
  ConvertType :: "abi_value \<Rightarrow> abi_type \<Rightarrow> go_error + abi_value"

text \<open>The methods in \<^verbatim>\<open>ContractRegistryMetaData\<close>.\<close>

definition ContractRegistryABI :: parsed_abi where
  "ContractRegistryABI =
     (\<lambda>_. None)
       (''getAddressUpdater'' \<mapsto> ([], [AddressT]),
        ''getAllContracts'' \<mapsto> ([], [SliceT StringT, SliceT AddressT]),
        ''getContractAddressByHash'' \<mapsto> ([Bytes32T], [AddressT]),
        ''getContractAddressByName'' \<mapsto> ([StringT], [AddressT]),
        ''getContractAddressesByHash'' \<mapsto> ([SliceT Bytes32T], [SliceT AddressT]),
        ''getContractAddressesByName'' \<mapsto> ([SliceT StringT], [SliceT AddressT]),
        ''updateContractAddresses'' \<mapsto> ([SliceT Bytes32T, SliceT AddressT], []))"

subsection \<open>The caller\<close>

record 'x ContractRegistryCaller =
  crc_contract :: "'x bound_contract"

definition bindContractRegistry :: "'x bind_package \<Rightarrow> address \<Rightarrow> 'x client \<Rightarrow> go_error + 'x bound_contract" where
  "bindContractRegistry B address caller = bindR (GetAbi B) (\<lambda>parsed. Inr (NewBoundContract B address parsed caller))"

definition NewContractRegistryCaller :: "'x bind_package \<Rightarrow> address \<Rightarrow> 'x client \<Rightarrow> go_error + 'x ContractRegistryCaller" where
  "NewContractRegistryCaller B address caller =
     bindR (bindContractRegistry B address caller) (\<lambda>contract. Inr \<lparr>crc_contract = contract\<rparr>)"

text \<open>An output of a call, converted and asserted to have a type.\<close>

definition out_value ::
  "'x bind_package \<Rightarrow> (abi_value \<Rightarrow> go_error + 'a) \<Rightarrow> abi_type \<Rightarrow> abi_value list \<Rightarrow> nat \<Rightarrow> go_error + 'a" where
  "out_value B as t out i = bindR (out_at out i) (\<lambda>v. bindR (ConvertType B v t) as)"

definition GetAddressUpdater :: "'x bind_package \<Rightarrow> 'x ContractRegistryCaller \<Rightarrow> call_opts \<Rightarrow> ('x, address) io" where
  "GetAddressUpdater B c opts =
     bindE (crc_contract c opts ''getAddressUpdater'' []) (\<lambda>out. liftR (out_value B as_Address AddressT out 0))"

definition GetAllContracts :: "'x bind_package \<Rightarrow> 'x ContractRegistryCaller \<Rightarrow> call_opts \<Rightarrow> ('x, string list \<times> address list) io" where
  "GetAllContracts B c opts =
     bindE (crc_contract c opts ''getAllContracts'' []) (\<lambda>out.
       liftR (bindR (out_value B as_Strings (SliceT StringT) out 0) (\<lambda>out0.
              bindR (out_value B as_Addresses (SliceT AddressT) out 1) (\<lambda>out1. Inr (out0, out1)))))"

definition GetContractAddressByHash :: "'x bind_package \<Rightarrow> 'x ContractRegistryCaller \<Rightarrow> call_opts \<Rightarrow> hash \<Rightarrow> ('x, address) io" where
  "GetContractAddressByHash B c opts nameHash =
     bindE (crc_contract c opts ''getContractAddressByHash'' [Bytes32V nameHash]) (\<lambda>out. liftR (out_value B as_Address AddressT out 0))"

definition GetContractAddressByName :: "'x bind_package \<Rightarrow> 'x ContractRegistryCaller \<Rightarrow> call_opts \<Rightarrow> string \<Rightarrow> ('x, address) io" where
  "GetContractAddressByName B c opts name =
     bindE (crc_contract c opts ''getContractAddressByName'' [StringV name]) (\<lambda>out. liftR (out_value B as_Address AddressT out 0))"

definition GetContractAddressesByHash ::
  "'x bind_package \<Rightarrow> 'x ContractRegistryCaller \<Rightarrow> call_opts \<Rightarrow> hash list \<Rightarrow> ('x, address list) io" where
  "GetContractAddressesByHash B c opts nameHashes =
     bindE (crc_contract c opts ''getContractAddressesByHash'' [Bytes32sV nameHashes]) (\<lambda>out.
       liftR (out_value B as_Addresses (SliceT AddressT) out 0))"

definition GetContractAddressesByName ::
  "'x bind_package \<Rightarrow> 'x ContractRegistryCaller \<Rightarrow> call_opts \<Rightarrow> string list \<Rightarrow> ('x, address list) io" where
  "GetContractAddressesByName B c opts names =
     bindE (crc_contract c opts ''getContractAddressesByName'' [StringsV names]) (\<lambda>out.
       liftR (out_value B as_Addresses (SliceT AddressT) out 0))"

subsection \<open>The session of a caller\<close>

record 'x ContractRegistryCallerSession =
  crs_Contract :: "'x ContractRegistryCaller"
  crs_CallOpts :: call_opts

definition Session_GetAddressUpdater :: "'x bind_package \<Rightarrow> 'x ContractRegistryCallerSession \<Rightarrow> ('x, address) io" where
  "Session_GetAddressUpdater B s = GetAddressUpdater B (crs_Contract s) (crs_CallOpts s)"

definition Session_GetAllContracts :: "'x bind_package \<Rightarrow> 'x ContractRegistryCallerSession \<Rightarrow> ('x, string list \<times> address list) io" where
  "Session_GetAllContracts B s = GetAllContracts B (crs_Contract s) (crs_CallOpts s)"

definition Session_GetContractAddressByHash :: "'x bind_package \<Rightarrow> 'x ContractRegistryCallerSession \<Rightarrow> hash \<Rightarrow> ('x, address) io" where
  "Session_GetContractAddressByHash B s = GetContractAddressByHash B (crs_Contract s) (crs_CallOpts s)"

definition Session_GetContractAddressByName :: "'x bind_package \<Rightarrow> 'x ContractRegistryCallerSession \<Rightarrow> string \<Rightarrow> ('x, address) io" where
  "Session_GetContractAddressByName B s = GetContractAddressByName B (crs_Contract s) (crs_CallOpts s)"

definition Session_GetContractAddressesByHash ::
  "'x bind_package \<Rightarrow> 'x ContractRegistryCallerSession \<Rightarrow> hash list \<Rightarrow> ('x, address list) io" where
  "Session_GetContractAddressesByHash B s = GetContractAddressesByHash B (crs_Contract s) (crs_CallOpts s)"

definition Session_GetContractAddressesByName ::
  "'x bind_package \<Rightarrow> 'x ContractRegistryCallerSession \<Rightarrow> string list \<Rightarrow> ('x, address list) io" where
  "Session_GetContractAddressesByName B s = GetContractAddressesByName B (crs_Contract s) (crs_CallOpts s)"

subsection \<open>The getters fit the ABI\<close>

text \<open>
  What is relied on of the packages: a call of a method of the ABI that succeeds returns values of the method's
  output types, and the conversion of a value to its own type returns it.
\<close>

locale abi_calls =
  fixes B :: "'x bind_package"
  assumes parsed_law: "GetAbi B = Inr parsed \<Longrightarrow> parsed = ContractRegistryABI"
    and call_law: "NewBoundContract B a parsed caller opts m args x = (Inr out, x') \<Longrightarrow> parsed m = Some (ins, outs) \<Longrightarrow>
      map abi_type_of args = ins \<Longrightarrow> map abi_type_of out = outs"
    and convert_law: "ConvertType B v (abi_type_of v) = Inr v"
begin

lemma contract_bound:
  "NewContractRegistryCaller B a caller = Inr c \<Longrightarrow> c = \<lparr>crc_contract = NewBoundContract B a ContractRegistryABI caller\<rparr>"
  using parsed_law by (auto simp: NewContractRegistryCaller_def bindContractRegistry_def bindR_Inr_iff)

text \<open>What the calls return has the types that the getters assert.\<close>

lemma typed_value:
  "abi_type_of v = AddressT \<longleftrightarrow> (\<exists>a. v = AddressV a)" "abi_type_of v = SliceT AddressT \<longleftrightarrow> (\<exists>as. v = AddressesV as)"
  "abi_type_of v = SliceT StringT \<longleftrightarrow> (\<exists>ss. v = StringsV ss)"
  by (cases v; simp)+

lemma outputs:
  "map abi_type_of out = [AddressT] \<Longrightarrow> \<exists>a. out = [AddressV a] \<and> out_value B as_Address AddressT out 0 = Inr a"
  "map abi_type_of out = [SliceT AddressT] \<Longrightarrow> \<exists>as. out = [AddressesV as] \<and> out_value B as_Addresses (SliceT AddressT) out 0 = Inr as"
  "map abi_type_of out = [SliceT StringT, SliceT AddressT] \<Longrightarrow>
    \<exists>ns as. out = [StringsV ns, AddressesV as] \<and> out_value B as_Strings (SliceT StringT) out 0 = Inr ns \<and>
      out_value B as_Addresses (SliceT AddressT) out 1 = Inr as"
  using convert_law [of "AddressV a" for a] convert_law [of "AddressesV as" for as] convert_law [of "StringsV ss" for ss]
  by (auto simp: Cons_eq_map_conv typed_value out_value_def out_at_def as_Address_def as_Addresses_def as_Strings_def
      map_eq_Cons_conv)

text \<open>A getter fails only as its call fails; it never panics on what a call returned.\<close>

lemma getter_runs:
  assumes "bindE (NewBoundContract B a ContractRegistryABI caller opts m args) (\<lambda>out. liftR (out_value B as_Address AddressT out 0)) x = (r, x')"
    and "ContractRegistryABI m = Some (map abi_type_of args, [AddressT])"
  shows "(\<exists>e. NewBoundContract B a ContractRegistryABI caller opts m args x = (Inl e, x') \<and> r = Inl e) \<or>
    (\<exists>v. NewBoundContract B a ContractRegistryABI caller opts m args x = (Inr [AddressV v], x') \<and> r = Inr v)"
proof -
  obtain q y where q: "NewBoundContract B a ContractRegistryABI caller opts m args x = (q, y)" by force
  show ?thesis
  proof (cases q)
    case (Inr out)
    with outputs(1) [OF call_law [OF q [unfolded Inr] assms(2) refl]] q assms(1) show ?thesis by (auto simp: bindE_def)
  qed (use q assms(1) in \<open>auto simp: bindE_def\<close>)
qed

lemma by_name_runs:
  assumes "NewContractRegistryCaller B a caller = Inr c" "GetContractAddressByName B c opts n x = (r, x')"
  defines "call \<equiv> NewBoundContract B a ContractRegistryABI caller opts ''getContractAddressByName'' [StringV n]"
  shows "(\<exists>e. call x = (Inl e, x') \<and> r = Inl e) \<or> (\<exists>v. call x = (Inr [AddressV v], x') \<and> r = Inr v)"
  unfolding call_def
  by (rule getter_runs)
    (use assms(2) in \<open>simp_all add: contract_bound [OF assms(1)] GetContractAddressByName_def ContractRegistryABI_def\<close>)

end

end
