(* ===== verification/Contracts.thy ===== *)
theory Contracts
  imports Indexing Contract_Registry
begin

text \<open>
  Contract names, \<^verbatim>\<open>internal/contracts/resolver.go\<close>, \<^verbatim>\<open>internal/contracts/upgrades.go\<close> and
  \<^verbatim>\<open>internal/config/address_resolution.go\<close>. The cache of the resolver is the field \<open>cache\<close> of
  the process state; \<open>registry\<close> is its other part, the caller of the registry contract with the method that it
  uses, which \<open>NewContractResolver\<close> makes from the binding of \<open>Contract_Registry\<close>. The lock of the cache is left out: no other goroutine runs while names are
  resolved at startup.
\<close>

type_synonym 'x registry = "string \<Rightarrow> ('x, address) io"

definition contractRegistryAddress :: "common_lib \<Rightarrow> address" where
  "contractRegistryAddress L = HexToAddress L ''0xaD67FE66660Fb8dFE9d6b1b4240d8650e30F6019''"

definition NewContractResolver :: "common_lib \<Rightarrow> 'x bind_package \<Rightarrow> 'x client \<Rightarrow> ('x world, 'x registry) io" where
  "NewContractResolver L B rpcClient =
     bindE (wrapE ''initialize contract registry caller''
              (liftR (NewContractRegistryCaller B (contractRegistryAddress L) rpcClient))) (\<lambda>registry.
       \<lambda>w. (Inr (GetContractAddressByName B registry plain_opts), w\<lparr>cache := (\<lambda>_. None)\<rparr>))"

text \<open>
  The registry of a new resolver asks the contract at the registry's address for the name, and
  returns its answer or its error, nothing else.
\<close>

lemma new_resolver_asks_contract:
  assumes "abi_calls B" and "NewContractResolver L B client w = (Inr registry, w')" and "registry name x = (r, x')"
  defines "call \<equiv> NewBoundContract B (contractRegistryAddress L) ContractRegistryABI client plain_opts
    ''getContractAddressByName'' [StringV name]"
  shows "cache w' = (\<lambda>_. None) \<and>
    ((\<exists>e. call x = (Inl e, x') \<and> r = Inl e) \<or> (\<exists>a. call x = (Inr [AddressV a], x') \<and> r = Inr a))"
proof -
  from assms(2) obtain c where c: "NewContractRegistryCaller B (contractRegistryAddress L) client = Inr c"
    and reg: "registry = GetContractAddressByName B c plain_opts" and w': "cache w' = (\<lambda>_. None)"
    by (auto simp: NewContractResolver_def bindE_def wrapE_def split: sum.splits)
  from abi_calls.by_name_runs [OF assms(1) c] assms(3) w' show ?thesis unfolding reg call_def by blast
qed

definition ResolveByName :: "'x registry \<Rightarrow> string \<Rightarrow> ('x world, address) io" where
  "ResolveByName registry contractName =
     (let name = TrimSpace contractName in
      if name = '''' then throw (ErrMsg ''contract name is required'')
      else (\<lambda>w. case cache w name of
          Some cached \<Rightarrow> (Inr cached, w)
        | None \<Rightarrow>
            bindE (wrapE ''resolve contract address'' (liftX (registry name))) (\<lambda>address.
              if address = 0 then throw (ErrMsg ''contract resolved to zero address'')
              else (\<lambda>w. (Inr address, w\<lparr>cache := (cache w)(name \<mapsto> address)\<rparr>))) w))"

lemma ResolveByName_keeps_tabs:
  assumes "\<And>name. keeps (\<lambda>x. tabs x = v) (registry name)"
  shows "keeps (\<lambda>w. tabs (ext w) = v) (ResolveByName registry n)"
proof (rule keepsI)
  fix w r w' assume w: "tabs (ext w) = v" and run: "ResolveByName registry n w = (r, w')"
  then show "tabs (ext w') = v"
    using keepsD [OF assms [of "TrimSpace n"], of "ext w"]
    by (auto simp: ResolveByName_def Let_def bindE_def wrapE_def liftX_def
        split: if_splits option.splits prod.splits sum.splits)
qed

record upgradedContract =
  uc_name :: string
  uc_old :: address
  uc_new :: address

definition upgraded :: "common_lib \<Rightarrow> string \<Rightarrow> string \<Rightarrow> string \<Rightarrow> upgradedContract" where
  "upgraded L name old_text new_text =
     \<lparr>uc_name = name, uc_old = HexToAddress L old_text, uc_new = HexToAddress L new_text\<rparr>"

definition fspUpgradedContracts :: "common_lib \<Rightarrow> upgradedContract list" where
  "fspUpgradedContracts L =
    [upgraded L ''VoterPreRegistry'' ''0x9Ba9A142FD5B2953667B03dB40D1d77c83F225a2''
       ''0xD8957603dE539118898BA2C321a1001d062Be7Ae'',
     upgraded L ''FlareSystemsCalculator'' ''0x126FAeEc75601dA3354c0b5Cc0b60C85fCbC3A5e''
       ''0x31a5B8E7ca6dFC7B963f5D029F0884ef19E53A24'',
     upgraded L ''VoterRegistry'' ''0x31B9EC65C731c7D973a33Ef3FC83B653f540dC8D''
       ''0xd23FAE88c09e6A77dD9eFcc29D6bBC55D2e74310'',
     upgraded L ''VoterPreRegistry'' ''0xeFDBf6F31Aa46c62414Aee82aF43036d16885b48''
       ''0x76D49E62B07e52A13b7FBB4602eD942f812c87e2'',
     upgraded L ''FlareSystemsCalculator'' ''0x67c4B11c710D35a279A41cff5eb089Fe72748CF8''
       ''0xf9cCe0Bd286bb38A9A0cD15fDDC5431F03568Db0'',
     upgraded L ''VoterRegistry'' ''0x2580101692366e2f331e891180d9ffdF861Fce83''
       ''0xA480457953Af3583E54DCd630b219353B8FC9Af7'']"

fun addresses_in :: "upgradedContract list \<Rightarrow> string \<Rightarrow> address \<Rightarrow> address list" where
  "addresses_in [] contractName current = [current]"
| "addresses_in (c # cs) contractName current =
     (if uc_name c \<noteq> contractName then addresses_in cs contractName current
      else if current = uc_old c \<or> current = uc_new c then [uc_old c, uc_new c]
      else addresses_in cs contractName current)"

definition addressesForUpgradedContract :: "common_lib \<Rightarrow> string \<Rightarrow> address \<Rightarrow> address list" where
  "addressesForUpgradedContract L contractName current =
     addresses_in (fspUpgradedContracts L) contractName current"

text \<open>Evaluation reads the list of upgrades only for a contract that is on it.\<close>

lemma addresses_in_other: "\<forall>c \<in> set cs. uc_name c \<noteq> n \<Longrightarrow> addresses_in cs n current = [current]"
  by (induction cs) auto

lemma addressesForUpgradedContract_code [code]:
  "addressesForUpgradedContract L n current =
     (if n = ''VoterPreRegistry'' \<or> n = ''FlareSystemsCalculator'' \<or> n = ''VoterRegistry''
      then addresses_in (fspUpgradedContracts L) n current else [current])"
  by (auto simp: addressesForUpgradedContract_def fspUpgradedContracts_def upgraded_def intro!: addresses_in_other)

definition ResolveAllByName :: "common_lib \<Rightarrow> 'x registry \<Rightarrow> string \<Rightarrow> ('x world, address list) io" where
  "ResolveAllByName L registry contractName =
     bindE (ResolveByName registry contractName) (\<lambda>address.
       ret (addressesForUpgradedContract L (TrimSpace contractName) address))"

subsection \<open>The addresses of a configuration\<close>

text \<open>One round of each loop of \<^verbatim>\<open>ResolveContractAddresses\<close>.\<close>

definition resolve_transaction ::
  "common_lib \<Rightarrow> 'x registry \<Rightarrow> TransactionInfo list \<Rightarrow> TransactionInfo \<Rightarrow> ('x world, TransactionInfo list) io" where
  "resolve_transaction L registry txs info =
     (if TrimSpace (TxContractAddress info) \<noteq> '''' then ret (txs @ [info])
      else bindE (ResolveAllByName L registry (TxContractName info)) (\<lambda>contractAddresses.
        ret (txs @
             map (\<lambda>contractAddress. info\<lparr>TxContractAddress := AddressHex L contractAddress\<rparr>) contractAddresses)))"

definition resolve_log ::
  "common_lib \<Rightarrow> 'x registry \<Rightarrow> LogInfo list \<Rightarrow> LogInfo \<Rightarrow> ('x world, LogInfo list) io" where
  "resolve_log L registry ls logInfo =
     (if TrimSpace (LogContractAddress logInfo) \<noteq> '''' then ret (ls @ [logInfo])
      else bindE (ResolveAllByName L registry (LogContractName logInfo)) (\<lambda>contractAddresses.
        ret (ls @
             map (\<lambda>contractAddress. logInfo\<lparr>LogContractAddress := AddressHex L contractAddress\<rparr>) contractAddresses)))"

definition ResolveContractAddresses :: "common_lib \<Rightarrow> 'x registry \<Rightarrow> Config \<Rightarrow> ('x world, Config) io" where
  "ResolveContractAddresses L registry cfg =
     bindE (foldE (resolve_transaction L registry) [] (CollectTransactions (Indexer cfg))) (\<lambda>transactions.
     let cfg = cfg\<lparr>Indexer := (Indexer cfg)\<lparr>CollectTransactions := transactions\<rparr>\<rparr> in
     bindE (foldE (resolve_log L registry) [] (CollectLogs (Indexer cfg))) (\<lambda>logs.
       ret (cfg\<lparr>Indexer := (Indexer cfg)\<lparr>CollectLogs := logs\<rparr>\<rparr>)))"

subsection \<open>The cache\<close>

definition cache_ok :: "(string \<Rightarrow> address option) \<Rightarrow> bool" where
  "cache_ok c \<longleftrightarrow> (\<forall>name a. c name = Some a \<longrightarrow> a \<noteq> 0 \<and> name \<noteq> '''' \<and> TrimSpace name = name)"

lemma cache_ok_insert:
  "cache_ok c \<Longrightarrow> a \<noteq> 0 \<Longrightarrow> TrimSpace n \<noteq> [] \<Longrightarrow> cache_ok (c(TrimSpace n \<mapsto> a))"
  by (simp add: cache_ok_def)

lemma ResolveByName_cases:
  assumes "ResolveByName registry n w = (r, w')" "cache_ok (cache w)"
  shows "cache_ok (cache w') \<and> cache w \<subseteq>\<^sub>m cache w' \<and>
    (case r of Inl _ \<Rightarrow> cache w' = cache w | Inr a \<Rightarrow> a \<noteq> 0 \<and> TrimSpace n \<noteq> '''' \<and> cache w' (TrimSpace n) = Some a)"
proof (cases "TrimSpace n = ''''")
  case True
  with assms show ?thesis by (auto simp: ResolveByName_def Let_def)
next
  case False
  show ?thesis
  proof (cases "cache w (TrimSpace n)")
    case (Some a)
    with False assms show ?thesis by (auto simp: ResolveByName_def Let_def cache_ok_def)
  next
    case None
    obtain r1 w1 where f: "wrapE ''resolve contract address'' (liftX (registry (TrimSpace n))) w = (r1, w1)" by force
    then have c: "cache w1 = cache w" by (auto simp: wrapE_def liftX_def split: prod.splits)
    from False None f assms(1) have run: "(case r1 of Inl e \<Rightarrow> (Inl e, w1)
        | Inr address \<Rightarrow> if address = 0 then (Inl (ErrMsg ''contract resolved to zero address''), w1)
            else (Inr address, w1\<lparr>cache := (cache w1)(TrimSpace n \<mapsto> address)\<rparr>)) = (r, w')"
      by (cases r1) (auto simp: ResolveByName_def Let_def bindE_def split: if_splits)
    then show ?thesis
      using c None False assms(2) by (cases r1) (auto simp: cache_ok_insert map_le_def split: if_splits)
  qed
qed

lemma ResolveByName_cached:
  "cache w (TrimSpace n) = Some a \<Longrightarrow> cache_ok (cache w) \<Longrightarrow> ResolveByName registry n w = (Inr a, w)"
  by (auto simp: ResolveByName_def Let_def cache_ok_def)

text \<open>
  C39: the resolver never hands out or remembers the zero address, an error is never
  remembered, and a name that was resolved once is from then on answered from the cache:
  with the same address, and without a call to the registry.
\<close>

theorem resolver_remembers:
  assumes "ResolveByName registry n w = (r, w')" and "cache_ok (cache w)"
  shows "cache_ok (cache w') \<and> cache w \<subseteq>\<^sub>m cache w' \<and>
    (case r of
       Inl _ \<Rightarrow> cache w' = cache w
     | Inr a \<Rightarrow> a \<noteq> 0 \<and>
         (\<forall>m v. TrimSpace m = TrimSpace n \<longrightarrow> cache_ok (cache v) \<longrightarrow> cache w' \<subseteq>\<^sub>m cache v \<longrightarrow>
            ResolveByName registry m v = (Inr a, v)))"
proof (cases r)
  case (Inr a)
  have "ResolveByName registry m v = (Inr a, v)"
    if "TrimSpace m = TrimSpace n" "cache_ok (cache v)" "cache w' \<subseteq>\<^sub>m cache v" for m v
  proof (rule ResolveByName_cached)
    have "cache w' (TrimSpace n) = Some a" using ResolveByName_cases [OF assms] Inr by simp
    with that(1,3) show "cache v (TrimSpace m) = Some a" by (metis domI map_le_def)
  qed (rule that(2))
  with ResolveByName_cases [OF assms] Inr show ?thesis by simp
qed (use ResolveByName_cases [OF assms] assms(2) in simp)

text \<open>A registry contract with a table of addresses; a call may lose the connection.\<close>

definition mem_bind :: "(string \<Rightarrow> address) \<Rightarrow> mem bind_package" where
  "mem_bind address_of =
     \<lparr>GetAbi = Inr ContractRegistryABI,
      NewBoundContract = (\<lambda>_ parsed _ _ m args.
        case args of
          [StringV name] \<Rightarrow>
            if parsed m = Some ([StringT], [AddressT]) then faulty (ret [AddressV (address_of name)])
            else throw (ErrMsg ''no such method'')
        | _ \<Rightarrow> throw (ErrMsg ''no such method'')),
      ConvertType = (\<lambda>v t. if abi_type_of v = t then Inr v else Inl (Panic ''cannot convert''))\<rparr>"

lemma faulty_ret_Inr: "faulty (ret a) x = (Inr b, x') \<Longrightarrow> b = a"
  by (auto simp: faulty_def ret_def split: list.splits if_splits)

interpretation mem_abi: abi_calls "mem_bind address_of"
proof
  fix a parsed and caller :: "mem client" and opts m args x out x' ins outs
  assume run: "NewBoundContract (mem_bind address_of) a parsed caller opts m args x = (Inr out, x')"
    and m: "parsed m = Some (ins, outs)"
  then obtain name where "args = [StringV name]" "parsed m = Some ([StringT], [AddressT])"
    "faulty (ret [AddressV (address_of name)]) x = (Inr out, x')"
    by (auto simp: mem_bind_def throw_def split: list.splits abi_value.splits if_splits)
  with faulty_ret_Inr [OF this(3)] m show "map abi_type_of out = outs" by simp
qed (simp_all add: mem_bind_def)

lemma mem_bind_resolver:
  "NewContractResolver L (mem_bind address_of) client w = (Inr (\<lambda>name. faulty (ret (address_of name))), w\<lparr>cache := (\<lambda>_. None)\<rparr>)"
  by (auto simp: NewContractResolver_def NewContractRegistryCaller_def bindContractRegistry_def mem_bind_def
      GetContractAddressByName_def bindE_def wrapE_def ContractRegistryABI_def faulty_def ret_def out_value_def out_at_def
      as_Address_def fun_eq_iff split: list.split)

text \<open>A registry that knows one contract.\<close>

definition one_contract :: "mem registry" where
  "one_contract name = faulty (ret (if name = ''Relay'' then 0xbb else 0))"

definition no_cache :: "mem world" where
  "no_cache = \<lparr>ext = empty_mem, TransactionId = 1, synced = False, cache = (\<lambda>_. None)\<rparr>"

theorem resolver_remembers_witness:
  "\<exists>w'. ResolveByName one_contract '' Relay'' no_cache = (Inr 0xbb, w') \<and>
     ResolveByName one_contract ''Relay'' w' = (Inr 0xbb, w')"
proof -
  have run: "ResolveByName one_contract '' Relay'' no_cache =
      (Inr 0xbb, no_cache\<lparr>cache := [''Relay'' \<mapsto> 0xbb]\<rparr>)"
    by (simp add: ResolveByName_def Let_def one_contract_def no_cache_def TrimSpace_def is_space_def bindE_def wrapE_def
        liftX_def faulty_def empty_mem_def)
  have ok: "cache_ok (cache no_cache)" by (simp add: cache_ok_def no_cache_def)
  have "TrimSpace ''Relay'' = TrimSpace '' Relay''" by (simp add: TrimSpace_def is_space_def)
  with resolver_remembers [OF run ok] run show ?thesis by auto
qed

subsection \<open>The addresses are found\<close>

lemma addresses_in_current: "current \<in> set (addresses_in cs n current)"
  by (induction cs) auto

lemma hex_nonblank:
  assumes "address_hex_law L"
  shows "TrimSpace (AddressHex L a) \<noteq> ''''"
proof
  assume "TrimSpace (AddressHex L a) = ''''"
  have "take 2 (AddressHex L a) = ''0x''" using assms by (auto simp: address_hex_law_def)
  then obtain s where s: "AddressHex L a = CHR ''0'' # s"
    by (cases "AddressHex L a") (auto simp: take_Suc_conv_app_nth numeral_2_eq_2)
  have "dropWhile is_space (rev (AddressHex L a)) \<noteq> []"
    by (simp add: s is_space_def)
  with s \<open>TrimSpace (AddressHex L a) = ''''\<close> show False by (simp add: TrimSpace_def is_space_def)
qed

text \<open>
  Entries that name a contract by an address or by a name. \<open>entries_resolved\<close>: every new entry
  has an address and is an old one with that address; an old entry with an address is kept;
  one without stands for all deployments of the contract the cache has for its name.
\<close>

definition entries_resolved ::
  "common_lib \<Rightarrow> (string \<Rightarrow> address option) \<Rightarrow> ('e \<Rightarrow> string) \<Rightarrow> ('e \<Rightarrow> string) \<Rightarrow> ('e \<Rightarrow> string \<Rightarrow> 'e) \<Rightarrow>
   'e list \<Rightarrow> 'e list \<Rightarrow> bool" where
  "entries_resolved L c addr name set_addr es es' \<longleftrightarrow>
     (\<forall>e' \<in> set es'. TrimSpace (addr e') \<noteq> '''' \<and> (\<exists>e \<in> set es. e' = set_addr e (addr e'))) \<and>
     (\<forall>e \<in> set es. if TrimSpace (addr e) \<noteq> '''' then e \<in> set es'
        else \<exists>a. c (TrimSpace (name e)) = Some a \<and>
          (\<forall>b \<in> set (addressesForUpgradedContract L (TrimSpace (name e)) a). set_addr e (AddressHex L b) \<in> set es'))"

lemma entries_resolved_append:
  assumes "entries_resolved L c addr name set_addr es es'" "entries_resolved L d addr name set_addr fs fs'" "c \<subseteq>\<^sub>m d"
  shows "entries_resolved L d addr name set_addr (es @ fs) (es' @ fs')"
proof -
  have "\<exists>a. d (TrimSpace (name e)) = Some a \<and> P a" if "\<exists>a. c (TrimSpace (name e)) = Some a \<and> P a" for e P
    using that assms(3) by (metis domI map_le_def)
  with assms(1,2) show ?thesis
    unfolding entries_resolved_def set_append ball_Un by (fastforce split: if_splits)
qed

lemma entries_resolved_mono:
  assumes "entries_resolved L c addr name set_addr es es'" "c \<subseteq>\<^sub>m d"
  shows "entries_resolved L d addr name set_addr es es'"
  using entries_resolved_append [OF assms(1) _ assms(2), of "[]" "[]"] by (simp add: entries_resolved_def)

locale named_entry =
  fixes addr :: "'e \<Rightarrow> string" and name :: "'e \<Rightarrow> string" and set_addr :: "'e \<Rightarrow> string \<Rightarrow> 'e"
  assumes addr_set [simp]: "addr (set_addr e a) = a"
    and set_addr_same [simp]: "set_addr e (addr e) = e"
begin

definition resolve_entry :: "common_lib \<Rightarrow> 'x registry \<Rightarrow> 'e list \<Rightarrow> 'e \<Rightarrow> ('x world, 'e list) io" where
  "resolve_entry L registry acc e =
     (if TrimSpace (addr e) \<noteq> '''' then ret (acc @ [e])
      else bindE (ResolveAllByName L registry (name e)) (\<lambda>as.
        ret (acc @ map (\<lambda>a. set_addr e (AddressHex L a)) as)))"

lemma resolve_entry_Inr:
  assumes "resolve_entry L registry acc e w = (Inr es', w')" "cache_ok (cache w)" "address_hex_law L"
  shows "cache_ok (cache w') \<and> cache w \<subseteq>\<^sub>m cache w' \<and>
    (\<exists>more. es' = acc @ more \<and> entries_resolved L (cache w') addr name set_addr [e] more)"
proof (cases "TrimSpace (addr e) = ''''")
  case False
  with assms show ?thesis by (auto simp: resolve_entry_def entries_resolved_def)
next
  case True
  with assms(1) obtain a where r: "ResolveByName registry (name e) w = (Inr a, w')"
    and es': "es' = acc @ map (\<lambda>a. set_addr e (AddressHex L a)) (addressesForUpgradedContract L (TrimSpace (name e)) a)"
    by (auto simp: resolve_entry_def ResolveAllByName_def bindE_Inr_iff)
  note c = ResolveByName_cases [OF r assms(2)]
  have "entries_resolved L (cache w') addr name set_addr [e]
      (map (\<lambda>a. set_addr e (AddressHex L a)) (addressesForUpgradedContract L (TrimSpace (name e)) a))"
    using c True hex_nonblank [OF assms(3)] by (auto simp: entries_resolved_def)
  with c es' show ?thesis by auto
qed

lemma resolve_entries:
  assumes "foldE (resolve_entry L registry) acc es w = (Inr es', w')" "cache_ok (cache w)" "address_hex_law L"
  shows "cache_ok (cache w') \<and> cache w \<subseteq>\<^sub>m cache w' \<and>
    (\<exists>more. es' = acc @ more \<and> entries_resolved L (cache w') addr name set_addr es more)"
  using assms(1,2)
proof (induction es arbitrary: acc w)
  case Nil
  then show ?case by (auto simp: entries_resolved_def)
next
  case (Cons e es)
  then obtain acc1 w1 where one: "resolve_entry L registry acc e w = (Inr acc1, w1)"
    and rest: "foldE (resolve_entry L registry) acc1 es w1 = (Inr es', w')"
    by (auto simp: bindE_Inr_iff)
  from resolve_entry_Inr [OF one Cons.prems(2) assms(3)] obtain m1
    where m1: "cache_ok (cache w1)" "cache w \<subseteq>\<^sub>m cache w1" "acc1 = acc @ m1"
      "entries_resolved L (cache w1) addr name set_addr [e] m1" by blast
  from Cons.IH [OF rest m1(1)] obtain m2
    where m2: "cache_ok (cache w')" "cache w1 \<subseteq>\<^sub>m cache w'" "es' = acc1 @ m2"
      "entries_resolved L (cache w') addr name set_addr es m2" by blast
  from entries_resolved_append [OF m1(4) m2(4) m2(2)] m1 m2 show ?case
    by (auto intro: map_le_trans)
qed

end

interpretation tx_entry: named_entry TxContractAddress TxContractName "\<lambda>t a. t\<lparr>TxContractAddress := a\<rparr>"
  by unfold_locales auto

interpretation log_entry: named_entry LogContractAddress LogContractName "\<lambda>l a. l\<lparr>LogContractAddress := a\<rparr>"
  by unfold_locales auto

lemma resolve_transaction_entry: "resolve_transaction L registry = tx_entry.resolve_entry L registry"
  by (intro ext) (simp add: resolve_transaction_def tx_entry.resolve_entry_def)

lemma resolve_log_entry: "resolve_log L registry = log_entry.resolve_entry L registry"
  by (intro ext) (simp add: resolve_log_def log_entry.resolve_entry_def)

text \<open>
  C40: resolving a configuration that succeeds leaves no entry without an address and loses
  none: an entry with an address stays as it is, and an entry with only a contract name
  becomes one entry, otherwise equal, for each deployment of that contract, the address in
  the registry among them. Nothing else of the configuration changes.
\<close>

theorem resolved_config_complete:
  assumes "address_hex_law L" and "cache_ok (cache w)"
    and "ResolveContractAddresses L registry cfg w = (Inr cfg', w')"
  shows "entries_resolved L (cache w') TxContractAddress TxContractName (\<lambda>t a. t\<lparr>TxContractAddress := a\<rparr>)
      (CollectTransactions (Indexer cfg)) (CollectTransactions (Indexer cfg')) \<and>
    entries_resolved L (cache w') LogContractAddress LogContractName (\<lambda>l a. l\<lparr>LogContractAddress := a\<rparr>)
      (CollectLogs (Indexer cfg)) (CollectLogs (Indexer cfg')) \<and>
    (\<forall>n a. a \<in> set (addressesForUpgradedContract L n a)) \<and>
    cfg' = cfg\<lparr>Indexer := (Indexer cfg)\<lparr>CollectTransactions := CollectTransactions (Indexer cfg'),
                                        CollectLogs := CollectLogs (Indexer cfg')\<rparr>\<rparr>"
proof -
  from assms(3) obtain txs w1 logs where
    t: "foldE (tx_entry.resolve_entry L registry) [] (CollectTransactions (Indexer cfg)) w = (Inr txs, w1)"
    and l: "foldE (log_entry.resolve_entry L registry) [] (CollectLogs (Indexer cfg)) w1 = (Inr logs, w')"
    and cfg': "cfg' = cfg\<lparr>Indexer := (Indexer cfg)\<lparr>CollectTransactions := txs, CollectLogs := logs\<rparr>\<rparr>"
    by (auto simp: ResolveContractAddresses_def Let_def bindE_Inr_iff resolve_transaction_entry resolve_log_entry)
  note t' = tx_entry.resolve_entries [OF t assms(2,1)]
  note l' = log_entry.resolve_entries [OF l _ assms(1)]
  have "entries_resolved L (cache w1) TxContractAddress TxContractName (\<lambda>t a. t\<lparr>TxContractAddress := a\<rparr>)
      (CollectTransactions (Indexer cfg)) txs" and "cache_ok (cache w1)"
    using t' by simp_all
  moreover from this l' have "cache w1 \<subseteq>\<^sub>m cache w'"
    and "entries_resolved L (cache w') LogContractAddress LogContractName (\<lambda>l a. l\<lparr>LogContractAddress := a\<rparr>)
      (CollectLogs (Indexer cfg)) logs" by simp_all
  ultimately show ?thesis
    by (simp add: cfg' addressesForUpgradedContract_def addresses_in_current entries_resolved_mono)
qed

text \<open>The user's configuration names a contract; another entry has an address.\<close>

definition named_config :: Config where
  "named_config = defaultConfig\<lparr>Indexer := (Indexer defaultConfig)\<lparr>CollectLogs := [named_log ''Relay'' '''',
     \<lparr>LogContractAddress = ''0x00000000000000000000000000000000000000cc'', LogContractName = '''', LogTopic = ''''\<rparr>]\<rparr>\<rparr>"

theorem resolved_config_complete_witness:
  "\<exists>cfg' w'. ResolveContractAddresses plain_lib one_contract named_config no_cache = (Inr cfg', w') \<and>
     (\<forall>l \<in> set (CollectLogs (Indexer cfg')). TrimSpace (LogContractAddress l) \<noteq> '''')"
proof -
  have "case fst (ResolveContractAddresses plain_lib one_contract named_config no_cache) of Inr _ \<Rightarrow> True | Inl _ \<Rightarrow> False"
    by code_simp
  then obtain cfg' w' where run: "ResolveContractAddresses plain_lib one_contract named_config no_cache = (Inr cfg', w')"
    by (cases "ResolveContractAddresses plain_lib one_contract named_config no_cache") (auto split: sum.splits)
  have "cache_ok (cache no_cache)" by (simp add: cache_ok_def no_cache_def)
  from resolved_config_complete [OF plain_address_law this run] run show ?thesis
    by (auto simp: entries_resolved_def)
qed

end
