(* ===== verification/Fsp_Epochs.thy ===== *)
theory Fsp_Epochs
  imports Reference_World
begin

text \<open>
  Reward epochs, \<^verbatim>\<open>internal/fsp/epochs.go\<close>: which epoch history is served from, from which
  block its metadata events are needed, and below which time history may be dropped. The
  \<^verbatim>\<open>FlareSystemsManager\<close> binding is the parameter \<open>fsmReader\<close>, as in the code; the loops over
  epochs count in 64 bits and are given fuel, for at the largest epoch they would not end.
\<close>

record rewardEpochStartInfo =
  RewardEpochStartTs :: u64
  RewardEpochStartBlock :: u64

record randomAcquisitionInfo =
  RandomAcquisitionStartTs :: u64
  RandomAcquisitionStartBlock :: u64
  RandomAcquisitionEndTs :: u64
  RandomAcquisitionEndBlock :: u64

record 'x fsmReader =
  GetCurrentRewardEpochId :: "('x, int option) io"
  GetRewardEpochStartInfo :: "int \<Rightarrow> ('x, rewardEpochStartInfo) io"
  GetRandomAcquisitionInfo :: "int \<Rightarrow> ('x, randomAcquisitionInfo) io"

definition historyStartEpochID :: "u64 \<Rightarrow> u64 \<Rightarrow> u64" where
  "historyStartEpochID currentEpochID historyEpochs =
     (let historyEpochs = (if historyEpochs = 0 then 1 else historyEpochs) in
      if currentEpochID \<le> historyEpochs - 1 then 0 else currentEpochID - (historyEpochs - 1))"

definition epochStartInfo :: "'x fsmReader \<Rightarrow> u64 \<Rightarrow> ('x, rewardEpochStartInfo) io" where
  "epochStartInfo fsm epochID =
     wrapE ''getRewardEpochStartInfo'' (GetRewardEpochStartInfo fsm (uint epochID))"

text \<open>The result \<open>None\<close> is the code's \<^verbatim>\<open>ok = false\<close>.\<close>

primrec resolveStartEpoch ::
  "nat \<Rightarrow> 'x fsmReader \<Rightarrow> u64 \<Rightarrow> u64 \<Rightarrow> ('x, (u64 \<times> rewardEpochStartInfo) option) io" where
  "resolveStartEpoch 0 fsm epochID currentEpochID = throw OutOfFuel"
| "resolveStartEpoch (Suc n) fsm epochID currentEpochID =
     (if epochID \<le> currentEpochID then
        bindE (epochStartInfo fsm epochID) (\<lambda>info.
          if RewardEpochStartTs info \<noteq> 0 then ret (Some (epochID, info))
          else resolveStartEpoch n fsm (epochID + 1) currentEpochID)
      else ret None)"

definition saturatingSub :: "u64 \<Rightarrow> u64 \<Rightarrow> u64" where
  "saturatingSub a b = (if a \<le> b then 0 else a - b)"

definition fspEventLeadBlocks :: u64 where "fspEventLeadBlocks = 2 * 60 * 60"
definition fspEventLeadSeconds :: u64 where "fspEventLeadSeconds = 2 * 60 * 60"

definition fspCurrentEpochID :: "'x fsmReader \<Rightarrow> ('x, u64) io" where
  "fspCurrentEpochID fsm =
     bindE (wrapE ''getCurrentRewardEpochId'' (GetCurrentRewardEpochId fsm)) (\<lambda>epochIDBig.
       case epochIDBig of
         None \<Rightarrow> throw (ErrMsg ''getCurrentRewardEpochId returned nil'')
       | Some i \<Rightarrow> ret (word_of_int i))"

record eventAnchor =
  anchor_block :: u64
  anchor_timestamp :: u64

primrec fspEventAnchor_from :: "nat \<Rightarrow> 'x fsmReader \<Rightarrow> u64 \<Rightarrow> u64 \<Rightarrow> ('x, eventAnchor option) io" where
  "fspEventAnchor_from 0 fsm epochID startEpochID = throw OutOfFuel"
| "fspEventAnchor_from (Suc n) fsm epochID startEpochID =
     (if epochID \<le> startEpochID then
        bindE (epochStartInfo fsm epochID) (\<lambda>startInfo.
          if RewardEpochStartTs startInfo = 0
          then fspEventAnchor_from n fsm (epochID + 1) startEpochID
          else
            bindE (wrapE ''getRandomAcquisitionInfo'' (GetRandomAcquisitionInfo fsm (uint epochID))) (\<lambda>raInfo.
              if RandomAcquisitionStartBlock raInfo \<noteq> 0
              then ret (Some \<lparr>anchor_block = RandomAcquisitionStartBlock raInfo,
                              anchor_timestamp = RandomAcquisitionStartTs raInfo\<rparr>)
              else ret (Some \<lparr>anchor_block = saturatingSub (RewardEpochStartBlock startInfo) fspEventLeadBlocks,
                              anchor_timestamp = saturatingSub (RewardEpochStartTs startInfo) fspEventLeadSeconds\<rparr>)))
      else ret None)"

definition fspEventAnchor :: "nat \<Rightarrow> 'x fsmReader \<Rightarrow> u64 \<Rightarrow> ('x, eventAnchor option) io" where
  "fspEventAnchor n fsm startEpochID = fspEventAnchor_from n fsm (saturatingSub startEpochID 2) startEpochID"

definition retentionMarginSeconds :: u64 where "retentionMarginSeconds = 60 * 60"

definition fspRetentionBoundary :: "nat \<Rightarrow> 'x fsmReader \<Rightarrow> u64 \<Rightarrow> ('x, u64) io" where
  "fspRetentionBoundary n fsm historyEpochs =
     bindE (fspCurrentEpochID fsm) (\<lambda>currentEpochID.
     bindE (fspEventAnchor n fsm (historyStartEpochID currentEpochID historyEpochs)) (\<lambda>anchor.
       case anchor of
         None \<Rightarrow> ret 0
       | Some a \<Rightarrow> ret (saturatingSub (anchor_timestamp a) retentionMarginSeconds)))"

definition fspEventBackfillAnchor :: "nat \<Rightarrow> 'x fsmReader \<Rightarrow> u64 \<Rightarrow> ('x, u64 option) io" where
  "fspEventBackfillAnchor n fsm startEpochID =
     bindE (fspEventAnchor n fsm startEpochID) (\<lambda>anchor.
       case anchor of None \<Rightarrow> ret None | Some a \<Rightarrow> ret (Some (anchor_block a)))"

subsection \<open>Arithmetic\<close>

lemma unat_saturatingSub: "unat (saturatingSub a b) = unat a - unat b"
  by (auto simp: saturatingSub_def word_le_nat_alt unat_minus_exact)

lemma history_window_nat:
  "unat (historyStartEpochID currentEpochID historyEpochs) =
     unat currentEpochID - (max 1 (unat historyEpochs) - 1)"
proof -
  let ?h = "if historyEpochs = 0 then 1 else historyEpochs"
  have "0 < unat ?h" by (simp add: unat_gt_0)
  then have h: "unat (?h - 1) = max 1 (unat historyEpochs) - 1"
    by (subst unat_minus_exact) (auto simp: word_le_nat_alt)
  show ?thesis
    unfolding historyStartEpochID_def Let_def h [symmetric]
    by (auto simp: word_le_nat_alt unat_minus_exact)
qed

text \<open>
  The history window holds exactly \<^verbatim>\<open>history_epochs\<close> epochs up to the current one (at least
  one), or reaches back to epoch 0 when there are not so many; no subtraction wraps around.
\<close>

theorem history_window_exact:
  "unat (historyStartEpochID currentEpochID historyEpochs) =
     unat currentEpochID - (max 1 (unat historyEpochs) - 1)"
  by (rule history_window_nat)

lemma history_window_bound: "unat (historyStartEpochID c h) \<le> unat c"
  by (auto simp: historyStartEpochID_def Let_def word_le_nat_alt unat_minus_exact)

subsection \<open>What the contract has recorded\<close>

text \<open>No read of the contract changes the tables.\<close>

locale fsm_reader =
  fixes fsm :: "'x fsmReader" and tabs :: "'x \<Rightarrow> tables"
  assumes fsm_keeps: "keeps (\<lambda>x. tabs x = v) (GetRewardEpochStartInfo fsm k)"
      "keeps (\<lambda>x. tabs x = v) (GetRandomAcquisitionInfo fsm k)"
      "keeps (\<lambda>x. tabs x = v) (GetCurrentRewardEpochId fsm)"
begin

lemma epochStartInfo_keeps: "keeps (\<lambda>x. tabs x = v) (epochStartInfo fsm e)"
  unfolding epochStartInfo_def by (intro keeps_wrap fsm_keeps)

lemma resolveStartEpoch_keeps: "keeps (\<lambda>x. tabs x = v) (resolveStartEpoch n fsm e hi)"
  by (induction n arbitrary: e)
     (auto intro!: triple_if keeps_bind epochStartInfo_keeps triple_ret triple_throw)

lemma fspEventAnchor_keeps: "keeps (\<lambda>x. tabs x = v) (fspEventAnchor n fsm s)"
proof -
  have "keeps (\<lambda>x. tabs x = v) (fspEventAnchor_from n fsm e s)" for e
    by (induction n arbitrary: e)
       (auto intro!: triple_if keeps_bind keeps_wrap epochStartInfo_keeps fsm_keeps triple_ret triple_throw)
  then show ?thesis by (simp add: fspEventAnchor_def)
qed

end

text \<open>
  \<open>starts\<close> and \<open>randoms\<close> are what the contract has recorded for each epoch (zeros for an epoch
  it never started), \<open>current\<close> its current epoch. A read that answers gives these values.
\<close>

locale fsm_records = fsm_reader fsm tabs
  for fsm :: "'x fsmReader" and starts :: "u64 \<Rightarrow> rewardEpochStartInfo"
    and randoms :: "u64 \<Rightarrow> randomAcquisitionInfo" and current :: u64 and tabs :: "'x \<Rightarrow> tables" +
  assumes start_law: "GetRewardEpochStartInfo fsm (uint e) x = (Inr i, x') \<Longrightarrow> i = starts e"
    and random_law: "GetRandomAcquisitionInfo fsm (uint e) x = (Inr a, x') \<Longrightarrow> a = randoms e"
    and current_law: "GetCurrentRewardEpochId fsm x = (Inr c, x') \<Longrightarrow> c = None \<or> c = Some (uint current)"

definition started :: "(u64 \<Rightarrow> rewardEpochStartInfo) \<Rightarrow> u64 \<Rightarrow> bool" where
  "started starts e \<longleftrightarrow> RewardEpochStartTs (starts e) \<noteq> 0"

text \<open>\<open>e\<close> is the first epoch with start data from \<open>lo\<close> to \<open>hi\<close>.\<close>

definition first_started :: "(u64 \<Rightarrow> rewardEpochStartInfo) \<Rightarrow> u64 \<Rightarrow> u64 \<Rightarrow> u64 \<Rightarrow> bool" where
  "first_started starts lo hi e \<longleftrightarrow>
     lo \<le> e \<and> e \<le> hi \<and> started starts e \<and> (\<forall>e'. lo \<le> e' \<longrightarrow> e' < e \<longrightarrow> \<not> started starts e')"

definition none_started :: "(u64 \<Rightarrow> rewardEpochStartInfo) \<Rightarrow> u64 \<Rightarrow> u64 \<Rightarrow> bool" where
  "none_started starts lo hi \<longleftrightarrow> (\<forall>e. lo \<le> e \<longrightarrow> e \<le> hi \<longrightarrow> \<not> started starts e)"

definition anchor_of ::
  "(u64 \<Rightarrow> rewardEpochStartInfo) \<Rightarrow> (u64 \<Rightarrow> randomAcquisitionInfo) \<Rightarrow> u64 \<Rightarrow> eventAnchor" where
  "anchor_of starts randoms e =
     (if RandomAcquisitionStartBlock (randoms e) \<noteq> 0
      then \<lparr>anchor_block = RandomAcquisitionStartBlock (randoms e),
            anchor_timestamp = RandomAcquisitionStartTs (randoms e)\<rparr>
      else \<lparr>anchor_block = saturatingSub (RewardEpochStartBlock (starts e)) fspEventLeadBlocks,
            anchor_timestamp = saturatingSub (RewardEpochStartTs (starts e)) fspEventLeadSeconds\<rparr>)"

lemma epoch_Suc:
  assumes "e \<le> hi" "unat (hi::u64) < 18446744073709551615"
  shows "unat (e + 1) = unat e + 1" "e < e + 1" "e' < e + 1 \<longleftrightarrow> e' \<le> e"
proof -
  show u: "unat (e + 1) = unat e + 1" using assms by (intro unat_Suc_below_max) (simp add: word_le_nat_alt)
  show "e < e + 1" "e' < e + 1 \<longleftrightarrow> e' \<le> e" using u by (auto simp: word_less_nat_alt word_le_nat_alt)
qed

lemma first_started_Suc:
  assumes "e \<le> hi" "unat (hi::u64) < 18446744073709551615" "\<not> started starts e"
  shows "first_started starts (e + 1) hi k \<Longrightarrow> first_started starts e hi k"
    and "none_started starts (e + 1) hi \<Longrightarrow> none_started starts e hi"
proof -
  note s = epoch_Suc [OF assms(1,2)]
  have split: "e = e' \<or> e + 1 \<le> e'" if "e \<le> e'" for e'
    using that s(3) [of e'] by (metis not_le order.antisym)
  show "first_started starts (e + 1) hi k \<Longrightarrow> first_started starts e hi k"
    using assms(3) s(2) split unfolding first_started_def by (metis less_imp_le order.trans)
  show "none_started starts (e + 1) hi \<Longrightarrow> none_started starts e hi"
    using assms(3) split unfolding none_started_def by metis
qed

context fsm_records
begin

lemma epochStartInfo_Inr: "epochStartInfo fsm e x = (Inr i, x') \<Longrightarrow> i = starts e"
  by (auto simp: epochStartInfo_def wrapE_Inr_iff dest: start_law)

lemma resolveStartEpoch_spec:
  assumes "resolveStartEpoch n fsm e hi x = (r, x')" "unat hi < 18446744073709551615"
    and "unat hi + 2 \<le> unat e + n" "0 < n"
  shows "r \<noteq> Inl OutOfFuel \<and>
    (\<forall>res. r = Inr res \<longrightarrow> (case res of
       None \<Rightarrow> none_started starts e hi
     | Some (k, info) \<Rightarrow> first_started starts e hi k \<and> info = starts k))"
  using assms
proof (induction n arbitrary: e x)
  case (Suc n)
  show ?case
  proof (cases "e \<le> hi")
    case True
    obtain r1 x1 where i: "epochStartInfo fsm e x = (r1, x1)" by force
    show ?thesis
    proof (cases r1)
      case (Inl err)
      then have "r1 \<noteq> Inl OutOfFuel" using i unfolding epochStartInfo_def by (metis wrapE_not_fuel)
      with Suc.prems(1) True i Inl show ?thesis by (auto simp: bindE_def)
    next
      case (Inr info)
      with i have info: "info = starts e" by (auto dest: epochStartInfo_Inr)
      show ?thesis
      proof (cases "started starts e")
        case s: True
        with Suc.prems(1) True i Inr info have "r = Inr (Some (e, starts e))"
          by (auto simp: bindE_def started_def)
        with s True show ?thesis by (auto simp: first_started_def)
      next
        case False
        with Suc.prems(1) True i Inr info have rest: "resolveStartEpoch n fsm (e + 1) hi x1 = (r, x')"
          by (auto simp: bindE_def started_def)
        note s = epoch_Suc [OF True Suc.prems(2)]
        have "0 < n" using Suc.prems(3) True by (auto simp: word_le_nat_alt)
        with Suc.IH [OF rest Suc.prems(2)] s(1) Suc.prems(3) show ?thesis
          using first_started_Suc [OF True Suc.prems(2) False] by (fastforce split: option.splits)
      qed
    qed
  next
    case False
    with Suc.prems(1) show ?thesis by (auto simp: none_started_def)
  qed
qed simp

lemma fspEventAnchor_from_spec:
  assumes "fspEventAnchor_from n fsm e hi x = (r, x')" "unat hi < 18446744073709551615"
    and "unat hi + 2 \<le> unat e + n" "0 < n"
  shows "r \<noteq> Inl OutOfFuel \<and>
    (\<forall>res. r = Inr res \<longrightarrow> (case res of
       None \<Rightarrow> none_started starts e hi
     | Some a \<Rightarrow> \<exists>k. first_started starts e hi k \<and> a = anchor_of starts randoms k))"
  using assms
proof (induction n arbitrary: e x)
  case (Suc n)
  show ?case
  proof (cases "e \<le> hi")
    case True
    obtain r1 x1 where i: "epochStartInfo fsm e x = (r1, x1)" by force
    show ?thesis
    proof (cases r1)
      case (Inl err)
      then have "r1 \<noteq> Inl OutOfFuel" using i unfolding epochStartInfo_def by (metis wrapE_not_fuel)
      with Suc.prems(1) True i Inl show ?thesis by (auto simp: bindE_def)
    next
      case (Inr info)
      with i have info: "info = starts e" by (auto dest: epochStartInfo_Inr)
      show ?thesis
      proof (cases "started starts e")
        case s: True
        let ?ra = "wrapE ''getRandomAcquisitionInfo'' (GetRandomAcquisitionInfo fsm (uint e))"
        obtain r2 x2 where ra: "?ra x1 = (r2, x2)" by force
        have "r2 \<noteq> Inl OutOfFuel" using ra by (metis wrapE_not_fuel)
        moreover have "a = randoms e" if "r2 = Inr a" for a
          using ra that by (auto simp: wrapE_Inr_iff dest: random_law)
        moreover have "first_started starts e hi e" using s True by (auto simp: first_started_def)
        ultimately show ?thesis
          using Suc.prems(1) True i Inr info s ra
          by (cases r2) (auto simp: bindE_def started_def anchor_of_def split: if_splits)
      next
        case False
        with Suc.prems(1) True i Inr info have rest: "fspEventAnchor_from n fsm (e + 1) hi x1 = (r, x')"
          by (auto simp: bindE_def started_def)
        note s = epoch_Suc [OF True Suc.prems(2)]
        have "0 < n" using Suc.prems(3) True by (auto simp: word_le_nat_alt)
        with Suc.IH [OF rest Suc.prems(2)] s(1) Suc.prems(3) show ?thesis
          using first_started_Suc [OF True Suc.prems(2) False] by (fastforce split: option.splits)
      qed
    qed
  next
    case False
    with Suc.prems(1) show ?thesis by (auto simp: none_started_def)
  qed
qed simp

lemma fspEventAnchor_spec:
  assumes "fspEventAnchor n fsm s x = (r, x')" "unat s < 18446744073709551615" "4 \<le> n"
  shows "r \<noteq> Inl OutOfFuel \<and>
    (\<forall>res. r = Inr res \<longrightarrow> (case res of
       None \<Rightarrow> none_started starts (saturatingSub s 2) s
     | Some a \<Rightarrow> \<exists>k. first_started starts (saturatingSub s 2) s k \<and> a = anchor_of starts randoms k))"
  using fspEventAnchor_from_spec [OF assms(1) [unfolded fspEventAnchor_def] assms(2)] assms(3)
  by (simp add: unat_saturatingSub)

end

subsection \<open>A concrete reader\<close>

definition mem_fsm ::
  "(u64 \<Rightarrow> rewardEpochStartInfo) \<Rightarrow> (u64 \<Rightarrow> randomAcquisitionInfo) \<Rightarrow> u64 \<Rightarrow> mem fsmReader" where
  "mem_fsm starts randoms current =
     \<lparr>GetCurrentRewardEpochId = faulty (ret (Some (uint current))),
      GetRewardEpochStartInfo = (\<lambda>i. faulty (ret (starts (word_of_int i)))),
      GetRandomAcquisitionInfo = (\<lambda>i. faulty (ret (randoms (word_of_int i))))\<rparr>"

interpretation mem_fsm: fsm_records "mem_fsm starts randoms current" starts randoms current m_tabs
  by unfold_locales (auto simp: mem_fsm_def elim!: faulty_cases intro!: keeps_faulty)

text \<open>Epochs 5 to 8 have start data, and from 6 on also a random acquisition.\<close>

definition late_starts :: "u64 \<Rightarrow> rewardEpochStartInfo" where
  "late_starts e = (if e < 5 \<or> 8 < e then \<lparr>RewardEpochStartTs = 0, RewardEpochStartBlock = 0\<rparr>
     else \<lparr>RewardEpochStartTs = 10000 * e, RewardEpochStartBlock = 5000 * e\<rparr>)"

definition late_randoms :: "u64 \<Rightarrow> randomAcquisitionInfo" where
  "late_randoms e = (if e < 6
     then \<lparr>RandomAcquisitionStartTs = 0, RandomAcquisitionStartBlock = 0,
           RandomAcquisitionEndTs = 0, RandomAcquisitionEndBlock = 0\<rparr>
     else \<lparr>RandomAcquisitionStartTs = 10000 * e - 8000, RandomAcquisitionStartBlock = 5000 * e - 4000,
           RandomAcquisitionEndTs = 10000 * e - 7000, RandomAcquisitionEndBlock = 5000 * e - 3500\<rparr>)"

subsection \<open>Properties\<close>

text \<open>
  C36: history is served from the first epoch of the desired window that the contract has start
  data for: every earlier epoch of the window has none, and only when no epoch of the window
  has any is there no answer. The search over epochs ends: with as much fuel as the window
  has epochs (and two), fuel never decides.
\<close>

theorem start_epoch_is_first_recorded:
  assumes "fsm_records fsm starts randoms current tabs" and "unat current < 18446744073709551615"
    and "unat current + 2 \<le> unat desired + n" "0 < n"
    and "resolveStartEpoch n fsm desired current x = (r, x')"
  shows "r \<noteq> Inl OutOfFuel \<and>
    (\<forall>res. r = Inr res \<longrightarrow> (case res of
       None \<Rightarrow> none_started starts desired current
     | Some (e, info) \<Rightarrow> first_started starts desired current e \<and> info = starts e))"
  by (rule fsm_records.resolveStartEpoch_spec [OF assms(1,5,2,3,4)])

theorem start_epoch_is_first_recorded_witness:
  "\<exists>x'. resolveStartEpoch 10 (mem_fsm late_starts late_randoms 8) 2 8 empty_mem = (Inr (Some (5, late_starts 5)), x') \<and>
     first_started late_starts 2 8 5"
proof -
  have "case fst (resolveStartEpoch 10 (mem_fsm late_starts late_randoms 8) 2 8 empty_mem) of
      Inr (Some (e, _)) \<Rightarrow> e = 5 | _ \<Rightarrow> False"
    by code_simp
  then obtain info x' where run: "resolveStartEpoch 10 (mem_fsm late_starts late_randoms 8) 2 8 empty_mem = (Inr (Some (5, info)), x')"
    by (cases "resolveStartEpoch 10 (mem_fsm late_starts late_randoms 8) 2 8 empty_mem")
       (auto split: sum.splits option.splits)
  from start_epoch_is_first_recorded [OF mem_fsm.fsm_records_axioms _ _ _ run]
  have "first_started late_starts 2 8 5 \<and> info = late_starts 5" by simp
  with run show ?thesis by blast
qed

text \<open>
  C37: the anchor of the metadata events is that of the first epoch with start data among the
  two before the first served epoch and that epoch itself: the recorded start of its random
  acquisition, or the nominal lead of two hours below its start, floored at zero. There is no
  anchor exactly when none of the three has start data. Four rounds of the loop suffice.
\<close>

theorem event_anchor_is_first_recorded:
  assumes "fsm_records fsm starts randoms current tabs" and "unat startEpochID < 18446744073709551615" and "4 \<le> n"
    and "fspEventAnchor n fsm startEpochID x = (r, x')"
  shows "r \<noteq> Inl OutOfFuel \<and>
    (\<forall>res. r = Inr res \<longrightarrow> (case res of
       None \<Rightarrow> none_started starts (saturatingSub startEpochID 2) startEpochID
     | Some a \<Rightarrow> \<exists>e. first_started starts (saturatingSub startEpochID 2) startEpochID e \<and>
         a = anchor_of starts randoms e))"
  by (rule fsm_records.fspEventAnchor_spec [OF assms(1,4,2,3)])

theorem event_anchor_is_first_recorded_witness:
  "\<exists>e x'. fspEventAnchor 4 (mem_fsm late_starts late_randoms 8) 6 empty_mem =
       (Inr (Some (anchor_of late_starts late_randoms e)), x') \<and> first_started late_starts 4 6 e"
proof -
  have "case fst (fspEventAnchor 4 (mem_fsm late_starts late_randoms 8) 6 empty_mem) of Inr (Some _) \<Rightarrow> True | _ \<Rightarrow> False"
    by code_simp
  then obtain a x' where run: "fspEventAnchor 4 (mem_fsm late_starts late_randoms 8) 6 empty_mem = (Inr (Some a), x')"
    by (cases "fspEventAnchor 4 (mem_fsm late_starts late_randoms 8) 6 empty_mem")
       (auto split: sum.splits option.splits)
  have "saturatingSub 6 2 = 4" by (simp add: saturatingSub_def)
  with event_anchor_is_first_recorded [OF mem_fsm.fsm_records_axioms _ _ run] run show ?thesis by auto
qed

lemma fspCurrentEpochID_Inr:
  assumes "fsm_records fsm starts randoms current tabs" "fspCurrentEpochID fsm x = (Inr c, x')"
  shows "c = current"
  using assms(2) fsm_records.current_law [OF assms(1)]
  by (fastforce simp: fspCurrentEpochID_def bindE_Inr_iff wrapE_Inr_iff split: option.splits)

text \<open>
  C38: history drop never reaches the events that the startup backfill guarantees: when later
  epochs have later anchors, the retention boundary stays at least an hour below the anchor
  from which startup would backfill for the same current epoch (or is zero), although startup
  may have moved its first epoch up to where recorded data begins and retention does not.
\<close>

theorem retention_below_backfill:
  assumes fsm: "fsm_records fsm starts randoms current tabs"
    and cur: "unat current < 18446744073709551615" and fuel: "4 \<le> n" "unat current + 2 \<le> m"
    and ascending: "\<forall>d e. started starts d \<longrightarrow> started starts e \<longrightarrow> d \<le> e \<longrightarrow>
      anchor_timestamp (anchor_of starts randoms d) \<le> anchor_timestamp (anchor_of starts randoms e)"
    and startup: "resolveStartEpoch m fsm (historyStartEpochID current historyEpochs) current x = (Inr (Some (s, info)), x1)"
      "fspEventAnchor n fsm s x2 = (Inr (Some a), x3)"
    and retention: "fspRetentionBoundary n fsm historyEpochs y = (Inr b, y')"
  shows "b = 0 \<or> unat b + 3600 \<le> unat (anchor_timestamp a)"
proof -
  let ?w = "historyStartEpochID current historyEpochs"
  have w: "?w \<le> current" by (simp add: word_le_nat_alt history_window_bound)
  then have w_max: "unat ?w < 18446744073709551615" using cur by (simp add: word_le_nat_alt)
  have s: "first_started starts ?w current s"
    using fsm_records.resolveStartEpoch_spec [OF fsm startup(1) cur] fuel(2) by simp
  then have "?w \<le> s" "s \<le> current" by (auto simp: first_started_def)
  then have s_max: "unat s < 18446744073709551615" using cur by (simp add: word_le_nat_alt)
  obtain e where e: "first_started starts (saturatingSub s 2) s e" and a: "a = anchor_of starts randoms e"
    using fsm_records.fspEventAnchor_spec [OF fsm startup(2) s_max fuel(1)] by auto
  from retention obtain c y0 where "fspCurrentEpochID fsm y = (Inr c, y0)"
    and rest: "bindE (fspEventAnchor n fsm (historyStartEpochID c historyEpochs)) (\<lambda>anchor.
       case anchor of None \<Rightarrow> ret 0
       | Some a \<Rightarrow> ret (saturatingSub (anchor_timestamp a) retentionMarginSeconds)) y0 = (Inr b, y')"
    by (auto simp: fspRetentionBoundary_def bindE_Inr_iff [of "fspCurrentEpochID _"])
  then have "c = current" by (blast dest: fspCurrentEpochID_Inr [OF fsm])
  with rest obtain y1 anc where anc: "fspEventAnchor n fsm ?w y1 = (Inr anc, y')"
    and b: "b = (case anc of None \<Rightarrow> 0 | Some a \<Rightarrow> saturatingSub (anchor_timestamp a) retentionMarginSeconds)"
    by (auto simp: bindE_Inr_iff split: option.splits)
  show ?thesis
  proof (cases anc)
    case (Some a')
    then obtain d where d: "first_started starts (saturatingSub ?w 2) ?w d" and a': "a' = anchor_of starts randoms d"
      using fsm_records.fspEventAnchor_spec [OF fsm anc w_max fuel(1)] by auto
    have "d \<le> e"
    proof (rule ccontr)
      assume "\<not> d \<le> e"
      then have "e < d" by simp
      moreover have "saturatingSub ?w 2 \<le> saturatingSub s 2"
        using \<open>?w \<le> s\<close> by (simp add: word_le_nat_alt unat_saturatingSub)
      then have "saturatingSub ?w 2 \<le> e" using e by (auto simp: first_started_def)
      ultimately have "\<not> started starts e" using d by (auto simp: first_started_def)
      with e show False by (simp add: first_started_def)
    qed
    with ascending d e have "anchor_timestamp a' \<le> anchor_timestamp a"
      by (simp add: first_started_def a a')
    moreover have "unat b = unat (anchor_timestamp a') - 3600"
      using b Some by (simp add: unat_saturatingSub retentionMarginSeconds_def)
    ultimately show ?thesis by (auto simp: word_le_nat_alt word_eq_unat)
  qed (use b in simp)
qed

theorem retention_below_backfill_witness:
  "\<exists>a b x' y'. fspEventAnchor 4 (mem_fsm late_starts late_randoms 8) 6 empty_mem = (Inr (Some a), x') \<and>
     fspRetentionBoundary 4 (mem_fsm late_starts late_randoms 8) 3 empty_mem = (Inr b, y') \<and>
     0 < b \<and> unat b + 3600 \<le> unat (anchor_timestamp a)"
proof -
  have "case fst (resolveStartEpoch 10 (mem_fsm late_starts late_randoms 8) 6 8 empty_mem) of
      Inr (Some (e, _)) \<Rightarrow> e = 6 | _ \<Rightarrow> False"
    by code_simp
  then obtain info x1 where r: "resolveStartEpoch 10 (mem_fsm late_starts late_randoms 8) 6 8 empty_mem = (Inr (Some (6, info)), x1)"
    by (cases "resolveStartEpoch 10 (mem_fsm late_starts late_randoms 8) 6 8 empty_mem")
       (auto split: sum.splits option.splits)
  have "case fst (fspEventAnchor 4 (mem_fsm late_starts late_randoms 8) 6 empty_mem) of Inr (Some _) \<Rightarrow> True | _ \<Rightarrow> False"
    by code_simp
  then obtain a x' where f: "fspEventAnchor 4 (mem_fsm late_starts late_randoms 8) 6 empty_mem = (Inr (Some a), x')"
    by (cases "fspEventAnchor 4 (mem_fsm late_starts late_randoms 8) 6 empty_mem")
       (auto split: sum.splits option.splits)
  have "case fst (fspRetentionBoundary 4 (mem_fsm late_starts late_randoms 8) 3 empty_mem) of Inr b \<Rightarrow> 0 < b | _ \<Rightarrow> False"
    by code_simp
  then obtain b y' where b: "fspRetentionBoundary 4 (mem_fsm late_starts late_randoms 8) 3 empty_mem = (Inr b, y')" "0 < b"
    by (cases "fspRetentionBoundary 4 (mem_fsm late_starts late_randoms 8) 3 empty_mem") (auto split: sum.splits)
  have w: "historyStartEpochID 8 3 = 6" by (simp add: historyStartEpochID_def)
  have "e \<in> {5, 6, 7, 8}" if "started late_starts e" for e
  proof -
    from that have "unat e \<in> {5, 6, 7, 8}" by (auto simp: started_def late_starts_def word_less_nat_alt split: if_splits)
    then show ?thesis by (auto simp: word_eq_unat)
  qed
  moreover have "map (\<lambda>e. anchor_timestamp (anchor_of late_starts late_randoms e)) [5, 6, 7, 8] = [42800, 52000, 62000, 72000]"
    by code_simp
  then have "d \<le> e \<longrightarrow> anchor_timestamp (anchor_of late_starts late_randoms d) \<le>
      anchor_timestamp (anchor_of late_starts late_randoms e)" if "d \<in> {5, 6, 7, 8}" "e \<in> {5, 6, 7, 8}" for d e
    using that by auto
  ultimately have asc: "\<forall>d e. started late_starts d \<longrightarrow> started late_starts e \<longrightarrow> d \<le> e \<longrightarrow>
      anchor_timestamp (anchor_of late_starts late_randoms d) \<le> anchor_timestamp (anchor_of late_starts late_randoms e)"
    by blast
  have "b = 0 \<or> unat b + 3600 \<le> unat (anchor_timestamp a)"
    by (rule retention_below_backfill [OF mem_fsm.fsm_records_axioms _ _ _ asc _ f b(1), of 10 empty_mem info x1])
       (simp_all add: w r)
  with b(2) have "unat b + 3600 \<le> unat (anchor_timestamp a)" by auto
  with f b show ?thesis by blast
qed

end
