(* ===== verification/Index_Loops.thy ===== *)
theory Index_Loops
  imports Indexing
begin

text \<open>
  The two loops of \<^verbatim>\<open>internal/core/engine.go\<close>, \<^verbatim>\<open>IndexHistory\<close> and \<^verbatim>\<open>IndexContinuous\<close>: their
  invariants, what they guarantee when they end, and that the history loop ends.
\<close>

lemma div_round_up: "0 < b \<Longrightarrow> a \<le> (a div b + 1) * (b::nat)"
  using dividend_less_div_times [of b a] by simp

subsection \<open>The history loop\<close>

text \<open>
  What the loop keeps at the start \<open>i\<close> of a batch, for the range from \<open>s\<close> to \<open>e\<close>: everything
  before \<open>i\<close> is stored and claimed.
\<close>

definition history_inv :: "common_lib \<Rightarrow> (nat \<Rightarrow> ext_block) \<Rightarrow> u64 \<Rightarrow> u64 \<Rightarrow> u64 \<Rightarrow> tables \<Rightarrow> bool" where
  "history_inv L chain s i e tb \<longleftrightarrow>
     sound L chain s tb \<and> s \<le> i \<and> (i \<le> e \<longrightarrow> connects i tb) \<and>
     (s < i \<longrightarrow> unat (Index (state_of tb LastIndexed)) + 1 = min (unat i) (unat e + 1) \<and> floor_at_most s tb) \<and>
     rows_present L chain (unat s) (min (unat i) (unat e + 1)) tb"

lemma history_inv_start: "sound L chain s tb \<Longrightarrow> history_inv L chain s s e tb"
  by (auto simp: history_inv_def sound_def rows_present_def)

lemma history_inv_sound: "history_inv L chain s i e tb \<Longrightarrow> sound L chain s tb"
  by (simp add: history_inv_def)

text \<open>An extended range end, and a recorded tip, keep it while blocks of the range are left.\<close>

lemma history_inv_extend:
  assumes "history_inv L chain s i e tb" "i \<le> e" "e \<le> e'"
  shows "history_inv L chain s i e' tb"
proof -
  have "unat i \<le> unat e" "unat e \<le> unat e'" using assms(2,3) by (auto simp: word_le_nat_alt)
  then have "min (unat i) (unat e + 1) = unat i" "min (unat i) (unat e' + 1) = unat i" by auto
  with assms show ?thesis by (simp add: history_inv_def)
qed

text \<open>What \<open>grows\<close> needs of a batch: the range up to it is stored, and the floor covers it.\<close>

lemma history_inv_before:
  assumes "history_inv L chain s i e tb" "i \<le> e"
  shows "rows_present L chain (unat s) (unat i) tb \<and> (s < i \<longrightarrow> floor_at_most s tb)"
proof -
  have "min (unat i) (unat e + 1) = unat i" using assms(2) by (simp add: word_le_nat_alt)
  with assms(1) show ?thesis by (simp add: history_inv_def)
qed

context indexing
begin

lemma history_inv_batch:
  assumes inv: "history_inv (lib D) chain s i e tb" and i: "i \<le> e"
    and eff: "batch_effect (lib D) chain s i l True tb tb'"
    and l: "unat l + 1 = min (unat i + b) (unat e + 1)" and i': "unat i' = unat i + b" and b: "0 < b"
  shows "history_inv (lib D) chain s i' e tb'"
proof -
  have si: "s \<le> i" using inv by (simp add: history_inv_def)
  have m: "min (unat i') (unat e + 1) = unat l + 1" using l i' by simp
  have le: "unat i \<le> unat e" "unat s \<le> unat i" using i si by (auto simp: word_le_nat_alt)
  have fl: "floor_at_most s tb'"
  proof (cases "s = i")
    case True
    with eff show ?thesis by (simp add: batch_effect_def)
  next
    case False
    with si inv have "floor_at_most s tb" by (simp add: history_inv_def)
    with eff show ?thesis by (simp add: batch_effect_def)
  qed
  have "min (unat i) (unat e + 1) = unat i" using le by simp
  then have "rows_present (lib D) chain (unat s) (unat i) tb" using inv by (simp add: history_inv_def)
  then have "rows_present (lib D) chain (unat s) (unat l + 1) tb'"
    using eff rows_present_mono rows_present_join unfolding batch_effect_def by metis
  moreover have "connects i' tb'" if "i' \<le> e"
  proof -
    have "unat l + 1 = unat i'" using that l i' by (simp add: word_le_nat_alt)
    then have "unat (l + 1) = unat i'" using unat_u64_bound [of i'] by (simp add: unat_Suc_below_max)
    then have "l + 1 = i'" by (simp add: word_eq_unat)
    with eff show ?thesis by (simp add: batch_effect_def)
  qed
  moreover have "s \<le> i'" using le i' by (simp add: word_le_nat_alt)
  ultimately show ?thesis
    using eff fl m by (simp add: history_inv_def batch_effect_def)
qed

text \<open>
  The rule of the loop: \<open>P i e\<close> holds before the batch at \<open>i\<close> of a range that ends at \<open>e\<close>, \<open>Q\<close>
  wherever the loop stops. A batch keeps them, and so do a recorded tip and an extended range.
\<close>

lemma IndexHistory_from_world_rule:
  assumes within: "\<And>i e w. P i e w \<Longrightarrow> Q w"
    and batch: "\<And>i rg w r w'. P i (r_end rg) w \<Longrightarrow> unat (r_end rg) < 2 ^ 62 \<Longrightarrow> i \<le> r_end rg \<Longrightarrow>
      indexBatch D ci i rg w = (r, w') \<Longrightarrow> Q w' \<and> (r = Inr () \<longrightarrow> P (i + BatchSize (params ci)) (r_end rg) w')"
    and tip: "\<And>i e w x'. P i e w \<Longrightarrow>
      tabs x' = tabs (ext w) \<or> (\<exists>k t. tabs x' = upsert_state ChainTip k t (tabs (ext w))) \<Longrightarrow> P i e (w\<lparr>ext := x'\<rparr>)"
    and extend: "\<And>i e e' w. P i e w \<Longrightarrow> i \<le> e \<Longrightarrow> e \<le> e' \<Longrightarrow> P i e' w"
    and "P i (r_end rg) w" "unat (r_end rg) < 2 ^ 62" "r_end rg \<le> StopIndex (params ci)"
    and "IndexHistory_from n D ci i rg w = (r, w')"
  shows "Q w' \<and> (\<forall>e. r = Inr e \<longrightarrow> e \<le> StopIndex (params ci) \<and> r_end rg \<le> e \<and> unat e < 2 ^ 62 \<and> (\<exists>i'. e < i' \<and> P i' e w'))"
  using assms(5-8)
proof (induction n arbitrary: i rg w)
  case 0
  then show ?case using within by auto
next
  case (Suc n)
  let ?B = "BatchSize (params ci)"
  show ?case
  proof (cases "i \<le> r_end rg")
    case False
    with Suc.prems have "r = Inr (r_end rg)" "w' = w" by auto
    with False Suc.prems show ?thesis using within by (auto intro: exI [of _ i])
  next
    case True
    obtain r1 w1 where b: "indexBatch D ci i rg w = (r1, w1)" by force
    note step = batch [OF Suc.prems(1,2) True b]
    show ?thesis
    proof (cases r1)
      case (Inl e)
      with Suc.prems(4) True b have "w' = w1" "\<forall>e. r \<noteq> Inr e" by (auto simp: bindE_def wrapE_def)
      with step show ?thesis by simp
    next
      case (Inr u)
      let ?upd = "if shouldUpdateLastIndex ci rg i then liftX (updateLastIndexHistory D ci rg) else ret rg"
      obtain r2 w2 where u: "?upd w1 = (r2, w2)" by force
      have P1: "P (i + ?B) (r_end rg) w1" using step Inr by simp
      have w2: "P (i + ?B) (r_end rg) w2 \<and>
          (\<forall>rg'. r2 = Inr rg' \<longrightarrow> P (i + ?B) (r_end rg') w2 \<and>
             r_end rg \<le> r_end rg' \<and> unat (r_end rg') < 2 ^ 62 \<and> r_end rg' \<le> StopIndex (params ci))"
      proof (cases "shouldUpdateLastIndex ci rg i")
        case False
        with u P1 Suc.prems(2,3) show ?thesis by auto
      next
        case True
        then have le: "i + ?B \<le> r_end rg" by (simp add: shouldUpdateLastIndex_def)
        from True u obtain x2 where u': "updateLastIndexHistory D ci rg (ext w1) = (r2, x2)" "w2 = w1\<lparr>ext := x2\<rparr>"
          by (auto simp: liftX_iff)
        have P2: "P (i + ?B) (r_end rg) w2"
          unfolding u'(2) by (rule tip [OF P1 record_tip(1) [OF u'(1) [unfolded updateLastIndexHistory_def]]])
        show ?thesis
          using P2 extend [OF P2 le] updateLastIndexHistory_Inr [OF _ Suc.prems(2,3)] u'(1) by blast
      qed
      show ?thesis
      proof (cases r2)
        case (Inl e)
        with Suc.prems(4) \<open>i \<le> r_end rg\<close> b \<open>r1 = Inr u\<close> u have "w' = w2" "\<forall>e. r \<noteq> Inr e" by (auto simp: bindE_def wrapE_def)
        with w2 within show ?thesis by auto
      next
        case Inr2: (Inr rg')
        with Suc.prems(4) \<open>i \<le> r_end rg\<close> b \<open>r1 = Inr u\<close> u have "IndexHistory_from n D ci (i + ?B) rg' w2 = (r, w')"
          by (simp add: bindE_def wrapE_def)
        with w2 Inr2 Suc.IH [of "i + ?B" rg' w2] show ?thesis by (auto intro: order.trans)
      qed
    qed
  qed
qed

lemma IndexHistory_world_rule:
  assumes within: "\<And>i e w. P i e w \<Longrightarrow> Q w"
    and batch: "\<And>i rg w r w'. P i (r_end rg) w \<Longrightarrow> unat (r_end rg) < 2 ^ 62 \<Longrightarrow> i \<le> r_end rg \<Longrightarrow>
      indexBatch D ci i rg w = (r, w') \<Longrightarrow> Q w' \<and> (r = Inr () \<longrightarrow> P (i + BatchSize (params ci)) (r_end rg) w')"
    and tip: "\<And>i e w x'. P i e w \<Longrightarrow>
      tabs x' = tabs (ext w) \<or> (\<exists>k t. tabs x' = upsert_state ChainTip k t (tabs (ext w))) \<Longrightarrow> P i e (w\<lparr>ext := x'\<rparr>)"
    and extend: "\<And>i e e' w. P i e w \<Longrightarrow> i \<le> e \<Longrightarrow> e \<le> e' \<Longrightarrow> P i e' w"
    and start: "\<And>e. P s e w" and run: "IndexHistory D ci s w = (r, w')"
  shows "Q w' \<and> (\<forall>e. r = Inr e \<longrightarrow> unat e < 2 ^ 62 \<and> (\<exists>i'. e < i' \<and> P i' e w'))"
proof -
  obtain r1 x1 where g: "getIndexRange D ci s (ext w) = (r1, x1)" by force
  have P1: "P s e (w\<lparr>ext := x1\<rparr>)" for e by (rule tip [OF start record_tip(1) [OF g [unfolded getIndexRange_def]]])
  show ?thesis
  proof (cases r1)
    case (Inl e)
    with run g have "w' = w\<lparr>ext := x1\<rparr>" "\<forall>e. r \<noteq> Inr e" by (auto simp: IndexHistory_def bindE_def liftX_def)
    with within [OF P1] show ?thesis by simp
  next
    case (Inr rg)
    note rg = getIndexRange_Inr [OF g [unfolded Inr]]
    from run g Inr rg have loop: "IndexHistory_from (loop_fuel D) D ci s rg (w\<lparr>ext := x1\<rparr>) = (r, w')"
      by (simp add: IndexHistory_def bindE_def liftX_def)
    have "Q w' \<and> (\<forall>e. r = Inr e \<longrightarrow> e \<le> StopIndex (params ci) \<and> r_end rg \<le> e \<and> unat e < 2 ^ 62 \<and> (\<exists>i'. e < i' \<and> P i' e w'))"
      by (rule IndexHistory_from_world_rule [of P Q, OF _ _ _ _ P1 _ _ loop])
        (erule within | rule batch extend tip, assumption+ | (insert rg, simp))+
    then show ?thesis by blast
  qed
qed

text \<open>Invariants of the tables alone.\<close>

lemma IndexHistory_from_rule:
  assumes within: "\<And>i e tb. P i e tb \<Longrightarrow> Q tb"
    and batch: "\<And>i rg w r w'. P i (r_end rg) (tabs (ext w)) \<Longrightarrow> unat (r_end rg) < 2 ^ 62 \<Longrightarrow> i \<le> r_end rg \<Longrightarrow>
      indexBatch D ci i rg w = (r, w') \<Longrightarrow>
      Q (tabs (ext w')) \<and> (r = Inr () \<longrightarrow> P (i + BatchSize (params ci)) (r_end rg) (tabs (ext w')))"
    and tip: "\<And>i e k t tb. P i e tb \<Longrightarrow> P i e (upsert_state ChainTip k t tb)"
    and extend: "\<And>i e e' tb. P i e tb \<Longrightarrow> i \<le> e \<Longrightarrow> e \<le> e' \<Longrightarrow> P i e' tb"
    and "P i (r_end rg) (tabs (ext w))" "unat (r_end rg) < 2 ^ 62" "r_end rg \<le> StopIndex (params ci)"
    and "IndexHistory_from n D ci i rg w = (r, w')"
  shows "Q (tabs (ext w')) \<and> (\<forall>e. r = Inr e \<longrightarrow> e \<le> StopIndex (params ci) \<and> r_end rg \<le> e \<and> unat e < 2 ^ 62 \<and>
    (\<exists>i'. e < i' \<and> P i' e (tabs (ext w'))))"
  by (rule IndexHistory_from_world_rule [of "\<lambda>i e w. P i e (tabs (ext w))" "\<lambda>w. Q (tabs (ext w))", OF _ _ _ _ assms(5-8)])
    (use within batch tip extend in auto)

lemma IndexHistory_rule:
  assumes within: "\<And>i e tb. P i e tb \<Longrightarrow> Q tb"
    and batch: "\<And>i rg w r w'. P i (r_end rg) (tabs (ext w)) \<Longrightarrow> unat (r_end rg) < 2 ^ 62 \<Longrightarrow> i \<le> r_end rg \<Longrightarrow>
      indexBatch D ci i rg w = (r, w') \<Longrightarrow>
      Q (tabs (ext w')) \<and> (r = Inr () \<longrightarrow> P (i + BatchSize (params ci)) (r_end rg) (tabs (ext w')))"
    and tip: "\<And>i e k t tb. P i e tb \<Longrightarrow> P i e (upsert_state ChainTip k t tb)"
    and extend: "\<And>i e e' tb. P i e tb \<Longrightarrow> i \<le> e \<Longrightarrow> e \<le> e' \<Longrightarrow> P i e' tb"
    and start: "\<And>e. P s e (tabs (ext w))" and run: "IndexHistory D ci s w = (r, w')"
  shows "Q (tabs (ext w')) \<and> (\<forall>e. r = Inr e \<longrightarrow> unat e < 2 ^ 62 \<and> (\<exists>i'. e < i' \<and> P i' e (tabs (ext w'))))"
  by (rule IndexHistory_world_rule [of "\<lambda>i e w. P i e (tabs (ext w))" "\<lambda>w. Q (tabs (ext w))", OF _ _ _ _ _ run])
    (use within batch tip extend start in auto)

lemma IndexHistory_loop:
  assumes B: "0 < BatchSize (params ci)" "unat (BatchSize (params ci)) \<le> 2 ^ 62"
    and start: "history_inv (lib D) chain s i (r_end rg) (tabs (ext w))"
    and rg: "unat (r_end rg) < 2 ^ 62" "r_end rg \<le> StopIndex (params ci)"
    and run: "IndexHistory_from n D ci i rg w = (r, w')"
  shows "sound (lib D) chain s (tabs (ext w')) \<and> grows s (tabs (ext w)) (tabs (ext w')) \<and>
    (\<forall>e. r = Inr e \<longrightarrow> e \<le> StopIndex (params ci) \<and> r_end rg \<le> e \<and> unat e < 2 ^ 62 \<and>
       (\<exists>i'. e < i' \<and> history_inv (lib D) chain s i' e (tabs (ext w'))))"
proof -
  let ?tb0 = "tabs (ext w)"
  define P where "P = (\<lambda>i e tb. history_inv (lib D) chain s i e tb \<and> grows s ?tb0 tb)"
  define Q where "Q = (\<lambda>tb. sound (lib D) chain s tb \<and> grows s ?tb0 tb)"
  have "Q (tabs (ext w')) \<and> (\<forall>e. r = Inr e \<longrightarrow> e \<le> StopIndex (params ci) \<and> r_end rg \<le> e \<and> unat e < 2 ^ 62 \<and>
      (\<exists>i'. e < i' \<and> P i' e (tabs (ext w'))))"
  proof (rule IndexHistory_from_rule [of P Q, OF _ _ _ _ _ rg run])
    fix i rg w r w'
    assume P: "P i (r_end rg) (tabs (ext w))" and e62: "unat (r_end rg) < 2 ^ 62" and i: "i \<le> r_end rg"
      and b: "indexBatch D ci i rg w = (r, w')"
    have inv: "history_inv (lib D) chain s i (r_end rg) (tabs (ext w))" and g0: "grows s ?tb0 (tabs (ext w))"
      using P by (simp_all add: P_def)
    have pre: "sound (lib D) chain s (tabs (ext w))" "connects i (tabs (ext w))" "s \<le> i"
      using inv i by (auto simp: history_inv_def)
    note last = batch_last [OF B e62 i] and eff = indexBatch_step [OF B e62 i pre b]
    have "unat (min (i + BatchSize (params ci) - 1) (r_end rg)) < 2 ^ 62" using last(2) e62 by (simp add: word_le_nat_alt)
    then have g: "grows s (tabs (ext w)) (tabs (ext w'))" "sound (lib D) chain s (tabs (ext w'))"
      using eff history_inv_before [OF inv i] by (simp_all add: batch_effect_def)
    moreover have "history_inv (lib D) chain s (i + BatchSize (params ci)) (r_end rg) (tabs (ext w'))" if "r = Inr ()"
      using history_inv_batch [OF inv i _ last(3,4)] eff that B(1) by (simp add: word_less_nat_alt)
    ultimately show "Q (tabs (ext w')) \<and> (r = Inr () \<longrightarrow> P (i + BatchSize (params ci)) (r_end rg) (tabs (ext w')))"
      using grows_trans [OF g0] by (simp add: P_def Q_def)
  next
    fix i e k t tb assume P: "P i e tb"
    have "history_inv (lib D) chain s i e (upsert_state ChainTip k t tb) \<longleftrightarrow> history_inv (lib D) chain s i e tb"
      by (simp add: history_inv_def floor_at_most_def rows_present_def state_of_def)
    with P show "P i e (upsert_state ChainTip k t tb)" using grows_trans [OF _ grows_tip] by (simp add: P_def)
  next
    show "P i (r_end rg) ?tb0" using start by (simp add: P_def)
  next
    show "P i e tb \<Longrightarrow> Q tb" for i e tb by (auto simp: P_def Q_def history_inv_def)
  next
    show "P i e' tb" if "P i e tb" "i \<le> e" "e \<le> e'" for i e e' tb
      using history_inv_extend that unfolding P_def by blast
  qed
  then show ?thesis unfolding P_def Q_def by blast
qed

lemma getIndexRange_sound:
  assumes "getIndexRange D ci s0 x = (r, x')"
  shows "sound L chain s (tabs x') \<longleftrightarrow> sound L chain s (tabs x)"
    and "grows s (tabs x) (tabs x')"
  using record_tip_sound [OF assms [unfolded getIndexRange_def]]
    record_tip(1) [OF assms [unfolded getIndexRange_def]] by auto

lemma getIndexRange_fuel: "getIndexRange D ci s x \<noteq> (Inl OutOfFuel, x')"
proof
  assume run: "getIndexRange D ci s x = (Inl OutOfFuel, x')"
  from record_tip(3) [OF run [unfolded getIndexRange_def]] show False by simp
qed

text \<open>A pass from \<open>i\<close> on that continues a range stored from \<open>s\<close> on.\<close>

lemma IndexHistory_resume:
  assumes B: "0 < BatchSize (params ci)" "unat (BatchSize (params ci)) \<le> 2 ^ 62"
    and st: "sound (lib D) chain s (tabs (ext w))" "connects i (tabs (ext w))" "s \<le> i"
    and rows: "rows_present (lib D) chain (unat s) (unat i) (tabs (ext w))"
    and ahead: "s < i \<Longrightarrow> unat (Index (state_of (tabs (ext w)) LastIndexed)) + 1 = unat i \<and> floor_at_most s (tabs (ext w))"
    and run: "IndexHistory D ci i w = (r, w')"
  shows "sound (lib D) chain s (tabs (ext w')) \<and> grows s (tabs (ext w)) (tabs (ext w')) \<and>
    (\<forall>e. r = Inr e \<longrightarrow> e \<le> StopIndex (params ci) \<and> unat e < 2 ^ 62 \<and>
       rows_present (lib D) chain (unat s) (unat e + 1) (tabs (ext w')) \<and>
       (s \<le> e \<longrightarrow> floor_at_most s (tabs (ext w'))) \<and>
       (i \<le> e \<longrightarrow> Index (state_of (tabs (ext w')) LastIndexed) = e))"
proof -
  obtain r1 x1 where g: "getIndexRange D ci i (ext w) = (r1, x1)" by force
  note same = record_tip_sound [OF g [unfolded getIndexRange_def]] record_tip(1) [OF g [unfolded getIndexRange_def]]
  have st1: "sound (lib D) chain s (tabs x1)" "grows s (tabs (ext w)) (tabs x1)"
    "connects i (tabs x1)" "rows_present (lib D) chain (unat s) (unat i) (tabs x1)"
    "s < i \<Longrightarrow> unat (Index (state_of (tabs x1) LastIndexed)) + 1 = unat i \<and> floor_at_most s (tabs x1)"
    using same st rows ahead by (auto simp: rows_present_def floor_at_most_def)
  show ?thesis
  proof (cases r1)
    case (Inl e)
    with run g have "w' = w\<lparr>ext := x1\<rparr>" "\<forall>e. r \<noteq> Inr e" by (auto simp: IndexHistory_def bindE_def liftX_def)
    with st1 show ?thesis by simp
  next
    case (Inr rg)
    note rg = getIndexRange_Inr [OF g [unfolded Inr]]
    from run g Inr rg have loop: "IndexHistory_from (loop_fuel D) D ci i rg (w\<lparr>ext := x1\<rparr>) = (r, w')"
      by (simp add: IndexHistory_def bindE_def liftX_def)
    show ?thesis
    proof (cases "i \<le> r_end rg")
      case False
      have "rows_present (lib D) chain (unat s) (unat (r_end rg) + 1) (tabs x1)"
        using st1(4) False by (auto simp: rows_present_def word_le_nat_alt)
      moreover have "s \<le> r_end rg \<longrightarrow> floor_at_most s (tabs x1)" using st1(5) False by auto
      moreover have "w' = w\<lparr>ext := x1\<rparr> \<and> (\<forall>e. r = Inr e \<longrightarrow> e = r_end rg)"
        using loop False by (cases "loop_fuel D") auto
      ultimately show ?thesis using st1(1,2) rg False by auto
    next
      case True
      have "unat i \<le> unat (r_end rg)" using True by (simp add: word_le_nat_alt)
      then have m: "min (unat i) (unat (r_end rg) + 1) = unat i" by simp
      have "history_inv (lib D) chain s i (r_end rg) (tabs x1)"
        unfolding history_inv_def m using st1 st(3) by auto
      from IndexHistory_loop [OF B _ _ _ loop] this rg
      have out: "sound (lib D) chain s (tabs (ext w')) \<and> grows s (tabs x1) (tabs (ext w')) \<and>
        (\<forall>e. r = Inr e \<longrightarrow> e \<le> StopIndex (params ci) \<and> r_end rg \<le> e \<and> unat e < 2 ^ 62 \<and>
          (\<exists>i'. e < i' \<and> history_inv (lib D) chain s i' e (tabs (ext w'))))" by simp
      have "rows_present (lib D) chain (unat s) (unat e + 1) (tabs (ext w')) \<and> floor_at_most s (tabs (ext w')) \<and>
          Index (state_of (tabs (ext w')) LastIndexed) = e"
        if "r_end rg \<le> e" "e < i'" "history_inv (lib D) chain s i' e (tabs (ext w'))" for e i'
      proof -
        have "min (unat i') (unat e + 1) = unat e + 1" using that(2) by (simp add: word_less_nat_alt)
        moreover have "s < i'" using st(3) True that(1,2) by simp
        ultimately show ?thesis using that(3) by (simp add: history_inv_def word_eq_unat)
      qed
      with out grows_trans [OF st1(2)] show ?thesis by blast
    qed
  qed
qed

text \<open>The loop makes at most one round per batch of the range, however the range grows.\<close>

lemma IndexHistory_from_fuel:
  assumes B: "0 < BatchSize (params ci)" "unat (BatchSize (params ci)) \<le> 2 ^ 62"
    and "unat (r_end rg) < 2 ^ 62" "r_end rg \<le> StopIndex (params ci)"
    and "unat i \<le> 2 ^ 63" "0 < n" "2 ^ 62 - unat i \<le> (n - 1) * unat (BatchSize (params ci))"
    and "IndexHistory_from n D ci i rg w = (r, w')"
  shows "r \<noteq> Inl OutOfFuel"
  using assms(3-8)
proof (induction n arbitrary: i rg w)
  case (Suc n)
  let ?B = "BatchSize (params ci)"
  show ?case
  proof (cases "i \<le> r_end rg")
    case True
    note last = batch_last [OF B Suc.prems(1) True]
    let ?upd = "if shouldUpdateLastIndex ci rg i then liftX (updateLastIndexHistory D ci rg) else ret rg"
    have upd: "r2 \<noteq> Inl OutOfFuel \<and>
        (\<forall>rg'. r2 = Inr rg' \<longrightarrow> unat (r_end rg') < 2 ^ 62 \<and> r_end rg' \<le> StopIndex (params ci))"
      if u: "?upd w1 = (r2, w2)" for w1 r2 w2
    proof (cases "shouldUpdateLastIndex ci rg i")
      case False
      with u Suc.prems(1,2) show ?thesis by auto
    next
      case True
      with u obtain x2 where u': "updateLastIndexHistory D ci rg (ext w1) = (r2, x2)"
        by (auto simp: liftX_iff)
      show ?thesis
        using record_tip(3) [OF u' [unfolded updateLastIndexHistory_def]]
          updateLastIndexHistory_Inr [OF _ Suc.prems(1,2)] u' by blast
    qed
    show ?thesis
    proof
      assume r: "r = Inl OutOfFuel"
      with Suc.prems(6) True obtain w1 where
        "bindE ?upd (\<lambda>rg. IndexHistory_from n D ci (i + ?B) rg) w1 = (Inl OutOfFuel, w')"
        by (auto simp: bindE_Inl_iff [of "wrapE _ _"])
      then obtain w2 rg' where
        u: "?upd w1 = (Inr rg', w2)" and rest: "IndexHistory_from n D ci (i + ?B) rg' w2 = (Inl OutOfFuel, w')"
        using upd unfolding bindE_Inl_iff by blast
      have "unat (i + ?B) \<le> 2 ^ 63" using last(4) Suc.prems(1) True B(2) by (simp add: word_le_nat_alt)
      moreover have n: "0 < n"
        using Suc.prems(1,5) True by (cases n) (auto simp: word_le_nat_alt)
      moreover have "2 ^ 62 - unat (i + ?B) \<le> (n - 1) * unat ?B"
        using last(4) Suc.prems(5) n by (cases n) auto
      ultimately show False using Suc.IH [OF _ _ _ _ _ rest [folded r]] upd [OF u] r by simp
    qed
  next
    case False
    with Suc.prems(6) show ?thesis by auto
  qed
qed simp

end

text \<open>The end of a history pass is a confirmed tip that the node reported, or \<^verbatim>\<open>StopIndex\<close>.\<close>

definition reported_end :: "'x deps \<Rightarrow> 'x engine \<Rightarrow> u64 \<Rightarrow> bool" where
  "reported_end D ci e \<longleftrightarrow>
     (\<exists>x n t x'. fetchLastBlockIndex D ci x = (Inr (n, t), x') \<and> e = min n (StopIndex (params ci)))"

lemma reported_endI: "fetchLastBlockIndex D ci x = (Inr (n, t), x') \<Longrightarrow> reported_end D ci (min n (StopIndex (params ci)))"
  unfolding reported_end_def by blast

lemma IndexHistory_from_reported:
  "IndexHistory_from n D ci i rg w = (Inr e, w') \<Longrightarrow> reported_end D ci (r_end rg) \<Longrightarrow> reported_end D ci e"
proof (induction n arbitrary: i rg w)
  case (Suc n)
  show ?case
  proof (cases "i \<le> r_end rg")
    case True
    with Suc.prems(1) obtain w1 rg' w2 where
      u: "(if shouldUpdateLastIndex ci rg i then liftX (updateLastIndexHistory D ci rg) else ret rg) w1 = (Inr rg', w2)"
      and rest: "IndexHistory_from n D ci (i + BatchSize (params ci)) rg' w2 = (Inr e, w')"
      by (auto simp: bindE_Inr_iff)
    have "reported_end D ci (r_end rg')"
      using u Suc.prems(2)
      by (auto simp: updateLastIndexHistory_def bindE_Inr_iff wrapE_Inr_iff liftX_iff split: if_splits dest: reported_endI)
    with Suc.IH [OF rest] show ?thesis .
  next
    case False
    with Suc.prems show ?thesis by simp
  qed
qed simp

lemma IndexHistory_reported: "IndexHistory D ci i w = (Inr e, w') \<Longrightarrow> reported_end D ci e"
  by (auto simp: IndexHistory_def getIndexRange_def bindE_Inr_iff liftX_iff wrapE_Inr_iff
      dest!: reported_endI IndexHistory_from_reported)

text \<open>
  The confirmed tip that a history pass has read last is recorded as \<open>ChainTip\<close>; a pass that returns \<open>e\<close> has
  reached it, or \<^verbatim>\<open>stop_index\<close>.
\<close>

definition tip_reached :: "u64 \<Rightarrow> u64 \<Rightarrow> tables \<Rightarrow> bool" where
  "tip_reached stop e tb \<longleftrightarrow> (\<exists>t. tb_states tb ChainTip = Some t \<and> min (Index t) stop \<le> e)"

context indexing
begin

lemma indexBatch_tip:
  assumes B: "0 < BatchSize (params ci)" "unat (BatchSize (params ci)) \<le> 2 ^ 62"
    and rg: "unat (r_end rg) < 2 ^ 62" "i \<le> r_end rg"
    and run: "indexBatch D ci i rg w = (r, w')"
  shows "tb_states (tabs (ext w')) ChainTip = tb_states (tabs (ext w)) ChainTip"
proof -
  have "tb_states (tabs x') ChainTip = tb_states (tabs x) ChainTip" if "saveData (e_db ci) data l ts x = (r2, x')" for data l ts x r2 x'
    using saveData_outcomes [OF that] by (auto simp: saved_tables_def split: option.splits)
  with indexBatch_cases [OF B rg run] show ?thesis by metis
qed

lemma record_tip_reached:
  assumes "bindE (wrapE a (fetchLastBlockIndex D ci)) (\<lambda>(n, t).
      bindE (wrapE b (UpdateState (e_db ci) ChainTip n t)) (\<lambda>_. ret (g n))) x = (Inr rg, x')"
    and "\<And>n. min n stop \<le> r_end (g n)"
  shows "tip_reached stop (r_end rg) (tabs x')"
  using assms by (auto simp: tip_reached_def bindE_Inr_iff wrapE_Inr_iff dest!: writes_Inr [OF UpdateState_writes])

lemma IndexHistory_from_tip:
  assumes B: "0 < BatchSize (params ci)" "unat (BatchSize (params ci)) \<le> 2 ^ 62"
    and "IndexHistory_from n D ci i rg w = (Inr e, w')"
    and "unat (r_end rg) < 2 ^ 62" "r_end rg \<le> StopIndex (params ci)"
    and "tip_reached (StopIndex (params ci)) (r_end rg) (tabs (ext w))"
  shows "tip_reached (StopIndex (params ci)) e (tabs (ext w'))"
  using assms(3-6)
proof (induction n arbitrary: i rg w)
  case (Suc n)
  show ?case
  proof (cases "i \<le> r_end rg")
    case True
    with Suc.prems(1) obtain w1 rg' w2 where b: "indexBatch D ci i rg w = (Inr (), w1)"
      and u: "(if shouldUpdateLastIndex ci rg i then liftX (updateLastIndexHistory D ci rg) else ret rg) w1 = (Inr rg', w2)"
      and rest: "IndexHistory_from n D ci (i + BatchSize (params ci)) rg' w2 = (Inr e, w')"
      by (auto simp: bindE_Inr_iff wrapE_Inr_iff)
    have t1: "tip_reached (StopIndex (params ci)) (r_end rg) (tabs (ext w1))"
      using Suc.prems(4) indexBatch_tip [OF B Suc.prems(2) True b] by (simp add: tip_reached_def)
    have "unat (r_end rg') < 2 ^ 62 \<and> r_end rg' \<le> StopIndex (params ci) \<and>
        tip_reached (StopIndex (params ci)) (r_end rg') (tabs (ext w2))"
    proof (cases "shouldUpdateLastIndex ci rg i")
      case True
      with u obtain x2 where u': "updateLastIndexHistory D ci rg (ext w1) = (Inr rg', x2)" "w2 = w1\<lparr>ext := x2\<rparr>"
        by (auto simp: liftX_iff)
      have "tip_reached (StopIndex (params ci)) (r_end rg') (tabs x2)"
        by (rule record_tip_reached [OF u'(1) [unfolded updateLastIndexHistory_def]]) (auto simp: min_def not_less)
      with updateLastIndexHistory_Inr [OF u'(1) Suc.prems(2,3)] u'(2) show ?thesis by simp
    qed (use u t1 Suc.prems(2,3) in auto)
    with Suc.IH [OF rest] show ?thesis by blast
  next
    case False
    with Suc.prems show ?thesis by simp
  qed
qed simp

lemma IndexHistory_tip:
  assumes B: "0 < BatchSize (params ci)" "unat (BatchSize (params ci)) \<le> 2 ^ 62"
    and run: "IndexHistory D ci s w = (Inr e, w')"
  shows "tip_reached (StopIndex (params ci)) e (tabs (ext w'))"
proof -
  from run obtain rg x1 where g: "getIndexRange D ci s (ext w) = (Inr rg, x1)"
    and loop: "IndexHistory_from (loop_fuel D) D ci (r_start rg) rg (w\<lparr>ext := x1\<rparr>) = (Inr e, w')"
    by (auto simp: IndexHistory_def bindE_Inr_iff liftX_iff)
  have "tip_reached (StopIndex (params ci)) (r_end rg) (tabs x1)"
    by (rule record_tip_reached [OF g [unfolded getIndexRange_def]]) simp
  with IndexHistory_from_tip [OF B loop] getIndexRange_Inr [OF g] show ?thesis by simp
qed

end

text \<open>
  C5: a history pass that returns \<open>e\<close> has indexed everything: from the start block up to \<open>e\<close>
  every block is in the table as the row of the chain's block, \<open>LastIndexed\<close> is \<open>e\<close> and the
  floor is at most the start; and \<open>e\<close> does not exceed \<^verbatim>\<open>stop_index\<close>. After a pass that fails,
  wherever it failed, the coverage states claim nothing that is not there, and a new pass
  from the same start block connects to them.
\<close>

theorem history_complete:
  assumes ix: "indexing D ci chain logs_at receipt_of tabs"
    and B: "0 < BatchSize (params ci)" "unat (BatchSize (params ci)) \<le> 2 ^ 62"
    and st: "sound (lib D) chain start (tabs (ext w))"
    and run: "IndexHistory D ci start w = (r, w')"
  shows "sound (lib D) chain start (tabs (ext w')) \<and>
    (\<forall>e. r = Inr e \<longrightarrow> e \<le> StopIndex (params ci) \<and>
       (start \<le> e \<longrightarrow> Index (state_of (tabs (ext w')) LastIndexed) = e \<and> floor_at_most start (tabs (ext w')) \<and>
          rows_present (lib D) chain (unat start) (unat e + 1) (tabs (ext w'))))"
proof -
  have "connects start (tabs (ext w))" using st by (simp add: sound_def)
  moreover have "rows_present (lib D) chain (unat start) (unat start) (tabs (ext w))" by (simp add: rows_present_def)
  ultimately show ?thesis using indexing.IndexHistory_resume [OF ix B st _ order.refl _ _ run] by blast
qed

text \<open>
  C24: the history loop ends: the number of batches between the start block and the highest
  block number a node can report (assumed below \<open>2\<^sup>6\<^sup>2\<close>) bounds its rounds, however often the end
  of the range is moved while it runs, so the fuel never decides the outcome.
\<close>

theorem history_terminates:
  assumes ix: "indexing D ci chain logs_at receipt_of tabs"
    and B: "0 < BatchSize (params ci)" "unat (BatchSize (params ci)) \<le> 2 ^ 62"
    and start: "unat start \<le> 2 ^ 63"
    and fuel: "(2 ^ 62 - unat start) div unat (BatchSize (params ci)) + 2 \<le> loop_fuel D"
    and run: "IndexHistory D ci start w = (r, w')"
  shows "r \<noteq> Inl OutOfFuel"
proof
  assume r: "r = Inl OutOfFuel"
  let ?b = "unat (BatchSize (params ci))"
  have "0 < ?b" using B(1) by (simp add: word_less_nat_alt)
  then have "2 ^ 62 - unat start \<le> ((2 ^ 62 - unat start) div ?b + 1) * ?b"
    by (rule div_round_up)
  also have "\<dots> \<le> (loop_fuel D - 1) * ?b" using fuel by (intro mult_le_mono1) linarith
  finally have n: "2 ^ 62 - unat start \<le> (loop_fuel D - 1) * ?b" .
  from run [unfolded r IndexHistory_def] indexing.getIndexRange_fuel [OF ix] obtain rg w1 x1 where
    g: "getIndexRange D ci start (ext w) = (Inr rg, x1)"
    and loop: "IndexHistory_from (loop_fuel D) D ci (r_start rg) rg w1 = (Inl OutOfFuel, w')"
    by (auto simp: bindE_Inl_iff liftX_iff)
  from indexing.getIndexRange_Inr [OF ix g] indexing.IndexHistory_from_fuel [OF ix B _ _ _ _ _ loop] start n fuel
  show False by auto
qed

subsection \<open>The continuous loop\<close>

text \<open>
  An iteration up to its save, which only reads from the node.
\<close>

definition iteration_data :: "'x deps \<Rightarrow> 'x engine \<Rightarrow> u64 \<Rightarrow> ('x world, databaseStructData \<times> u64) io" where
  "iteration_data D ci index =
     bindE (wrapE ''fetchBlock'' (liftX (fetchBlock D ci (Some index)))) (\<lambda>block.
     let bBatch = [block]; txBatch = processBlocks ci bBatch empty_txBatch in
     bindE (wrapE ''getTransactionsReceipt''
              (liftX (getTransactionsReceipt D ci txBatch 0 (length (transactions txBatch))))) (\<lambda>txBatch.
     bindE (liftX (foldE (\<lambda>logsBatch logInfo.
              wrapE ''requestLogs'' (requestLogs D ci logsBatch logInfo index (index + 1) index))
              [] (CollectLogs (params ci)))) (\<lambda>logsBatch.
     bindE (liftR (convertBlocksToDB (lib D) bBatch)) (\<lambda>dbBlocks.
     bindE (wrapE ''processTransactions''
              (liftT (processTransactions (lib D) txBatch (newDatabaseStructData\<lparr>d_Blocks := dbBlocks\<rparr>)))) (\<lambda>data.
     bindE (wrapE ''processLogs'' (liftR (processLogs (lib D) logsBatch bBatch index data))) (\<lambda>data.
       ret (data, Block_Time (bBatch ! 0))))))))"

lemma indexContinuousIteration_stages:
  "indexContinuousIteration D ci k =
     bindE (iteration_data D ci k) (\<lambda>(data, ts). wrapE ''saveData'' (liftX (saveData (e_db ci) data k ts)))"
  by (simp add: indexContinuousIteration_def iteration_data_def Let_def bindE_assoc)

context indexing
begin

lemma liftX_keeps:
  "keeps (\<lambda>x. tabs x = v) m \<Longrightarrow> keeps (\<lambda>w. tabs (ext w) = v) (liftX m)"
  by (rule keepsI) (auto simp: liftX_iff dest: keepsD)

lemma fetch_stage_keeps:
  "keeps (\<lambda>x. tabs x = v) (getTransactionsReceipt D ci tb i j)"
  "keeps (\<lambda>x. tabs x = v)
     (foldE (\<lambda>lg f. wrapE msg (requestLogs D ci lg f start stop tip)) ls fs)"
  unfolding getTransactionsReceipt_def requestLogs_def
  by (intro fetchReceipts_keeps keeps_foldE keeps_wrap keepsI; simp add: requestLogs_view)+

text \<open>Fetching and converting a block leaves the tables alone and gives the row of the chain's block.\<close>

lemma iteration_data_keeps: "keeps (\<lambda>w. tabs (ext w) = v) (iteration_data D ci k)"
  unfolding iteration_data_def Let_def
  by (intro keeps_bind keeps_wrap liftX_keeps fetchBlock_keeps fetch_stage_keeps triple_liftR triple_ret liftT_keeps)

lemma iteration_data_Inr:
  assumes "iteration_data D ci k w = (Inr (data, ts), w')"
  shows "d_Blocks data = batch_blocks (lib D) chain k 1"
proof -
  from assms obtain block x1 tb lgs rows d1 w1 w2 where f: "fetchBlock D ci (Some k) (ext w) = (Inr block, x1)"
    and c: "convertBlocksToDB (lib D) [block] = Inr rows"
    and p: "processTransactions (lib D) tb (newDatabaseStructData\<lparr>d_Blocks := rows\<rparr>) w1 = (Inr d1, w2)"
    and l: "processLogs (lib D) lgs [block] k d1 = Inr data"
    by (auto simp: iteration_data_def Let_def bindE_Inr_iff wrapE_Inr_iff liftX_iff liftT_iff)
  from fetchBlock_Inr(2) [OF f] have "chain_batch chain k 1 [block]" by (simp add: chain_batch_def)
  then have "rows = batch_blocks (lib D) chain k 1" using chain_batch_rows c by fastforce
  with processTransactions_blocks [OF p] processLogs_Inr [OF l] show ?thesis by simp
qed

lemma indexContinuousIteration_cases:
  assumes run: "indexContinuousIteration D ci k w = (r, w')"
  shows "tabs (ext w') = tabs (ext w) \<and> r \<noteq> Inr () \<or>
    (\<exists>x data ts r2 x'. tabs x = tabs (ext w) \<and> d_Blocks data = batch_blocks (lib D) chain k 1 \<and>
       saveData (e_db ci) data k ts x = (r2, x') \<and> tabs x' = tabs (ext w') \<and> (r2 = Inr () \<longleftrightarrow> r = Inr ()))"
proof -
  obtain r1 w1 where i: "iteration_data D ci k w = (r1, w1)" by force
  have t: "tabs (ext w1) = tabs (ext w)" using keepsD [OF iteration_data_keeps i] by simp
  show ?thesis
  proof (cases r1)
    case (Inl e)
    with run i t show ?thesis by (auto simp: indexContinuousIteration_stages bindE_def)
  next
    case (Inr dt)
    obtain data ts where dt: "dt = (data, ts)" by force
    obtain r2 x' where s: "saveData (e_db ci) data k ts (ext w1) = (r2, x')" by force
    have "r2 = Inr () \<longleftrightarrow> r = Inr ()" "tabs x' = tabs (ext w')"
      using run i Inr dt s by (cases r2; auto simp: indexContinuousIteration_stages bindE_def wrapE_def liftX_def)+
    with t s iteration_data_Inr [OF i [unfolded Inr dt]] show ?thesis by blast
  qed
qed

lemma indexContinuousIteration_step:
  assumes st: "sound (lib D) chain s (tabs (ext w))" "connects k (tabs (ext w))" "s \<le> k"
    and run: "indexContinuousIteration D ci k w = (r, w')"
  shows "batch_effect (lib D) chain s k k (r = Inr ()) (tabs (ext w)) (tabs (ext w'))"
  by (rule saved_cases_effect [OF st _ _ indexContinuousIteration_cases [OF run]]) simp_all

lemma updateLastIndexContinuous_Inr:
  assumes "updateLastIndexContinuous D ci rg x = (r, x')"
  shows "(sound L chain s (tabs x') \<longleftrightarrow> sound L chain s (tabs x)) \<and>
    grows s (tabs x) (tabs x') \<and>
    (connects i (tabs x') \<longleftrightarrow> connects i (tabs x)) \<and> tb_blocks (tabs x') = tb_blocks (tabs x) \<and>
    (floor_at_most s (tabs x') \<longleftrightarrow> floor_at_most s (tabs x)) \<and> (\<forall>rg'. r = Inr rg' \<longrightarrow> unat (r_end rg') < 2 ^ 62)"
proof -
  note run = assms [unfolded updateLastIndexContinuous_def]
  have "floor_at_most s (tabs x') \<longleftrightarrow> floor_at_most s (tabs x)"
    using record_tip(1) [OF run] by (auto simp: floor_at_most_def)
  moreover have "grows s (tabs x) (tabs x')"
    using record_tip(1) [OF run] by auto
  ultimately show ?thesis using record_tip_sound [OF run] record_tip(2) [OF run] by auto
qed

lemma IndexContinuous_loop:
  assumes "sound (lib D) chain s (tabs (ext w))" "connects k (tabs (ext w))" "s \<le> k"
    and "rows_present (lib D) chain (unat s) (unat k) (tabs (ext w))" "s < k \<longrightarrow> floor_at_most s (tabs (ext w))"
    and "unat (r_end rg) < 2 ^ 62"
    and "IndexContinuous_from n D ci k rg w = (r, w')"
  shows "sound (lib D) chain s (tabs (ext w')) \<and> grows s (tabs (ext w)) (tabs (ext w')) \<and>
    (\<exists>k'. k \<le> k' \<and> rows_present (lib D) chain (unat s) (unat k') (tabs (ext w')) \<and>
       (s < k' \<longrightarrow> floor_at_most s (tabs (ext w'))) \<and> (r = Inr () \<longrightarrow> StopIndex (params ci) < k'))"
  using assms
proof (induction n arbitrary: k rg w)
  case (Suc n)
  show ?case
  proof (cases "StopIndex (params ci) < k")
    case True
    then have "\<not> k \<le> StopIndex (params ci)" by simp
    with Suc.prems(7) have "w' = w" "r = Inr ()" by simp_all
    with Suc.prems(1,4,5) True show ?thesis by (auto intro: exI [of _ k])
  next
    case False
    then have going: "k \<le> StopIndex (params ci)" by simp
    show ?thesis
    proof (cases "r_end rg < k")
      case True
      obtain r1 x1 where u: "updateLastIndexContinuous D ci rg (ext w) = (r1, x1)" by force
      note kept = updateLastIndexContinuous_Inr [OF u]
      have rows: "rows_present (lib D) chain (unat s) (unat k) (tabs x1)"
        using Suc.prems(4) kept by (simp add: rows_present_def)
      show ?thesis
      proof (cases r1)
        case (Inl e)
        with Suc.prems(7) True going u have "w' = w\<lparr>ext := x1\<rparr>" "r = Inl e"
          by (auto simp: bindE_def liftX_def)
        with kept rows Suc.prems(1,5) show ?thesis by (auto intro: exI [of _ k])
      next
        case (Inr rg')
        with Suc.prems(7) True going u have "IndexContinuous_from n D ci k rg' (w\<lparr>ext := x1\<rparr>) = (r, w')"
          by (auto simp: bindE_def liftX_def)
        note next_round = Suc.IH [where k = k and rg = rg' and w = "w\<lparr>ext := x1\<rparr>", OF _ _ Suc.prems(3) _ _ _ this]
        from next_round rows kept Suc.prems(1,2,5) Inr
        have "grows s (tabs x1) (tabs (ext w'))" and "sound (lib D) chain s (tabs (ext w')) \<and>
            (\<exists>k'. k \<le> k' \<and> rows_present (lib D) chain (unat s) (unat k') (tabs (ext w')) \<and>
              (s < k' \<longrightarrow> floor_at_most s (tabs (ext w'))) \<and> (r = Inr () \<longrightarrow> StopIndex (params ci) < k'))"
          by auto
        with grows_trans kept show ?thesis by blast
      qed
    next
      case le: False
      obtain r1 w1 where it: "indexContinuousIteration D ci k w = (r1, w1)" by force
      note eff = indexContinuousIteration_step [OF Suc.prems(1-3) it]
      have k1: "unat (k + 1) = unat k + 1"
        using le Suc.prems(6) by (intro unat_Suc_below_max) (simp add: word_le_nat_alt not_less)
      have gap: "grows s (tabs (ext w)) (tabs (ext w1))"
        using eff Suc.prems(4-6) le by (simp add: batch_effect_def word_le_nat_alt not_less)
      have fl: "floor_at_most s (tabs (ext w1))" if "s < k \<or> r1 = Inr ()"
        using eff that Suc.prems(3,5) by (cases "s = k") (auto simp: batch_effect_def)
      show ?thesis
      proof (cases r1)
        case (Inl e)
        with Suc.prems(7) le going it have r: "w' = w1" "r = Inl e" by (auto simp: bindE_def)
        have "rows_present (lib D) chain (unat s) (unat k) (tabs (ext w1))"
          using Suc.prems(4) eff rows_present_mono by (auto simp: batch_effect_def)
        with eff fl gap r show ?thesis by (auto simp: batch_effect_def intro!: exI [of _ k])
      next
        case (Inr y)
        with Suc.prems(7) le going it have rest: "IndexContinuous_from n D ci (k + 1) rg w1 = (r, w')"
          by (auto simp: bindE_def)
        have rows: "rows_present (lib D) chain (unat s) (unat (k + 1)) (tabs (ext w1))"
          using rows_present_join [OF rows_present_mono [OF Suc.prems(4)]] eff Inr k1
          by (simp add: batch_effect_def)
        have le1: "s \<le> k + 1" "k \<le> k + 1" using Suc.prems(3) k1 by (auto simp: word_le_nat_alt)
        have "sound (lib D) chain s (tabs (ext w1))" "connects (k + 1) (tabs (ext w1))"
          using eff Inr by (simp_all add: batch_effect_def)
        from Suc.IH [OF this le1(1) rows _ Suc.prems(6) rest] fl [OF disjI2] Inr
        have "sound (lib D) chain s (tabs (ext w'))"
          and "grows s (tabs (ext w1)) (tabs (ext w'))" and ex: "\<exists>k'. k + 1 \<le> k' \<and>
            rows_present (lib D) chain (unat s) (unat k') (tabs (ext w')) \<and>
            (s < k' \<longrightarrow> floor_at_most s (tabs (ext w'))) \<and> (r = Inr () \<longrightarrow> StopIndex (params ci) < k')"
          by auto
        with le1(2) grows_trans [OF gap] show ?thesis by (blast intro: order.trans)
      qed
    qed
  qed
qed (auto intro: exI [of _ k])

lemma IndexContinuous_outcome:
  assumes st: "sound (lib D) chain s (tabs (ext w))" and run: "IndexContinuous D ci s w = (r, w')"
  shows "sound (lib D) chain s (tabs (ext w')) \<and> grows s (tabs (ext w)) (tabs (ext w')) \<and>
    (\<exists>k'. s \<le> k' \<and> rows_present (lib D) chain (unat s) (unat k') (tabs (ext w')) \<and>
       (s < k' \<longrightarrow> floor_at_most s (tabs (ext w'))) \<and> (r = Inr () \<longrightarrow> StopIndex (params ci) < k'))"
proof -
  obtain r1 x1 where g: "getIndexRange D ci s (ext w) = (r1, x1)" by force
  have st1: "sound (lib D) chain s (tabs x1)" "grows s (tabs (ext w)) (tabs x1)"
    using getIndexRange_sound [OF g] st by auto
  show ?thesis
  proof (cases r1)
    case (Inl e)
    with run g have "w' = w\<lparr>ext := x1\<rparr>" "r \<noteq> Inr ()"
      by (auto simp: IndexContinuous_def bindE_def liftX_def wrapE_def)
    with st1 show ?thesis by (auto simp: rows_present_def intro: exI [of _ s])
  next
    case (Inr rg)
    note rg = getIndexRange_Inr [OF g [unfolded Inr]]
    from run g Inr rg have "IndexContinuous_from (loop_fuel D) D ci s rg (w\<lparr>ext := x1\<rparr>) = (r, w')"
      by (simp add: IndexContinuous_def bindE_def liftX_def wrapE_def)
    from IndexContinuous_loop [OF _ _ order.refl _ _ _ this] rg st1 grows_trans [OF st1(2)]
    show ?thesis by (simp add: sound_def rows_present_def)
  qed
qed

end

text \<open>
  C6: continuous indexing extends the range block by block without a gap: whenever it ends,
  and after any number of rounds, every block from its start up to some \<open>k\<close> is in the table
  as the row of the chain's block, the floor covers them, and the coverage states claim
  nothing that is not there. It returns without an error only beyond \<^verbatim>\<open>stop_index\<close>.
\<close>

theorem continuous_extends:
  assumes ix: "indexing D ci chain logs_at receipt_of tabs"
    and st: "sound (lib D) chain start (tabs (ext w))"
    and run: "IndexContinuous D ci start w = (r, w')"
  shows "sound (lib D) chain start (tabs (ext w')) \<and>
    (\<exists>k. start \<le> k \<and> rows_present (lib D) chain (unat start) (unat k) (tabs (ext w')) \<and>
       (start < k \<longrightarrow> floor_at_most start (tabs (ext w'))) \<and> (r = Inr () \<longrightarrow> StopIndex (params ci) < k))"
  using indexing.IndexContinuous_outcome [OF ix st run] by blast

subsection \<open>The loops on the concrete world\<close>

text \<open>A chain of empty blocks ten seconds apart, indexed from block 1 up to \<open>stop\<close>.\<close>

definition run_engine :: "u64 \<Rightarrow> mem engine" where
  "run_engine stop = mem_engine ((Indexer defaultConfig)\<lparr>BatchSize := 2, Confirmations := 0, StopIndex := stop\<rparr>)
     (\<lambda>_. None) (\<lambda>k. of_nat (10 * k)) (\<lambda>_. []) (\<lambda>_. []) (\<lambda>_. \<lparr>rc_status = 1, rc_logs = []\<rparr>)"

definition fresh_world :: "nat \<Rightarrow> mem world" where
  "fresh_world k = \<lparr>ext = (head_at k)\<lparr>m_faults := [False, True]\<rparr>, TransactionId = 1, synced = False, cache = (\<lambda>_. None)\<rparr>"

lemma run_indexing:
  "indexing (mem_deps k n) (run_engine stop) ten_apart (make_logs (\<lambda>_. [])) (\<lambda>_. \<lparr>rc_status = 1, rc_logs = []\<rparr>) m_tabs"
  unfolding run_engine_def ten_apart_def by (rule mem_indexing.indexing_axioms)

lemma run_engine_fields [simp]: "BatchSize (params (run_engine stop)) = 2" "StopIndex (params (run_engine stop)) = stop"
  by (simp_all add: run_engine_def)

lemma fresh_sound: "sound L chain s (m_tabs (ext (fresh_world k)))"
  by (simp add: fresh_world_def head_at_def empty_mem_def empty_tables_def sound_def covers_def chain_rows_def connects_def)

theorem history_complete_witness:
  "\<exists>w'. IndexHistory (mem_deps 1 10) (run_engine 100) 1 (fresh_world 2) = (Inr 2, w') \<and>
     Index (state_of (m_tabs (ext w')) LastIndexed) = 2 \<and> rows_present plain_lib ten_apart 1 3 (m_tabs (ext w'))"
proof -
  have "case fst (IndexHistory (mem_deps 1 10) (run_engine 100) 1 (fresh_world 2)) of Inr e \<Rightarrow> e = 2 | Inl _ \<Rightarrow> False"
    by code_simp
  then obtain w' where run: "IndexHistory (mem_deps 1 10) (run_engine 100) 1 (fresh_world 2) = (Inr 2, w')"
    by (cases "IndexHistory (mem_deps 1 10) (run_engine 100) 1 (fresh_world 2)") (auto split: sum.splits)
  from history_complete [OF run_indexing _ _ fresh_sound run]
  have "Index (state_of (m_tabs (ext w')) LastIndexed) = 2 \<and> rows_present plain_lib ten_apart 1 3 (m_tabs (ext w'))"
    by (simp add: word_le_nat_alt)
  with run show ?thesis by blast
qed

theorem history_terminates_witness:
  "fst (IndexHistory (mem_deps 1 (2 ^ 61 + 2)) (run_engine 100) 1 (fresh_world 2)) \<noteq> Inl OutOfFuel"
proof -
  obtain r w' where run: "IndexHistory (mem_deps 1 (2 ^ 61 + 2)) (run_engine 100) 1 (fresh_world 2) = (r, w')" by force
  from history_terminates [OF run_indexing _ _ _ _ run] run show ?thesis by simp
qed

theorem continuous_extends_witness:
  "\<exists>w' k. IndexContinuous (mem_deps 1 5) (run_engine 1) 1 (fresh_world 2) = (Inr (), w') \<and>
     1 < k \<and> rows_present plain_lib ten_apart 1 (unat (k::u64)) (m_tabs (ext w'))"
proof -
  have "case fst (IndexContinuous (mem_deps 1 5) (run_engine 1) 1 (fresh_world 2)) of Inr e \<Rightarrow> True | Inl _ \<Rightarrow> False"
    by code_simp
  then obtain w' where run: "IndexContinuous (mem_deps 1 5) (run_engine 1) 1 (fresh_world 2) = (Inr (), w')"
    by (cases "IndexContinuous (mem_deps 1 5) (run_engine 1) 1 (fresh_world 2)") (auto split: sum.splits)
  from continuous_extends [OF run_indexing fresh_sound run]
  obtain k :: u64 where "rows_present plain_lib ten_apart (Suc 0) (unat k) (m_tabs (ext w'))" "1 < k" by auto
  with run show ?thesis by auto
qed

end
