(* ===== verification/Block_Search.thy ===== *)
theory Block_Search
  imports Chain_Client
begin

text \<open>
  The search for a block by its timestamp, \<^verbatim>\<open>internal/chain/block_search.go\<close>: narrowing
  in windows of five days of blocks, then binary search. The lookup of a block's
  timestamp is the argument \<open>blockTime\<close>, as in the code.
\<close>

definition searchWindowBlocks :: u64 where
  "searchWindowBlocks = 5 * 24 * 3600"

type_synonym 's block_time_lookup = "u64 \<Rightarrow> ('s, u64) io"

lemma unat_window [simp]: "unat searchWindowBlocks = 432000"
  by (simp add: searchWindowBlocks_def)

lemma mid_bounds:
  assumes "(low::u64) < high"
  shows "unat (low + (high - low) div 2) = unat low + (unat high - unat low) div 2"
    and "low \<le> low + (high - low) div 2" and "low + (high - low) div 2 < high"
proof -
  have lt: "unat low < unat high" using assms by (simp add: u64)
  have d: "unat ((high - low) div 2) = (unat high - unat low) div 2"
    using assms by (simp add: unat_div unat_minus_exact less_imp_le)
  show u: "unat (low + (high - low) div 2) = unat low + (unat high - unat low) div 2"
    using lt unat_u64_bound [of high] by (subst unat_plus_exact) (auto simp: d)
  show "low \<le> low + (high - low) div 2" "low + (high - low) div 2 < high"
    unfolding word_le_nat_alt word_less_nat_alt u using lt by auto
qed

lemma unat_Suc_word: "(n::u64) < m \<Longrightarrow> unat (n + 1) = unat n + 1"
  using unat_u64_bound [of m] by (subst unat_plus_exact) (auto simp: u64)

subsection \<open>The search\<close>

function binarySearchBlockByTimestamp ::
  "u64 \<Rightarrow> u64 \<Rightarrow> u64 \<Rightarrow> 's block_time_lookup \<Rightarrow> ('s, u64) io" where
  "binarySearchBlockByTimestamp searchTimestamp low high blockTime =
     (if low < high then
        let mid = low + (high - low) div 2 in
        bindE (blockTime mid) (\<lambda>ts.
          if searchTimestamp \<le> ts
          then binarySearchBlockByTimestamp searchTimestamp low mid blockTime
          else binarySearchBlockByTimestamp searchTimestamp (mid + 1) high blockTime)
      else ret low)"
  by pat_completeness auto
termination
proof (relation "measure (\<lambda>(_, low, high, _). unat high - unat low)", goal_cases)
  case (2 searchTimestamp low high blockTime mid ts)
  then show ?case using mid_bounds [of low high] by (auto simp: u64)
next
  case (3 searchTimestamp low high blockTime mid ts)
  then show ?case
    using mid_bounds [of low high] unat_Suc_word [of mid high] unat_u64_bound [of high]
    by (simp add: word_less_nat_alt) linarith
qed simp

text \<open>
  The loop that narrows the window: \<open>startCandidate\<close> steps down by a window until its
  block is not younger than the timestamp, floored at the genesis block.
\<close>

function narrowWindow ::
  "u64 \<Rightarrow> 's block_time_lookup \<Rightarrow> u64 \<Rightarrow> u64 \<Rightarrow> ('s, u64) io" where
  "narrowWindow searchTimestamp blockTime startCandidate candidateBlockTime =
     (if searchTimestamp < candidateBlockTime then
        if startCandidate < searchWindowBlocks then ret 0
        else bindE (blockTime (startCandidate - searchWindowBlocks)) (\<lambda>t.
               narrowWindow searchTimestamp blockTime (startCandidate - searchWindowBlocks) t)
      else ret startCandidate)"
  by pat_completeness auto
termination
proof (relation "measure (\<lambda>(_, _, startCandidate, _). unat startCandidate)", goal_cases)
  case (2 searchTimestamp blockTime startCandidate candidateBlockTime t)
  then show ?case by (simp add: u64)
qed simp

declare binarySearchBlockByTimestamp.simps [simp del] narrowWindow.simps [simp del]

lemma binary_search_step:
  assumes "low < high" and "mid = low + (high - low) div 2"
  shows "binarySearchBlockByTimestamp st low high bt =
    bindE (bt mid) (\<lambda>ts. if st \<le> ts then binarySearchBlockByTimestamp st low mid bt
                       else binarySearchBlockByTimestamp st (mid + 1) high bt)"
  using assms(1) unfolding assms(2) binarySearchBlockByTimestamp.simps [of st low high]
  by (simp add: Let_def)

lemma binary_search_done [simp]:
  "\<not> low < high \<Longrightarrow> binarySearchBlockByTimestamp st low high bt = ret low"
  by (simp add: binarySearchBlockByTimestamp.simps [of st low high])

definition nearestBlockByTimestamp ::
  "u64 \<Rightarrow> u64 \<Rightarrow> u64 \<Rightarrow> 's block_time_lookup \<Rightarrow> ('s, u64) io" where
  "nearestBlockByTimestamp searchTimestamp startBlockNumber endBlockNumber blockTime =
     bindE
       (if startBlockNumber = 0 then
          bindE (wrapE ''GetNearestBlockByTimestampFromChain''
                   (narrowWindow searchTimestamp blockTime endBlockNumber (- 1)))
            (\<lambda>startCandidate.
               ret (startCandidate, min (startCandidate + searchWindowBlocks) endBlockNumber))
        else ret (startBlockNumber, endBlockNumber))
       (\<lambda>(searchStart, searchEnd).
          wrapE ''GetNearestBlockByTimestampFromChain''
            (binarySearchBlockByTimestamp searchTimestamp searchStart searchEnd blockTime))"

definition blockTimestampByNumber :: "'x client \<Rightarrow> u64 \<Rightarrow> ('x, u64) io" where
  "blockTimestampByNumber client blockNumber =
     bindE (BlockByNumber client (Some (uint blockNumber))) (\<lambda>block. ret (Block_Time block))"

definition GetNearestBlockByTimestampFromChain ::
  "u64 \<Rightarrow> 'x client \<Rightarrow> u64 \<Rightarrow> u64 \<Rightarrow> ('x, u64) io" where
  "GetNearestBlockByTimestampFromChain searchTimestamp client startBlockNumber endBlockNumber =
     nearestBlockByTimestamp searchTimestamp startBlockNumber endBlockNumber
       (blockTimestampByNumber client)"

subsection \<open>The binary search\<close>

text \<open>A lookup is \<open>honest\<close> for \<open>t\<close> up to a block when every answer it gives is \<open>t\<close>'s.\<close>

definition honest_lookup :: "(u64 \<Rightarrow> u64) \<Rightarrow> u64 \<Rightarrow> 's block_time_lookup \<Rightarrow> bool" where
  "honest_lookup t hi bt \<longleftrightarrow> (\<forall>n \<le> hi. \<forall>s r s'. bt n s = (Inr r, s') \<longrightarrow> r = t n)"

definition reliable_lookup :: "u64 \<Rightarrow> 's block_time_lookup \<Rightarrow> bool" where
  "reliable_lookup hi bt \<longleftrightarrow> (\<forall>n \<le> hi. \<forall>s. \<exists>r s'. bt n s = (Inr r, s'))"

definition ascending_upto :: "u64 \<Rightarrow> (u64 \<Rightarrow> u64) \<Rightarrow> bool" where
  "ascending_upto hi t \<longleftrightarrow> (\<forall>m n. m \<le> n \<longrightarrow> n \<le> hi \<longrightarrow> t m \<le> t n)"

lemma honest_lookupD: "honest_lookup t hi bt \<Longrightarrow> bt n s = (Inr r, s') \<Longrightarrow> n \<le> hi \<Longrightarrow> r = t n"
  by (auto simp: honest_lookup_def)

lemma binary_search_correct:
  assumes "binarySearchBlockByTimestamp st low high bt s = (Inr r, s')"
    and "low \<le> high" and "high \<le> tip" and "honest_lookup t tip bt" and "ascending_upto tip t"
  shows "low \<le> r \<and> r \<le> high \<and> (\<forall>n. low \<le> n \<longrightarrow> n < r \<longrightarrow> t n < st) \<and> (r = high \<or> st \<le> t r)"
  using assms
proof (induction st low high bt arbitrary: s rule: binarySearchBlockByTimestamp.induct)
  case (1 st low high bt)
  show ?case
  proof (cases "low < high")
    case False
    with "1.prems" show ?thesis by auto
  next
    case True
    define mid where "mid = low + (high - low) div 2"
    from True have mid: "low \<le> mid" "mid < high" unfolding mid_def by (rule mid_bounds(2,3))+
    from "1.prems"(1) True obtain ts s1 where ts: "bt mid s = (Inr ts, s1)"
      and rest: "(if st \<le> ts then binarySearchBlockByTimestamp st low mid bt
                  else binarySearchBlockByTimestamp st (mid + 1) high bt) s1 = (Inr r, s')"
      by (auto simp: binary_search_step [OF True mid_def] bindE_Inr_iff)
    have tip: "mid \<le> tip" using mid "1.prems"(3) by simp
    have t: "ts = t mid" using "1.prems"(4) ts tip by (rule honest_lookupD)
    show ?thesis
    proof (cases "st \<le> ts")
      case True
      with rest have "binarySearchBlockByTimestamp st low mid bt s1 = (Inr r, s')" by simp
      from "1.IH"(1) [OF \<open>low < high\<close> mid_def True this mid(1) tip "1.prems"(4,5)]
      show ?thesis using mid True t by auto
    next
      case False
      have mid1: "mid + 1 \<le> high" "low \<le> mid + 1"
        using mid unat_Suc_word [OF mid(2)] by (auto simp: u64)
      from False rest have "binarySearchBlockByTimestamp st (mid + 1) high bt s1 = (Inr r, s')" by simp
      from "1.IH"(2) [OF \<open>low < high\<close> mid_def False this mid1(1) "1.prems"(3-5)]
      have IH: "mid + 1 \<le> r" "r \<le> high" "\<forall>n. mid + 1 \<le> n \<longrightarrow> n < r \<longrightarrow> t n < st" "r = high \<or> st \<le> t r"
        by auto
      have "t n < st" if "low \<le> n" "n < r" for n
      proof (cases "mid + 1 \<le> n")
        case False
        then have "n \<le> mid" using unat_Suc_word [OF mid(2)] by (auto simp: u64)
        with "1.prems"(5) tip have "t n \<le> t mid" by (auto simp: ascending_upto_def)
        with \<open>\<not> st \<le> ts\<close> t show ?thesis by simp
      qed (use IH that in auto)
      with IH mid1 show ?thesis by auto
    qed
  qed
qed

lemma binary_search_reliable:
  assumes "reliable_lookup tip bt" and "high \<le> tip"
  shows "\<exists>r s'. binarySearchBlockByTimestamp st low high bt s = (Inr r, s')"
  using assms
proof (induction st low high bt arbitrary: s rule: binarySearchBlockByTimestamp.induct)
  case (1 st low high bt)
  show ?case
  proof (cases "low < high")
    case True
    define mid where "mid = low + (high - low) div 2"
    from True have mid: "mid < high" unfolding mid_def by (rule mid_bounds(3))
    with "1.prems" have "mid \<le> tip" by simp
    with "1.prems"(1) obtain ts s1 where ts: "bt mid s = (Inr ts, s1)"
      unfolding reliable_lookup_def by blast
    show ?thesis
      using True "1.IH"(1) [OF True mid_def _ "1.prems"(1) \<open>mid \<le> tip\<close>, of ts s1]
        "1.IH"(2) [OF True mid_def _ "1.prems", of ts s1]
      unfolding binary_search_step [OF True mid_def]
        bindE_run_Inr [where m = "bt mid" and s = s, OF ts]
      by (cases "st \<le> ts") simp_all
  qed simp
qed

lemma binary_search_cong:
  assumes "\<And>n. n < high \<Longrightarrow> bt n = bt' n"
  shows "binarySearchBlockByTimestamp st low high bt = binarySearchBlockByTimestamp st low high bt'"
  using assms
proof (induction st low high bt rule: binarySearchBlockByTimestamp.induct)
  case (1 st low high bt)
  show ?case
  proof (cases "low < high")
    case True
    define mid where "mid = low + (high - low) div 2"
    from True have mid: "mid < high" unfolding mid_def by (rule mid_bounds(3))
    have "binarySearchBlockByTimestamp st low mid bt = binarySearchBlockByTimestamp st low mid bt'"
      if "st \<le> ts" for ts
      using mid "1.prems" by (intro "1.IH"(1) [OF True mid_def that]) (meson order.strict_trans)
    moreover have "binarySearchBlockByTimestamp st (mid + 1) high bt
        = binarySearchBlockByTimestamp st (mid + 1) high bt'" if "\<not> st \<le> ts" for ts
      using "1.prems" by (intro "1.IH"(2) [OF True mid_def that])
    moreover have "bt mid = bt' mid" using "1.prems" mid by simp
    ultimately show ?thesis
      unfolding binary_search_step [OF True mid_def] by (auto intro!: arg_cong2 [where f = bindE])
  qed simp
qed

subsection \<open>Narrowing the window\<close>

lemma narrow_step:
  "st < ct \<Longrightarrow> searchWindowBlocks \<le> sc \<Longrightarrow> narrowWindow st bt sc ct =
     bindE (bt (sc - searchWindowBlocks)) (narrowWindow st bt (sc - searchWindowBlocks))"
  by (simp add: narrowWindow.simps [of st bt sc ct] not_less [symmetric])

lemma narrow_floor: "st < ct \<Longrightarrow> sc < searchWindowBlocks \<Longrightarrow> narrowWindow st bt sc ct = ret 0"
  by (simp add: narrowWindow.simps [of st bt sc ct])

lemma narrow_stop: "\<not> st < ct \<Longrightarrow> narrowWindow st bt sc ct = ret sc"
  by (simp add: narrowWindow.simps [of st bt sc ct])

lemma window_sub:
  assumes "searchWindowBlocks \<le> (sc::u64)"
  shows "unat (sc - searchWindowBlocks) = unat sc - 432000"
    and "sc - searchWindowBlocks < sc" and "sc - searchWindowBlocks + searchWindowBlocks = sc"
proof -
  show u: "unat (sc - searchWindowBlocks) = unat sc - 432000"
    using unat_minus_exact [OF assms] by simp
  show "sc - searchWindowBlocks < sc" using assms by (simp add: word_less_nat_alt word_le_nat_alt u)
qed simp

text \<open>
  Where the loop stops: at the genesis block, or at a block that is not younger than the
  timestamp; every block a window or more above is younger, or is the top; and the window's
  upper end does not wrap around.
\<close>

definition window_covers :: "(u64 \<Rightarrow> u64) \<Rightarrow> u64 \<Rightarrow> u64 \<Rightarrow> u64 \<Rightarrow> bool" where
  "window_covers t st tip c \<longleftrightarrow>
     (\<forall>n \<le> tip. unat c + 432000 \<le> unat n \<longrightarrow> n = tip \<or> st < t n)"

lemma window_covers_below:
  assumes "ascending_upto tip t" and "sc = tip \<or> st < t sc" and "unat sc \<le> unat c + 432000"
  shows "window_covers t st tip c"
  unfolding window_covers_def
proof (intro allI impI)
  fix n assume n: "n \<le> tip" "unat c + 432000 \<le> unat n"
  with assms(3) have "sc \<le> n" by (simp add: word_le_nat_alt)
  with assms(1,2) n(1) show "n = tip \<or> st < t n"
    unfolding ascending_upto_def by (metis order.antisym order.strict_trans2)
qed

lemma narrow_correct:
  assumes "narrowWindow st bt sc ct s = (Inr c, s')"
    and "sc \<le> tip" and "honest_lookup t tip bt" and "ascending_upto tip t"
    and "sc = tip \<and> ct = - 1 \<or> ct = t sc" and "window_covers t st tip sc"
    and "sc = tip \<or> unat sc + 432000 \<le> unat tip"
  shows "c \<le> sc \<and> (c = 0 \<or> t c \<le> st) \<and> window_covers t st tip c \<and>
    (c = tip \<or> c = 0 \<or> unat c + 432000 \<le> unat tip)"
  using assms
proof (induction st bt sc ct arbitrary: s rule: narrowWindow.induct)
  case (1 st bt sc ct)
  consider (stop) "\<not> st < ct" | (floor) "st < ct" "sc < searchWindowBlocks"
    | (step) "st < ct" "searchWindowBlocks \<le> sc" by fastforce
  then show ?case
  proof cases
    case stop
    have "t sc \<le> ct"
      using "1.prems"(5) word_order.extremum [of "t sc"] by auto
    with stop have "t sc \<le> st" by simp
    with stop "1.prems" show ?thesis by (auto simp: narrow_stop)
  next
    case floor
    have "sc = tip \<or> st < t sc" using "1.prems"(5) floor(1) by auto
    with floor "1.prems"(4) have "window_covers t st tip 0"
      by (intro window_covers_below [of tip t sc]) (auto simp: word_less_nat_alt)
    with floor "1.prems"(1) show ?thesis by (auto simp: narrow_floor)
  next
    case step
    let ?sc = "sc - searchWindowBlocks"
    from "1.prems"(1) step obtain t1 s1 where t1: "bt ?sc s = (Inr t1, s1)"
      and rest: "narrowWindow st bt ?sc t1 s1 = (Inr c, s')"
      by (auto simp: narrow_step bindE_Inr_iff)
    have le: "?sc \<le> tip" using window_sub(2) [OF step(2)] "1.prems"(2) by simp
    have t: "t1 = t ?sc" using "1.prems"(3) t1 le by (rule honest_lookupD)
    have "sc = tip \<or> st < t sc" using "1.prems"(5) step(1) by auto
    then have cov: "window_covers t st tip ?sc"
      using "1.prems"(4) window_sub(1) [OF step(2)] by (intro window_covers_below [of tip t sc]) auto
    have "\<not> sc < searchWindowBlocks" using step(2) by simp
    moreover have "unat ?sc + 432000 \<le> unat tip"
      using window_sub(1) [OF step(2)] step(2) "1.prems"(2) by (simp add: word_le_nat_alt)
    ultimately show ?thesis
      using "1.IH" [OF step(1) _ rest le "1.prems"(3,4) _ cov] t window_sub(2) [OF step(2)] by auto
  qed
qed

lemma narrow_reliable:
  assumes "reliable_lookup tip bt" and "sc \<le> tip"
  shows "\<exists>c s'. narrowWindow st bt sc ct s = (Inr c, s')"
  using assms
proof (induction st bt sc ct arbitrary: s rule: narrowWindow.induct)
  case (1 st bt sc ct)
  show ?case
  proof (cases "st < ct \<and> searchWindowBlocks \<le> sc")
    case True
    let ?sc = "sc - searchWindowBlocks"
    have le: "?sc \<le> tip" using window_sub(2) [of sc] True "1.prems"(2) by simp
    then obtain t1 s1 where t1: "bt ?sc s = (Inr t1, s1)"
      using "1.prems"(1) unfolding reliable_lookup_def by blast
    have "\<not> sc < searchWindowBlocks" using True by (simp add: not_less)
    with "1.IH" [of t1 s1] True "1.prems"(1) le show ?thesis
      by (simp add: narrow_step bindE_run_Inr [where m = "bt ?sc" and s = s, OF t1])
  next
    case False
    then show ?thesis
      by (cases "st < ct") (auto simp: narrow_floor narrow_stop)
  qed
qed

lemma narrow_cong:
  assumes "\<And>n. n < sc \<Longrightarrow> bt n = bt' n"
  shows "narrowWindow st bt sc ct = narrowWindow st bt' sc ct"
  using assms
proof (induction st bt sc ct rule: narrowWindow.induct)
  case (1 st bt sc ct)
  show ?case
  proof (cases "st < ct \<and> searchWindowBlocks \<le> sc")
    case True
    let ?sc = "sc - searchWindowBlocks"
    have lt: "?sc < sc" using True window_sub(2) by simp
    have "narrowWindow st bt ?sc = narrowWindow st bt' ?sc"
      using "1.IH" True "1.prems" lt by (intro ext fun_cong [OF "1.IH"]) (auto intro: order.strict_trans)
    with "1.prems" [OF lt] True show ?thesis by (simp add: narrow_step)
  next
    case False
    then show ?thesis
      by (cases "st < ct") (auto simp: narrow_floor narrow_stop)
  qed
qed

lemma narrow_le: "narrowWindow st bt sc ct s = (Inr c, s') \<Longrightarrow> c \<le> sc"
proof (induction st bt sc ct arbitrary: s rule: narrowWindow.induct)
  case (1 st bt sc ct)
  consider (stop) "\<not> st < ct" | (floor) "st < ct" "sc < searchWindowBlocks"
    | (step) "st < ct" "searchWindowBlocks \<le> sc" by fastforce
  then show ?case
  proof cases
    case step
    with "1.prems" window_sub(2) [OF step(2)] "1.IH" show ?thesis
      by (auto simp: narrow_step bindE_Inr_iff) (meson leD order.strict_trans1 order.strict_iff_order not_less)
  qed (use "1.prems" in \<open>auto simp: narrow_floor narrow_stop\<close>)
qed

subsection \<open>The search as a whole\<close>

text \<open>
  With non-decreasing timestamps: the result is the top, or a block that is not older than
  the timestamp; and the blocks between the narrowed window's start and the result are older.
\<close>

lemma nearest_block_weak:
  assumes "nearestBlockByTimestamp st 0 tip bt s = (Inr r, s')"
    and "honest_lookup t tip bt" and "ascending_upto tip t"
  shows "r \<le> tip \<and> (r = tip \<or> st \<le> t r) \<and>
    (\<exists>c. (c = 0 \<or> t c \<le> st) \<and> c \<le> r \<and> (\<forall>n. c \<le> n \<longrightarrow> n < r \<longrightarrow> t n < st))"
proof -
  from assms(1) obtain c s1 where c: "narrowWindow st bt tip (- 1) s = (Inr c, s1)"
    and r: "binarySearchBlockByTimestamp st c (min (c + searchWindowBlocks) tip) bt s1 = (Inr r, s')"
    by (auto simp: nearestBlockByTimestamp_def bindE_Inr_iff wrapE_Inr_iff)
  let ?hi = "min (c + searchWindowBlocks) tip"
  have "window_covers t st tip tip" by (auto simp: window_covers_def word_le_nat_alt)
  then have c': "c \<le> tip" "c = 0 \<or> t c \<le> st" "window_covers t st tip c"
      "c = tip \<or> c = 0 \<or> unat c + 432000 \<le> unat tip"
    using narrow_correct [OF c _ assms(2,3)] by auto
  show ?thesis
  proof (cases "c = tip")
    case True
    then have "\<not> c < ?hi" by simp
    with r True c'(2) show ?thesis by auto
  next
    case False
    have u: "unat (c + searchWindowBlocks) = unat c + 432000"
      using False c'(4) unat_u64_bound [of tip] by (auto simp: unat_plus_exact)
    have "c < tip" using False c'(1) by simp
    then have le: "c \<le> ?hi" using u by (simp add: min_def word_le_nat_alt word_less_nat_alt)
    have "c \<le> r \<and> r \<le> ?hi \<and> (\<forall>n. c \<le> n \<longrightarrow> n < r \<longrightarrow> t n < st) \<and> (r = ?hi \<or> st \<le> t r)"
      using r le _ assms(2,3) by (rule binary_search_correct) simp
    moreover have "?hi = tip \<or> st < t ?hi"
      using c'(3) u by (auto simp: window_covers_def min_def)
    moreover have "?hi \<le> tip" by simp
    ultimately show ?thesis using c'(2) by (auto dest: order.trans less_imp_le)
  qed
qed

text \<open>With increasing timestamps no earlier block has the timestamp.\<close>

lemma nearest_block_first:
  assumes honest: "honest_lookup t tip bt"
    and increasing: "\<forall>m n. m < n \<longrightarrow> n \<le> tip \<longrightarrow> t m < t n"
  shows "(\<forall>r s'. nearestBlockByTimestamp st 0 tip bt s = (Inr r, s') \<longrightarrow>
            r \<le> tip \<and> (r = tip \<or> st \<le> t r) \<and> (\<forall>n < r. t n < st)) \<and>
         (reliable_lookup tip bt \<longrightarrow>
            (\<exists>r s'. nearestBlockByTimestamp st 0 tip bt s = (Inr r, s')))"
proof (intro conjI allI impI)
  have asc: "ascending_upto tip t"
    using increasing by (auto simp: ascending_upto_def order.order_iff_strict)
  fix r s' assume run: "nearestBlockByTimestamp st 0 tip bt s = (Inr r, s')"
  from nearest_block_weak [OF run honest asc] obtain c where r: "r \<le> tip" "r = tip \<or> st \<le> t r"
    and c: "c = 0 \<or> t c \<le> st" "c \<le> r" "\<forall>n. c \<le> n \<longrightarrow> n < r \<longrightarrow> t n < st"
    by blast
  show "r \<le> tip" "r = tip \<or> st \<le> t r" using r by auto
  fix n assume "n < r"
  show "t n < st"
  proof (cases "c \<le> n")
    case False
    then have lt: "n < c" by simp
    with increasing c(2) r(1) have "t n < t c" by auto
    with c(1) lt show ?thesis by auto
  qed (use c \<open>n < r\<close> in auto)
next
  assume rel: "reliable_lookup tip bt"
  obtain c s1 where c: "narrowWindow st bt tip (- 1) s = (Inr c, s1)"
    using narrow_reliable [OF rel] by blast
  obtain r s2 where "binarySearchBlockByTimestamp st c (min (c + searchWindowBlocks) tip) bt s1 = (Inr r, s2)"
    using binary_search_reliable [OF rel] by (metis min.cobounded2)
  with c show "\<exists>r s'. nearestBlockByTimestamp st 0 tip bt s = (Inr r, s')"
    by (auto simp: nearestBlockByTimestamp_def bindE_Inr_iff wrapE_Inr_iff)
qed

text \<open>
  C15: over a chain whose block timestamps increase, a search from start block 0 that returns
  returns the first block of the chain up to \<open>tip\<close> whose timestamp is at least the one
  searched for (\<open>tip\<close> itself when there is none), and a search whose lookups all answer
  returns. The window arithmetic and the midpoints are those of 64-bit words.
\<close>

theorem nearest_block_is_first:
  assumes honest: "honest_lookup t tip bt"
    and increasing: "\<forall>m n. m < n \<longrightarrow> n \<le> tip \<longrightarrow> t m < t n"
  shows "(\<forall>r s'. nearestBlockByTimestamp st 0 tip bt s = (Inr r, s') \<longrightarrow>
            r \<le> tip \<and> (r = tip \<or> st \<le> t r) \<and> (\<forall>n < r. t n < st)) \<and>
         (reliable_lookup tip bt \<longrightarrow>
            (\<exists>r s'. nearestBlockByTimestamp st 0 tip bt s = (Inr r, s')))"
  by (rule nearest_block_first [OF assms])

text \<open>The chain of the unit test: block \<open>n\<close> has timestamp \<open>1000 + n\<close>, the head is block 100.\<close>

definition linear_chain :: "unit block_time_lookup" where
  "linear_chain n = (if 100 < n then throw (ErrMsg ''block does not exist'') else ret (1000 + n))"

theorem nearest_block_is_first_witness:
  "\<exists>r. nearestBlockByTimestamp 1050 0 100 linear_chain () = (Inr r, ()) \<and> r = 50"
proof -
  have honest: "honest_lookup (\<lambda>n. 1000 + n) 100 linear_chain"
    by (auto simp: honest_lookup_def linear_chain_def)
  have u: "unat (1000 + n) = 1000 + unat n" if "n \<le> 100" for n :: u64
    using that by (subst unat_plus_exact) (auto simp: word_le_nat_alt)
  have inc: "\<forall>m n :: u64. m < n \<longrightarrow> n \<le> 100 \<longrightarrow> 1000 + m < 1000 + n"
  proof (intro allI impI)
    fix m n :: u64 assume "m < n" "n \<le> 100"
    then show "1000 + m < 1000 + n" using u [of m] u [of n] by (simp add: word_less_nat_alt word_le_nat_alt)
  qed
  have "reliable_lookup 100 linear_chain"
    by (auto simp: reliable_lookup_def linear_chain_def)
  with nearest_block_is_first [OF honest inc, of 1050 "()"] obtain r
    where run: "nearestBlockByTimestamp 1050 0 100 linear_chain () = (Inr r, ())" by auto
  with nearest_block_is_first [OF honest inc, of 1050 "()"]
  have r: "r \<le> 100" "r = 100 \<or> 1050 \<le> 1000 + r" "\<forall>n < r. 1000 + n < (1050 :: u64)" by auto
  have "unat r = 50"
  proof (rule ccontr)
    assume "unat r \<noteq> 50"
    moreover have "50 \<le> unat r" using r(1,2) u [of r] by (auto simp: word_le_nat_alt)
    ultimately have "(50 :: u64) < r" by (simp add: word_less_nat_alt)
    with r(3) show False by force
  qed
  then have "r = 50" by (simp add: word_eq_unat)
  with run show ?thesis by blast
qed

subsection \<open>Which blocks are looked up\<close>

lemma nearest_cong:
  assumes "\<And>n. n \<le> hi \<Longrightarrow> bt n = bt' n"
  shows "nearestBlockByTimestamp st lo hi bt = nearestBlockByTimestamp st lo hi bt'"
proof -
  have "narrowWindow st bt hi = narrowWindow st bt' hi"
    using assms by (intro ext fun_cong [OF narrow_cong]) auto
  moreover have "binarySearchBlockByTimestamp st a (min b hi) bt
      = binarySearchBlockByTimestamp st a (min b hi) bt'" for a b
    using assms by (intro binary_search_cong) auto
  moreover have "binarySearchBlockByTimestamp st a hi bt = binarySearchBlockByTimestamp st a hi bt'" for a
    using assms by (intro binary_search_cong) auto
  ultimately show ?thesis
    by (cases "lo = 0") (simp_all add: nearestBlockByTimestamp_def bindE_assoc)
qed

text \<open>A search keeps what its lookup keeps.\<close>

lemma binary_search_keeps:
  assumes "\<And>n. keeps I (bt n)"
  shows "keeps I (binarySearchBlockByTimestamp st low high bt)"
  using assms
proof (induction st low high bt rule: binarySearchBlockByTimestamp.induct)
  case (1 st low high bt)
  show ?case
  proof (cases "low < high")
    case True
    with 1 show ?thesis
      unfolding binary_search_step [OF True refl] by (intro keeps_bind triple_if) auto
  qed simp
qed

lemma narrow_keeps:
  assumes "\<And>n. keeps I (bt n)"
  shows "keeps I (narrowWindow st bt sc ct)"
  using assms
proof (induction st bt sc ct rule: narrowWindow.induct)
  case (1 st bt sc ct)
  consider (stop) "\<not> st < ct" | (floor) "st < ct" "sc < searchWindowBlocks"
    | (step) "st < ct" "searchWindowBlocks \<le> sc" by fastforce
  then show ?case
  proof cases
    case step
    then have "\<not> sc < searchWindowBlocks" by simp
    with step 1 show ?thesis by (auto simp: narrow_step intro: keeps_bind)
  qed (auto simp: narrow_floor narrow_stop)
qed

lemma nearest_keeps:
  assumes "\<And>n. keeps I (bt n)"
  shows "keeps I (nearestBlockByTimestamp st lo hi bt)"
  unfolding nearestBlockByTimestamp_def
  by (intro keeps_bind triple_if keeps_wrap narrow_keeps assms triple_ret)
     (auto intro!: keeps_wrap binary_search_keeps assms split: prod.splits)

text \<open>
  A search never looks up a block above its end block: whatever the chain answers for
  other numbers (an error, as for a number that wrapped below zero, included), the search
  returns the same result and has the same effects. Neither the descent by windows nor the
  window's upper end wraps around.
\<close>

theorem search_stays_in_chain:
  assumes "\<forall>n. n \<le> endBlock \<longrightarrow> bt n = bt' n"
  shows "nearestBlockByTimestamp st startBlock endBlock bt
       = nearestBlockByTimestamp st startBlock endBlock bt'"
  using assms by (intro nearest_cong) auto

theorem search_stays_in_chain_witness:
  "nearestBlockByTimestamp 1050 0 100 linear_chain
   = nearestBlockByTimestamp 1050 0 100 (\<lambda>n. ret (1000 + n))"
  by (rule search_stays_in_chain) (auto simp: linear_chain_def)

text \<open>
  C31: with equal timestamps the block returned need not be the first one: over a chain whose
  blocks 0 to 10 all have timestamp 5, the search for timestamp 5 from start block 0 returns
  block 5, where a window ended, although block 0 has timestamp 5.
\<close>

theorem equal_timestamps_not_first:
  "\<exists>t. ascending_upto 432005 t \<and>
     nearestBlockByTimestamp 5 0 432005 (\<lambda>n. ret (t n)) () = (Inr 5, ()) \<and> t 0 = 5"
proof -
  define t :: "u64 \<Rightarrow> u64" where "t = (\<lambda>n. if n \<le> 10 then 5 else n)"
  have asc: "ascending_upto 432005 t"
    by (auto simp: ascending_upto_def t_def word_le_nat_alt)
  have "narrowWindow 5 (\<lambda>n. ret (t n)) 432005 (- 1) () = (Inr 5, ())"
    by (subst narrow_step) (simp_all add: searchWindowBlocks_def narrow_stop t_def)
  moreover have "binarySearchBlockByTimestamp 5 5 432005 (\<lambda>n. ret (t n)) () = (Inr 5, ())"
  proof -
    have honest: "honest_lookup t 432005 (\<lambda>n. ret (t n))" by (simp add: honest_lookup_def)
    obtain r where r: "binarySearchBlockByTimestamp 5 5 432005 (\<lambda>n. ret (t n)) () = (Inr r, ())"
      using binary_search_reliable [of 432005 "\<lambda>n. ret (t n)" 432005 5 5 "()"]
      by (auto simp: reliable_lookup_def)
    from binary_search_correct [OF r _ _ honest asc]
    have "5 \<le> r" "\<forall>n. 5 \<le> n \<longrightarrow> n < r \<longrightarrow> t n < 5" by auto
    then have "\<not> 5 < r" by (auto simp: t_def)
    with \<open>5 \<le> r\<close> r show ?thesis by simp
  qed
  ultimately have "nearestBlockByTimestamp 5 0 432005 (\<lambda>n. ret (t n)) () = (Inr 5, ())"
    by (simp add: nearestBlockByTimestamp_def bindE_Inr_iff wrapE_Inr_iff searchWindowBlocks_def)
  with asc show ?thesis by (intro exI [of _ t]) (simp add: t_def)
qed

end
