(* ===== verification/Fsp_Startup.thy ===== *)
theory Fsp_Startup
  imports Contracts Fsp_Epochs Index_Loops Block_Search
begin

text \<open>
  The start of the FSP mode, \<^verbatim>\<open>internal/fsp/startup.go\<close>, \<^verbatim>\<open>internal/fsp/backfill_events.go\<close> and
  \<^verbatim>\<open>internal/fsp/fsp_resolver.go\<close>: which blocks are indexed in full, the backfill of reward-epoch
  events below them, and the catchup. The generated \<^verbatim>\<open>FlareSystemsManager\<close> binding is the
  parameter \<open>new_fsm\<close>, the binding of the contract registry the parameter \<open>registry\<close>, and
  \<open>defaults\<close> is the list \<^verbatim>\<open>FspRewardEpochLogs()\<close>. Logging and times are left out.
\<close>

definition fspFsmContractName :: string where "fspFsmContractName = ''FlareSystemsManager''"

definition fspTxLookbackSeconds :: u64 where "fspTxLookbackSeconds = 60 * 60"

type_synonym 'x fsm_binding = "address \<Rightarrow> 'x client \<Rightarrow> go_error + 'x fsmReader"

subsection \<open>The first block that is indexed in full\<close>

definition findStartBlockByLookback :: "'x engine \<Rightarrow> u64 \<Rightarrow> u64 \<Rightarrow> ('x, u64) io" where
  "findStartBlockByLookback ci baseTimestamp endBlockNumber =
     (if endBlockNumber = 0 then ret 0
      else GetNearestBlockByTimestampFromChain (saturatingSub baseTimestamp fspTxLookbackSeconds)
             (e_client ci) 0 endBlockNumber)"

definition resolveFullStartBlock ::
  "'x deps \<Rightarrow> 'x engine \<Rightarrow> 'x fsmReader \<Rightarrow> u64 \<Rightarrow> u64 \<Rightarrow> ('x, u64 \<times> u64) io" where
  "resolveFullStartBlock D ci fsm latestConfirmedNumber latestConfirmedTimestamp =
     bindE (fspCurrentEpochID fsm) (\<lambda>currentEpochID.
     let from_tip =
       bindE (wrapE ''find FSP catchup start block by timestamp''
                (findStartBlockByLookback ci latestConfirmedTimestamp latestConfirmedNumber)) (\<lambda>startBlock.
         ret (startBlock, currentEpochID))
     in
       if HistoryEpochs (params ci) = 0 then from_tip
       else
         let desiredEpochID = historyStartEpochID currentEpochID (HistoryEpochs (params ci)) in
         bindE (resolveStartEpoch (loop_fuel D) fsm desiredEpochID currentEpochID) (\<lambda>start.
           case start of
             None \<Rightarrow> from_tip
           | Some (startEpochID, info) \<Rightarrow>
               let epochStartBlock = RewardEpochStartBlock info in
               if latestConfirmedNumber < epochStartBlock then ret (latestConfirmedNumber, startEpochID)
               else
                 bindE (wrapE ''find start block from epoch with lookback''
                          (findStartBlockByLookback ci (RewardEpochStartTs info) epochStartBlock)) (\<lambda>startBlock.
                   ret (startBlock, startEpochID))))"

subsection \<open>The addresses and topics of the event backfill\<close>

text \<open>The sets of seen values hold what the lists hold.\<close>

definition add_unseen :: "'a \<Rightarrow> 'a list \<Rightarrow> 'a list" where
  "add_unseen x xs = (if x \<in> set xs then xs else xs @ [x])"

definition resolve_fsp_log ::
  "common_lib \<Rightarrow> 'x registry \<Rightarrow> address list \<times> hash list \<Rightarrow> LogInfo \<Rightarrow> ('x world, address list \<times> hash list) io" where
  "resolve_fsp_log L registry acc logInfo =
     (let (logAddresses, logTopics) = acc; contractName = TrimSpace (LogContractName logInfo) in
      if contractName = '''' then ret (logAddresses, logTopics)
      else
        bindE (ResolveAllByName L registry contractName) (\<lambda>addresses.
          let logAddresses = fold add_unseen addresses logAddresses; topic = TrimSpace (LogTopic logInfo) in
          if topic = '''' \<or> EqualFold topic undefined_word then ret (logAddresses, logTopics)
          else
            let topic = (if HasPrefix topic ''0x'' then topic else ''0x'' @ topic) in
            ret (logAddresses, add_unseen (HexToHash L (ToLower topic)) logTopics)))"

definition resolveFspContractAddresses ::
  "common_lib \<Rightarrow> 'x registry \<Rightarrow> LogInfo list \<Rightarrow> ('x world, address list \<times> hash list) io" where
  "resolveFspContractAddresses L registry defaultFspLogs =
     foldE (resolve_fsp_log L registry) ([], []) defaultFspLogs"

subsection \<open>The event backfill\<close>

definition fetchEventRangeLogsChunk ::
  "'x deps \<Rightarrow> 'x engine \<Rightarrow> u64 \<Rightarrow> u64 \<Rightarrow> address list \<Rightarrow> hash list \<Rightarrow> ('x, ext_log list) io" where
  "fetchEventRangeLogsChunk D ci fromBlock toBlock logAddresses logTopics =
     RetryWithMaxElapsed (retry_logs D) (max_elapsed D)
       (FilterLogs (e_client ci)
          \<lparr>fq_from = uint fromBlock, fq_to = uint toBlock, fq_addresses = logAddresses,
           fq_topics = (if logTopics \<noteq> [] then [logTopics] else [])\<rparr>)"

text \<open>One round of the loop of \<^verbatim>\<open>buildDBLogs\<close>, with the map of block timestamps.\<close>

definition build_db_log ::
  "'x deps \<Rightarrow> 'x engine \<Rightarrow> db_log list \<times> (u64 \<Rightarrow> u64 option) \<Rightarrow> ext_log \<Rightarrow>
   ('x, db_log list \<times> (u64 \<Rightarrow> u64 option)) io" where
  "build_db_log D ci acc log =
     (let (dbLogs, blockTimestamps) = acc in
      bindE (case blockTimestamps (lg_block_number log) of
          Some ts \<Rightarrow> ret (ts, blockTimestamps)
        | None \<Rightarrow> bindE (FetchBlockTimestamp D ci (lg_block_number log)) (\<lambda>ts.
                    ret (ts, blockTimestamps(lg_block_number log \<mapsto> ts)))) (\<lambda>(ts, blockTimestamps).
        ret (dbLogs @ [BuildDBLogFromRequestedLog (lib D) log ts], blockTimestamps)))"

definition buildDBLogs :: "'x deps \<Rightarrow> 'x engine \<Rightarrow> ext_log list \<Rightarrow> ('x, db_log list) io" where
  "buildDBLogs D ci logs =
     bindE (foldE (build_db_log D ci) ([], \<lambda>_. None) logs) (\<lambda>(dbLogs, _). ret dbLogs)"

definition saveLogs :: "'x engine \<Rightarrow> db_log list \<Rightarrow> ('x, unit) io" where
  "saveLogs ci logs =
     (if logs = [] then ret ()
      else s_transaction (e_db ci) (s_insert_logs (e_db ci) DBTransactionBatchesSize logs))"

definition backfill_chunk ::
  "'x deps \<Rightarrow> 'x engine \<Rightarrow> u64 \<Rightarrow> u64 \<Rightarrow> address list \<Rightarrow> hash list \<Rightarrow> ('x, unit) io" where
  "backfill_chunk D ci blockStart blockEnd logAddresses logTopics =
     bindE (fetchEventRangeLogsChunk D ci blockStart blockEnd logAddresses logTopics) (\<lambda>logs.
       if logs = [] then ret ()
       else bindE (buildDBLogs D ci logs) (saveLogs ci))"

primrec backfillFspEventLogs_from ::
  "nat \<Rightarrow> 'x deps \<Rightarrow> 'x engine \<Rightarrow> u64 \<Rightarrow> u64 \<Rightarrow> u64 \<Rightarrow> address list \<Rightarrow> hash list \<Rightarrow> ('x, unit) io" where
  "backfillFspEventLogs_from 0 D ci chunkRange blockStart toBlock logAddresses logTopics = throw OutOfFuel"
| "backfillFspEventLogs_from (Suc n) D ci chunkRange blockStart toBlock logAddresses logTopics =
     (if blockStart \<le> toBlock then
        let blockEnd = min (blockStart + chunkRange - 1) toBlock in
        bindE (backfill_chunk D ci blockStart blockEnd logAddresses logTopics) (\<lambda>_.
          backfillFspEventLogs_from n D ci chunkRange (blockStart + chunkRange) toBlock logAddresses logTopics)
      else ret ())"

definition backfillFspEventLogs ::
  "'x deps \<Rightarrow> 'x engine \<Rightarrow> u64 \<Rightarrow> u64 \<Rightarrow> address list \<Rightarrow> hash list \<Rightarrow> ('x, unit) io" where
  "backfillFspEventLogs D ci fromBlock toBlock logAddresses logTopics =
     (let chunkRange = (if LogRange (params ci) = 0 then 1 else LogRange (params ci)) in
      backfillFspEventLogs_from (loop_fuel D) D ci chunkRange fromBlock toBlock logAddresses logTopics)"

subsection \<open>Startup\<close>

text \<open>A missing row reads as the zero state.\<close>

definition state_in :: "(state_name \<Rightarrow> state_row option) \<Rightarrow> state_name \<Rightarrow> state_row" where
  "state_in states n = (case states n of None \<Rightarrow> zero_state | Some r \<Rightarrow> r)"

definition catchup_from :: "(state_name \<Rightarrow> state_row option) \<Rightarrow> u64 \<Rightarrow> u64" where
  "catchup_from states fullStartBlock =
     (let firstDb = state_in states BlockFloor; lastDb = state_in states LastIndexed in
      if IsSet firstDb \<and> IsSet lastDb \<and> Index firstDb \<le> fullStartBlock \<and> fullStartBlock \<le> Index lastDb
      then Index lastDb + 1 else fullStartBlock)"

text \<open>The anchor is \<open>None\<close> when \<^verbatim>\<open>haveEventAnchor\<close> is false.\<close>

definition backfill_from :: "(state_name \<Rightarrow> state_row option) \<Rightarrow> u64 option \<Rightarrow> u64 \<Rightarrow> u64 option" where
  "backfill_from states anchor fullStartBlock =
     (case anchor of
        None \<Rightarrow> None
      | Some eventStartBlock \<Rightarrow>
          let firstFspEvent = state_in states LogFloor in
          if eventStartBlock < fullStartBlock \<and> (\<not> IsSet firstFspEvent \<or> eventStartBlock < Index firstFspEvent)
          then Some eventStartBlock else None)"

definition backfill_events ::
  "'x deps \<Rightarrow> 'x engine \<Rightarrow> 'x registry \<Rightarrow> LogInfo list \<Rightarrow> u64 \<Rightarrow> u64 \<Rightarrow> ('x world, unit) io" where
  "backfill_events D ci registry defaults eventStartBlock fullStartBlock =
     bindE (resolveFspContractAddresses (lib D) registry defaults) (\<lambda>(logAddresses, logTopics).
     bindE (wrapE ''backfill FSP events''
              (liftX (backfillFspEventLogs D ci eventStartBlock (fullStartBlock - 1) logAddresses logTopics))) (\<lambda>_.
     bindE (wrapE ''fetch FSP event-start timestamp''
              (liftX (FetchBlockTimestamp D ci eventStartBlock))) (\<lambda>eventStartTimestamp.
       wrapE ''set first FSP event index state''
         (liftX (UpdateState (e_db ci) LogFloor eventStartBlock eventStartTimestamp)))))"

text \<open>
  The plan: the confirmed tip, the first block of the full window, the anchor of the events and
  the states of the database.
\<close>

definition startup_plan ::
  "'x deps \<Rightarrow> 'x engine \<Rightarrow> 'x registry \<Rightarrow> 'x fsm_binding \<Rightarrow>
   ('x world, u64 \<times> u64 \<times> u64 option \<times> (state_name \<Rightarrow> state_row option)) io" where
  "startup_plan D ci registry new_fsm =
     bindE (wrapE ''ci.FetchLastBlockIndex'' (liftX (FetchLastBlockIndex D ci))) (\<lambda>(latestConfirmedNumber, latestConfirmedTimestamp).
     bindE (ResolveByName registry fspFsmContractName) (\<lambda>fsmAddress.
     bindE (wrapE ''bind FlareSystemsManager caller'' (liftR (new_fsm fsmAddress (e_client ci)))) (\<lambda>fsmCaller.
     bindE (liftX (resolveFullStartBlock D ci fsmCaller latestConfirmedNumber latestConfirmedTimestamp)) (\<lambda>(fullStartBlock, startEpochID).
     bindE (wrapE ''compute FSP event backfill start''
              (liftX (fspEventBackfillAnchor (loop_fuel D) fsmCaller startEpochID))) (\<lambda>anchor.
     bindE (wrapE ''database.GetStates'' (liftX (GetStates (e_db ci) [BlockFloor, LastIndexed, LogFloor]))) (\<lambda>states.
       ret (latestConfirmedNumber, fullStartBlock, anchor, states)))))))"

definition IndexStartup ::
  "'x deps \<Rightarrow> 'x engine \<Rightarrow> 'x registry \<Rightarrow> 'x fsm_binding \<Rightarrow> LogInfo list \<Rightarrow> ('x world, u64) io" where
  "IndexStartup D ci registry new_fsm defaults =
     bindE (startup_plan D ci registry new_fsm) (\<lambda>(latestConfirmedNumber, fullStartBlock, anchor, states).
     let catchupFromBlock = catchup_from states fullStartBlock in
     bindE (case backfill_from states anchor fullStartBlock of
         None \<Rightarrow> ret ()
       | Some eventStartBlock \<Rightarrow> backfill_events D ci registry defaults eventStartBlock fullStartBlock) (\<lambda>_.
       if catchupFromBlock \<le> latestConfirmedNumber
       then wrapE ''backfill FSP catchup range'' (IndexHistory D ci catchupFromBlock)
       else ret latestConfirmedNumber))"

subsection \<open>The window of full blocks\<close>

text \<open>The time below which blocks are left out, and the blocks from \<open>s\<close> on hold all later ones.\<close>

definition lookback_window :: "(nat \<Rightarrow> ext_block) \<Rightarrow> u64 \<Rightarrow> u64 \<Rightarrow> u64 \<Rightarrow> bool" where
  "lookback_window chain base endBlock s \<longleftrightarrow>
     s \<le> endBlock \<and>
     (\<forall>k < s. unat (bk_time (chain (unat k))) \<le> unat base - 3600) \<and>
     (s = endBlock \<or> unat base - 3600 \<le> unat (bk_time (chain (unat s))))"

context indexer
begin

lemma blockTimestampByNumber_honest:
  "honest_lookup (\<lambda>n. bk_time (chain (unat n))) hi (blockTimestampByNumber (e_client ci))"
proof -
  have "bk = bk_time (chain (unat n))" if "blockTimestampByNumber (e_client ci) n s = (Inr bk, s')" for n bk s s'
  proof -
    from that obtain b where b: "BlockByNumber (e_client ci) (Some (int (unat n))) s = (Inr b, s')" "bk = Block_Time b"
      by (auto simp: blockTimestampByNumber_def bindE_Inr_iff)
    from untag_reads [OF BlockByNumber_chain [OF b(1)]] b(2) show ?thesis by simp
  qed
  then show ?thesis by (auto simp: honest_lookup_def)
qed

lemma findStartBlockByLookback_window:
  assumes run: "findStartBlockByLookback ci base endBlock x = (Inr s, x')"
    and asc: "ascending_upto endBlock (\<lambda>n. bk_time (chain (unat n)))"
  shows "lookback_window chain base endBlock s"
proof (cases "endBlock = 0")
  case True
  with run show ?thesis by (simp add: findStartBlockByLookback_def lookback_window_def)
next
  case False
  let ?st = "saturatingSub base fspTxLookbackSeconds" and ?t = "\<lambda>n. bk_time (chain (unat n))"
  have st: "unat ?st = unat base - 3600" by (simp add: unat_saturatingSub fspTxLookbackSeconds_def)
  from run False have "nearestBlockByTimestamp ?st 0 endBlock (blockTimestampByNumber (e_client ci)) x = (Inr s, x')"
    by (simp add: findStartBlockByLookback_def GetNearestBlockByTimestampFromChain_def)
  from nearest_block_weak [OF this blockTimestampByNumber_honest asc] obtain c where
    s: "s \<le> endBlock" "s = endBlock \<or> ?st \<le> ?t s"
    and c: "c = 0 \<or> ?t c \<le> ?st" "c \<le> s" "\<forall>n. c \<le> n \<longrightarrow> n < s \<longrightarrow> ?t n < ?st" by blast
  have "?t k \<le> ?st" if "k < s" for k
  proof (cases "c \<le> k")
    case True
    with c(3) that show ?thesis by (simp add: order.strict_implies_order)
  next
    case False
    then have "k \<le> c" "c \<noteq> 0" by auto
    moreover have "c \<le> endBlock" using c(2) s(1) by simp
    ultimately have "?t k \<le> ?t c" using asc by (simp add: ascending_upto_def)
    with c(1) \<open>c \<noteq> 0\<close> show ?thesis by simp
  qed
  with s st show ?thesis by (simp add: lookback_window_def word_le_nat_alt)
qed

end

context indexer
begin

lemma findStartBlockByLookback_keeps: "keeps (\<lambda>x. tabs x = v) (findStartBlockByLookback ci base e)"
  unfolding findStartBlockByLookback_def GetNearestBlockByTimestampFromChain_def blockTimestampByNumber_def
  by (intro triple_if triple_ret nearest_keeps keeps_bind client_keeps_view)

end

text \<open>
  The interface of the FSP start: indexing as before, with a registry that does not touch the
  tables, and a binding of the \<^verbatim>\<open>FlareSystemsManager\<close> that does not either; \<open>fsp_start\<close>: it reads
  what the contract has recorded.
\<close>

locale fsp_host = indexing D ci chain logs_at receipt_of tabs
  for D :: "'x deps" and ci :: "'x engine" and chain logs_at receipt_of and tabs :: "'x \<Rightarrow> tables" +
  fixes registry :: "'x registry" and new_fsm :: "'x fsm_binding"
  assumes registry_keeps: "keeps (\<lambda>x. tabs x = v) (registry name)"
    and binding_keeps: "new_fsm a c = Inr fsm \<Longrightarrow> fsm_reader fsm tabs"
begin

lemma resolveFullStartBlock_keeps:
  assumes "fsm_reader fsm tabs"
  shows "keeps (\<lambda>x. tabs x = v) (resolveFullStartBlock D ci fsm n t)"
  unfolding resolveFullStartBlock_def Let_def fspCurrentEpochID_def
  by (intro keeps_bind keeps_wrap triple_if triple_ret triple_throw findStartBlockByLookback_keeps
      fsm_reader.fsm_keeps [OF assms] fsm_reader.resolveStartEpoch_keeps [OF assms]
      | simp add: triple_ret triple_throw split: option.splits
      | rule conjI allI impI)+

lemma fspEventBackfillAnchor_keeps:
  assumes "fsm_reader fsm tabs"
  shows "keeps (\<lambda>x. tabs x = v) (fspEventBackfillAnchor n fsm e)"
  unfolding fspEventBackfillAnchor_def
  by (intro keeps_bind fsm_reader.fspEventAnchor_keeps [OF assms])
     (simp add: triple_ret split: option.splits)

lemma ResolveByName_keeps: "keeps (\<lambda>w. tabs (ext w) = v) (ResolveByName registry n)"
  by (rule ResolveByName_keeps_tabs) (rule registry_keeps)

lemma resolveFspContractAddresses_keeps:
  "keeps (\<lambda>w. tabs (ext w) = v) (resolveFspContractAddresses (lib D) registry defaults)"
  unfolding resolveFspContractAddresses_def resolve_fsp_log_def ResolveAllByName_def Let_def
  by (intro keeps_foldE) (auto intro!: triple_if keeps_bind ResolveByName_keeps triple_ret split: prod.splits)

end

locale fsp_start = fsp_host D ci chain logs_at receipt_of tabs registry new_fsm
  for D :: "'x deps" and ci :: "'x engine" and chain logs_at receipt_of and tabs :: "'x \<Rightarrow> tables"
    and registry :: "'x registry" and new_fsm :: "'x fsm_binding" +
  fixes starts :: "u64 \<Rightarrow> rewardEpochStartInfo" and randoms :: "u64 \<Rightarrow> randomAcquisitionInfo" and current :: u64
  assumes binding_law: "new_fsm a c = Inr fsm \<Longrightarrow> fsm_records fsm starts randoms current tabs"

text \<open>
  What the full window is, for a confirmed tip \<open>tip\<close> at time \<open>tip_time\<close>: it reaches an hour below
  the tip when no past epochs are wanted, or none has start data; else an hour below the start
  of the first recorded epoch of the wanted window (only the tip when that starts above it).
\<close>

definition full_window ::
  "(nat \<Rightarrow> ext_block) \<Rightarrow> (u64 \<Rightarrow> rewardEpochStartInfo) \<Rightarrow> u64 \<Rightarrow> u64 \<Rightarrow> u64 \<Rightarrow> u64 \<Rightarrow> u64 \<Rightarrow> u64 \<Rightarrow> bool" where
  "full_window chain starts current historyEpochs tip tip_time s e \<longleftrightarrow>
     (let w = historyStartEpochID current historyEpochs in
      if historyEpochs = 0 \<or> none_started starts w current
      then e = current \<and> lookback_window chain tip_time tip s
      else first_started starts w current e \<and>
        (if tip < RewardEpochStartBlock (starts e) then s = tip
         else lookback_window chain (RewardEpochStartTs (starts e)) (RewardEpochStartBlock (starts e)) s))"

lemma full_window_le: "full_window chain starts current h tip t s e \<Longrightarrow> s \<le> tip"
  by (auto simp: full_window_def Let_def lookback_window_def split: if_splits)

lemma ascending_upto_le: "ascending_upto hi t \<Longrightarrow> lo \<le> hi \<Longrightarrow> ascending_upto lo t"
  by (auto simp: ascending_upto_def)

lemma first_not_none: "first_started starts lo hi e \<Longrightarrow> \<not> none_started starts lo hi"
  by (auto simp: first_started_def none_started_def)

context indexer
begin

lemma from_tip_Inr:
  "bindE (wrapE msg (findStartBlockByLookback ci t n)) (\<lambda>s. ret (s, c)) x = (Inr (s', e), x') \<longleftrightarrow>
     findStartBlockByLookback ci t n x = (Inr s', x') \<and> e = c"
  by (auto simp: bindE_Inr_iff wrapE_Inr_iff)

lemma resolveFullStartBlock_window:
  assumes fsm: "fsm_records fsm starts randoms current tabs"
    and cur: "unat current < 18446744073709551615"
    and fuel: "unat (HistoryEpochs (params ci)) + 2 \<le> loop_fuel D"
    and asc: "ascending_upto n (\<lambda>n. bk_time (chain (unat n)))"
    and run: "resolveFullStartBlock D ci fsm n t x = (Inr (s, e), x')"
  shows "full_window chain starts current (HistoryEpochs (params ci)) n t s e"
proof -
  let ?h = "HistoryEpochs (params ci)"
  let ?w = "historyStartEpochID current ?h"
  from run obtain c x1 where "fspCurrentEpochID fsm x = (Inr c, x1)"
    by (auto simp: resolveFullStartBlock_def bindE_Inr_iff [of "fspCurrentEpochID _"])
  with run fspCurrentEpochID_Inr [OF fsm] obtain x1 where
    rest: "(if ?h = 0 then bindE (wrapE ''find FSP catchup start block by timestamp''
                (findStartBlockByLookback ci t n)) (\<lambda>startBlock. ret (startBlock, current))
       else bindE (resolveStartEpoch (loop_fuel D) fsm ?w current) (\<lambda>start.
           case start of
             None \<Rightarrow> bindE (wrapE ''find FSP catchup start block by timestamp''
                (findStartBlockByLookback ci t n)) (\<lambda>startBlock. ret (startBlock, current))
           | Some (startEpochID, info) \<Rightarrow>
               if n < RewardEpochStartBlock info then ret (n, startEpochID)
               else
                 bindE (wrapE ''find start block from epoch with lookback''
                          (findStartBlockByLookback ci (RewardEpochStartTs info) (RewardEpochStartBlock info))) (\<lambda>startBlock.
                   ret (startBlock, startEpochID)))) x1 = (Inr (s, e), x')"
    by (fastforce simp: resolveFullStartBlock_def Let_def bindE_run_Inr)
  show ?thesis
  proof (cases "?h = 0")
    case True
    with rest findStartBlockByLookback_window [OF _ asc, of t x1 s x'] show ?thesis
      by (simp add: from_tip_Inr full_window_def)
  next
    case False
    with rest obtain start x2 where st: "resolveStartEpoch (loop_fuel D) fsm ?w current x1 = (Inr start, x2)"
      by (auto simp: bindE_Inr_iff [of "resolveStartEpoch _ _ _ _"])
    have "unat current + 2 \<le> unat ?w + loop_fuel D" "0 < loop_fuel D"
      using fuel by (auto simp: history_window_nat)
    note spec = fsm_records.resolveStartEpoch_spec [OF fsm st cur this]
    show ?thesis
    proof (cases start)
      case None
      with rest st False have "findStartBlockByLookback ci t n x2 = (Inr s, x')" "e = current"
        by (simp_all add: bindE_run_Inr from_tip_Inr)
      with spec None findStartBlockByLookback_window [OF _ asc, of t x2 s x'] show ?thesis
        by (simp add: full_window_def)
    next
      case (Some ei)
      obtain e0 info where ei: "ei = (e0, info)" by force
      with spec Some have f: "first_started starts ?w current e0" "info = starts e0" by auto
      have "e = e0 \<and> (if n < RewardEpochStartBlock info then s = n
         else lookback_window chain (RewardEpochStartTs info) (RewardEpochStartBlock info) s)"
        using rest st False Some ei
          findStartBlockByLookback_window [OF _ ascending_upto_le [OF asc], of "RewardEpochStartTs info" "RewardEpochStartBlock info"]
        by (auto simp: bindE_run_Inr from_tip_Inr not_less split: if_splits)
      with f first_not_none [OF f(1)] False show ?thesis by (auto simp: full_window_def)
    qed
  qed
qed

end

subsection \<open>The event backfill\<close>

text \<open>
  What the backfill may do to the tables: rows are added to the logs, nothing else changes.
\<close>

definition only_logs_added :: "tables \<Rightarrow> tables \<Rightarrow> bool" where
  "only_logs_added tb tb' \<longleftrightarrow>
     tb_states tb' = tb_states tb \<and> tb_blocks tb' = tb_blocks tb \<and> tb_txs tb' = tb_txs tb \<and>
     set (tb_logs tb) \<subseteq> set (tb_logs tb')"

lemma only_logs_refl [simp]: "only_logs_added tb tb"
  by (simp add: only_logs_added_def)

lemma only_logs_trans: "only_logs_added a b \<Longrightarrow> only_logs_added b c \<Longrightarrow> only_logs_added a c"
  by (auto simp: only_logs_added_def)

lemma fold_ins_log_only: "only_logs_added tb (fold ins_log ls tb)"
  using fold_ins_log_mono [of tb ls] by (simp add: only_logs_added_def)

text \<open>A row that refers to no transaction gets its key into the table.\<close>

lemma ins_log_key:
  "l_transaction_id r = 0 \<Longrightarrow> log_key r \<in> log_key ` set (tb_logs (ins_log r tb))"
  by (auto simp: ins_log_def)

lemma fold_ins_log_keys:
  "r \<in> set ls \<Longrightarrow> l_transaction_id r = 0 \<Longrightarrow> log_key r \<in> log_key ` set (tb_logs (fold ins_log ls tb))"
proof (induction ls arbitrary: tb)
  case (Cons l ls)
  show ?case
  proof (cases "r = l")
    case True
    then have "log_key r \<in> log_key ` set (tb_logs (ins_log l tb))" using Cons.prems(2) by (simp add: ins_log_key)
    then show ?thesis using fold_ins_log_mono [of "ins_log l tb" ls] by auto
  next
    case False
    with Cons show ?thesis by simp
  qed
qed simp

text \<open>The filter of the backfill, and the row of a log of the chain.\<close>

definition fsp_filter :: "address list \<Rightarrow> hash list \<Rightarrow> ext_log \<Rightarrow> bool" where
  "fsp_filter addresses topics l \<longleftrightarrow>
     (addresses = [] \<or> lg_address l \<in> set addresses) \<and>
     (topics = [] \<or> (\<exists>t ts. lg_topics l = t # ts \<and> t \<in> set topics))"

definition event_row :: "common_lib \<Rightarrow> (nat \<Rightarrow> ext_block) \<Rightarrow> ext_log \<Rightarrow> db_log" where
  "event_row L chain l = BuildDBLogFromRequestedLog L l (bk_time (chain (unat (lg_block_number l))))"

lemma fsp_filter_query:
  "query_matches \<lparr>fq_from = f, fq_to = t, fq_addresses = addresses,
      fq_topics = (if topics \<noteq> [] then [topics] else [])\<rparr> l \<longleftrightarrow> fsp_filter addresses topics l"
  by (cases "lg_topics l") (auto simp: query_matches_def fsp_filter_def)

context indexer
begin

lemma fetchEventRangeLogsChunk_Inr:
  assumes "fetchEventRangeLogsChunk D ci f t addresses topics x = (Inr ls, x')"
  shows "ls = logs_between logs_at (fsp_filter addresses topics) (unat f) (Suc (unat t))"
proof -
  from rl.retried_read(2) [OF client_keeps_view(4) assms [unfolded fetchEventRangeLogsChunk_def]]
  obtain x0 x1 where "FilterLogs (e_client ci) \<lparr>fq_from = uint f, fq_to = uint t, fq_addresses = addresses,
      fq_topics = (if topics \<noteq> [] then [topics] else [])\<rparr> x0 = (Inr ls, x1)" by blast
  from FilterLogs_chain [OF this, of "unat f" "unat t"] show ?thesis
    by (simp add: fsp_filter_query [abs_def])
qed

lemma fetchEventRangeLogsChunk_keeps: "keeps (\<lambda>x. tabs x = v) (fetchEventRangeLogsChunk D ci f t as ts)"
  unfolding fetchEventRangeLogsChunk_def by (intro rl.RetryWithMaxElapsed_triple client_keeps_view)

lemma fetchBlockTimestamp_Inr:
  "fetchBlockTimestamp D ci n x = (Inr ts, x') \<Longrightarrow> ts = bk_time (chain (unat n))"
  using fetchBlockHeader_chain by (auto simp: fetchBlockTimestamp_def bindE_Inr_iff wrapE_Inr_iff)

lemma fetchBlockTimestamp_keeps: "keeps (\<lambda>x. tabs x = v) (fetchBlockTimestamp D ci n)"
  unfolding fetchBlockTimestamp_def by (intro keeps_bind keeps_wrap fetchBlockHeader_keeps triple_ret)

lemma buildDBLogs_keeps: "keeps (\<lambda>x. tabs x = v) (buildDBLogs D ci logs)"
  unfolding buildDBLogs_def build_db_log_def FetchBlockTimestamp_def Let_def
  by (intro keeps_bind keeps_foldE)
     (auto intro!: keeps_bind fetchBlockTimestamp_keeps triple_ret split: prod.splits option.splits)

text \<open>Each log becomes its row, with the time of its block, asked for once per block.\<close>

lemma build_db_log_Inr:
  assumes "build_db_log D ci (rows, m) l x = (Inr (rows', m'), x')"
    and "\<forall>n ts. m n = Some ts \<longrightarrow> ts = bk_time (chain (unat n))"
  shows "rows' = rows @ [event_row (lib D) chain l] \<and> (\<forall>n ts. m' n = Some ts \<longrightarrow> ts = bk_time (chain (unat n)))"
  using assms
  by (auto simp: build_db_log_def event_row_def bindE_Inr_iff split: option.splits if_splits
      dest!: fetchBlockTimestamp_Inr)

lemma buildDBLogs_Inr:
  assumes "buildDBLogs D ci logs x = (Inr rows, x')"
  shows "rows = map (event_row (lib D) chain) logs"
proof -
  have "rows' = rows0 @ map (event_row (lib D) chain) logs"
    if "foldE (build_db_log D ci) (rows0, m) logs x = (Inr (rows', m'), x')"
      "\<forall>n ts. m n = Some ts \<longrightarrow> ts = bk_time (chain (unat n))" for rows0 m rows' m' x
    using that
  proof (induction logs arbitrary: rows0 m x)
    case (Cons l logs)
    then obtain r1 m1 x1 where "build_db_log D ci (rows0, m) l x = (Inr (r1, m1), x1)"
      and "foldE (build_db_log D ci) (r1, m1) logs x1 = (Inr (rows', m'), x')"
      by (auto simp: bindE_Inr_iff)
    with Cons.IH build_db_log_Inr [OF _ Cons.prems(2)] show ?case by fastforce
  qed simp
  with assms show ?thesis by (fastforce simp: buildDBLogs_def bindE_Inr_iff)
qed

lemma saveLogs_writes: "writes tabs (fold ins_log ls) (saveLogs ci ls)"
  unfolding writes_def
proof (intro allI impI)
  fix x r x' assume run: "saveLogs ci ls x = (r, x')"
  show "tabs x' = fold ins_log ls (tabs x) \<or> tabs x' = tabs x \<and> (\<exists>e. r = Inl e)"
  proof (cases "ls = []")
    case False
    with run have "s_transaction (e_db ci) (s_insert_logs (e_db ci) DBTransactionBatchesSize ls) x = (r, x')"
      by (simp add: saveLogs_def)
    from transaction_law [OF this] writes_Inr [OF insert_logs_law] show ?thesis by fastforce
  qed (use run in \<open>simp add: saveLogs_def\<close>)
qed

end

definition events_stored ::
  "common_lib \<Rightarrow> (nat \<Rightarrow> ext_block) \<Rightarrow> (nat \<Rightarrow> ext_log list) \<Rightarrow> (ext_log \<Rightarrow> bool) \<Rightarrow> nat \<Rightarrow> nat \<Rightarrow> tables \<Rightarrow> bool" where
  "events_stored L chain logs_at P lo hi tb \<longleftrightarrow>
     (\<forall>l \<in> set (logs_between logs_at P lo hi). log_key (event_row L chain l) \<in> log_key ` set (tb_logs tb))"

lemma events_stored_mono:
  "events_stored L chain logs_at P lo hi tb \<Longrightarrow> only_logs_added tb tb' \<Longrightarrow> events_stored L chain logs_at P lo hi tb'"
  by (fastforce simp: events_stored_def only_logs_added_def)

lemma events_stored_join:
  "events_stored L chain logs_at P a b tb \<Longrightarrow> events_stored L chain logs_at P b c tb \<Longrightarrow>
   events_stored L chain logs_at P a c tb"
  unfolding events_stored_def Ball_def logs_between_set by (meson not_le)

lemma events_stored_empty: "hi \<le> lo \<Longrightarrow> events_stored L chain logs_at P lo hi tb"
  by (auto simp: events_stored_def logs_between_set)

lemma event_row_fields [simp]: "l_transaction_id (event_row L chain l) = 0"
  by (simp add: event_row_def)

context indexer
begin

lemma backfill_chunk_outcome:
  assumes run: "backfill_chunk D ci f t as ts x = (r, x')"
  shows "only_logs_added (tabs x) (tabs x') \<and>
    (r = Inr () \<longrightarrow> events_stored (lib D) chain logs_at (fsp_filter as ts) (unat f) (Suc (unat t)) (tabs x'))"
proof -
  let ?g = "\<lambda>x. tabs x"
  show ?thesis
  proof (cases "tabs x' = tabs x \<and> r \<noteq> Inr ()")
    case True
    then show ?thesis by simp
  next
    case False
    obtain logs x1 where f: "fetchEventRangeLogsChunk D ci f t as ts x = (Inr logs, x1)" and t1: "tabs x1 = tabs x"
      and rest: "(if logs = [] then ret () else bindE (buildDBLogs D ci logs) (saveLogs ci)) x1 = (r, x')"
      by (rule keeps_bind_go [where g = tabs, OF fetchEventRangeLogsChunk_keeps run [unfolded backfill_chunk_def] False])
    note logs = fetchEventRangeLogsChunk_Inr [OF f]
    show ?thesis
    proof (cases "logs = []")
      case True
      with rest logs t1 show ?thesis by (simp add: events_stored_def)
    next
      case nonempty: False
      have F1: "\<not> (tabs x' = tabs x1 \<and> r \<noteq> Inr ())" using False t1 by simp
      from nonempty rest have rest1: "bindE (buildDBLogs D ci logs) (saveLogs ci) x1 = (r, x')" by simp
      obtain rows x2 where b: "buildDBLogs D ci logs x1 = (Inr rows, x2)" and t2: "tabs x2 = tabs x1"
        and s: "saveLogs ci rows x2 = (r, x')"
        by (rule keeps_bind_go [where g = tabs, OF buildDBLogs_keeps rest1 F1])
      have rows: "rows = map (event_row (lib D) chain) logs" by (rule buildDBLogs_Inr [OF b])
      have "events_stored (lib D) chain logs_at (fsp_filter as ts) (unat f) (Suc (unat t)) (fold ins_log rows (tabs x))"
        unfolding events_stored_def logs [symmetric] using fold_ins_log_keys by (auto simp: rows)
      with writesD [OF saveLogs_writes s] t1 t2 fold_ins_log_only [of "tabs x" rows] show ?thesis by auto
    qed
  qed
qed

lemma backfill_loop:
  assumes R: "0 < R" "unat to + unat R < 18446744073709551616"
    and "backfillFspEventLogs_from n D ci R i to as ts x = (r, x')"
  shows "only_logs_added (tabs x) (tabs x') \<and>
    (r = Inr () \<longrightarrow> events_stored (lib D) chain logs_at (fsp_filter as ts) (unat i) (Suc (unat to)) (tabs x'))"
  using assms(3)
proof (induction n arbitrary: i x)
  case (Suc n)
  show ?case
  proof (cases "i \<le> to")
    case False
    with Suc.prems show ?thesis by (auto simp: word_le_nat_alt intro!: events_stored_empty)
  next
    case True
    define t where "t = min (i + R - 1) to"
    have le: "unat i \<le> unat to" using True by (simp add: word_le_nat_alt)
    have R': "0 < unat R" using R(1) by (simp add: word_less_nat_alt)
    have iR: "unat (i + R) = unat i + unat R" using le R(2) by (intro unat_plus_exact) linarith
    then have "unat (i + R - 1) = unat i + unat R - 1"
      using R' by (subst unat_minus_exact) (auto simp: word_le_nat_alt)
    then have t: "Suc (unat t) = min (unat (i + R)) (Suc (unat to))"
      using R' iR by (auto simp: t_def min_def word_le_nat_alt)
    obtain r1 x1 where c: "backfill_chunk D ci i t as ts x = (r1, x1)" by force
    note one = backfill_chunk_outcome [OF c]
    show ?thesis
    proof (cases r1)
      case (Inl e)
      with Suc.prems True c one show ?thesis by (auto simp: t_def [symmetric] bindE_run_Inl)
    next
      case (Inr u)
      with Suc.prems True c have "backfillFspEventLogs_from n D ci R (i + R) to as ts x1 = (r, x')"
        by (simp add: t_def [symmetric] bindE_run_Inr)
      from Suc.IH [OF this] have
        rest: "only_logs_added (tabs x1) (tabs x')"
          "r = Inr () \<Longrightarrow> events_stored (lib D) chain logs_at (fsp_filter as ts) (unat (i + R)) (Suc (unat to)) (tabs x')"
        by auto
      have "events_stored (lib D) chain logs_at (fsp_filter as ts) (unat i) (Suc (unat t)) (tabs x')"
        by (rule events_stored_mono [OF _ rest(1)]) (use one Inr in simp)
      moreover have "events_stored (lib D) chain logs_at (fsp_filter as ts) (Suc (unat t)) (Suc (unat to)) (tabs x')"
        if "r = Inr ()"
        using rest(2) [OF that] t by (cases "unat (i + R) \<le> Suc (unat to)") (auto intro: events_stored_empty)
      ultimately show ?thesis using only_logs_trans [OF _ rest(1)] one events_stored_join by blast
    qed
  qed
qed auto

lemma backfill_fuel:
  assumes R: "0 < R" "unat to + unat R < 18446744073709551616"
    and chunk: "\<And>f t x. fst (backfill_chunk D ci f t as ts x) \<noteq> Inl OutOfFuel"
    and "0 < n" "Suc (unat to) - unat i \<le> (n - 1) * unat R"
  shows "fst (backfillFspEventLogs_from n D ci R i to as ts x) \<noteq> Inl OutOfFuel"
  using assms(4,5)
proof (induction n arbitrary: i x)
  case (Suc n)
  show ?case
  proof (cases "i \<le> to")
    case True
    then have le: "unat i \<le> unat to" by (simp add: word_le_nat_alt)
    then have iR: "unat (i + R) = unat i + unat R" using R(2) by (intro unat_plus_exact) linarith
    have n: "0 < n" using Suc.prems(2) le by (cases n) auto
    have "Suc (unat to) - unat (i + R) \<le> (n - 1) * unat R"
      using Suc.prems(2) iR n by (cases n) auto
    with Suc.IH [OF n] chunk True show ?thesis
      by (auto simp: Let_def bindE_def split: prod.splits sum.splits) (metis fst_conv)+
  qed simp
qed simp

end

subsection \<open>The filter of the backfill\<close>

text \<open>The topic of a default collector, when it names one.\<close>

definition fsp_topic :: "common_lib \<Rightarrow> LogInfo \<Rightarrow> hash option" where
  "fsp_topic L logInfo =
     (let topic = TrimSpace (LogTopic logInfo) in
      if topic = '''' \<or> EqualFold topic undefined_word then None
      else Some (HexToHash L (ToLower (if HasPrefix topic ''0x'' then topic else ''0x'' @ topic))))"

lemma set_add_unseen [simp]: "set (add_unseen x xs) = insert x (set xs)"
  by (auto simp: add_unseen_def)

lemma set_fold_add_unseen [simp]: "set (fold add_unseen ys xs) = set ys \<union> set xs"
  by (induction ys arbitrary: xs) auto

text \<open>Every deployment and the topic of a collector are in the filter.\<close>

definition fsp_collected :: "common_lib \<Rightarrow> (string \<Rightarrow> address option) \<Rightarrow> address list \<Rightarrow> hash list \<Rightarrow> LogInfo \<Rightarrow> bool" where
  "fsp_collected L c addresses topics logInfo \<longleftrightarrow>
     TrimSpace (LogContractName logInfo) = '''' \<or>
     (\<exists>a. c (TrimSpace (LogContractName logInfo)) = Some a \<and>
        set (addressesForUpgradedContract L (TrimSpace (LogContractName logInfo)) a) \<subseteq> set addresses \<and>
        (\<forall>t. fsp_topic L logInfo = Some t \<longrightarrow> t \<in> set topics))"

lemma fsp_collected_mono:
  "fsp_collected L c as ts i \<Longrightarrow> c \<subseteq>\<^sub>m d \<Longrightarrow> set as \<subseteq> set as' \<Longrightarrow> set ts \<subseteq> set ts' \<Longrightarrow> fsp_collected L d as' ts' i"
  unfolding fsp_collected_def by (metis (no_types, lifting) domI map_le_def subset_iff)

lemma resolve_fsp_log_Inr:
  assumes "resolve_fsp_log L registry (as, ts) i w = (Inr (as', ts'), w')" "cache_ok (cache w)"
  shows "cache_ok (cache w') \<and> cache w \<subseteq>\<^sub>m cache w' \<and> set as \<subseteq> set as' \<and> set ts \<subseteq> set ts' \<and>
    fsp_collected L (cache w') as' ts' i"
proof (cases "TrimSpace (LogContractName i) = ''''")
  case True
  with assms show ?thesis by (simp add: resolve_fsp_log_def fsp_collected_def)
next
  case False
  with assms(1) obtain a where r: "ResolveByName registry (TrimSpace (LogContractName i)) w = (Inr a, w')"
    and out: "as' = fold add_unseen (addressesForUpgradedContract L (TrimSpace (LogContractName i)) a) as"
      "ts' = (case fsp_topic L i of None \<Rightarrow> ts | Some t \<Rightarrow> add_unseen t ts)"
    by (auto simp: resolve_fsp_log_def ResolveAllByName_def bindE_Inr_iff Let_def fsp_topic_def split: if_splits)
  from ResolveByName_cases [OF r assms(2)] out show ?thesis
    by (auto simp: fsp_collected_def split: option.splits)
qed

lemma resolveFspContractAddresses_Inr:
  assumes "resolveFspContractAddresses L registry defaults w = (Inr (as, ts), w')" "cache_ok (cache w)"
  shows "\<forall>i \<in> set defaults. fsp_collected L (cache w') as ts i"
proof -
  have "cache_ok (cache w') \<and> cache w \<subseteq>\<^sub>m cache w' \<and> set as0 \<subseteq> set as \<and> set ts0 \<subseteq> set ts \<and>
      (\<forall>i \<in> set defaults. fsp_collected L (cache w') as ts i)"
    if "foldE (resolve_fsp_log L registry) (as0, ts0) defaults w = (Inr (as, ts), w')" "cache_ok (cache w)" for as0 ts0
    using that
  proof (induction defaults arbitrary: as0 ts0 w)
    case (Cons i "is")
    then obtain as1 ts1 w1 where one: "resolve_fsp_log L registry (as0, ts0) i w = (Inr (as1, ts1), w1)"
      and rest: "foldE (resolve_fsp_log L registry) (as1, ts1) is w1 = (Inr (as, ts), w')"
      by (auto simp: bindE_Inr_iff)
    note o = resolve_fsp_log_Inr [OF one Cons.prems(2)]
    with Cons.IH [OF rest] have IH: "cache w1 \<subseteq>\<^sub>m cache w'" "set as1 \<subseteq> set as" "set ts1 \<subseteq> set ts"
      "cache_ok (cache w')" "\<forall>i \<in> set is. fsp_collected L (cache w') as ts i" by auto
    with o fsp_collected_mono [of L "cache w1" as1 ts1 i "cache w'" as ts] show ?case
      by (auto intro: map_le_trans)
  qed simp
  with assms show ?thesis unfolding resolveFspContractAddresses_def by blast
qed

subsection \<open>What the backfill of events leaves\<close>

context indexer
begin

text \<open>On every outcome: the floor of the logs moves only when the events are there.\<close>

lemma backfill_events_outcome:
  assumes R: "unat (LogRange (params ci)) \<le> 2 ^ 62" "unat full \<le> 2 ^ 62" "ev < full"
    and reg: "\<And>v. keeps (\<lambda>w. tabs (ext w) = v) (resolveFspContractAddresses (lib D) registry defaults)"
    and run: "backfill_events D ci registry defaults ev full w = (r, w')"
  shows "only_logs_added (tabs (ext w)) (tabs (ext w')) \<and> r \<noteq> Inr () \<or>
    (\<exists>as ts w1 tb. resolveFspContractAddresses (lib D) registry defaults w = (Inr (as, ts), w1) \<and>
       only_logs_added (tabs (ext w)) tb \<and>
       tabs (ext w') = upsert_state LogFloor ev (bk_time (chain (unat ev))) tb \<and>
       events_stored (lib D) chain logs_at (fsp_filter as ts) (unat ev) (unat full) tb)"
proof -
  let ?g = "\<lambda>w. tabs (ext w)"
  define R' where "R' = (if LogRange (params ci) = 0 then 1 else LogRange (params ci))"
  have R': "0 < R'" "unat R' \<le> 2 ^ 62" using R(1) by (auto simp: R'_def word_gt_0)
  have "unat (full - 1) = unat full - 1" using R(3) by (subst unat_minus_exact) (auto simp: word_le_nat_alt word_less_nat_alt)
  then have to: "Suc (unat (full - 1)) = unat full" using R(3) by (simp add: word_less_nat_alt)
  then have sum: "unat (full - 1) + unat R' < 18446744073709551616" using R(2) R'(2) by simp
  show ?thesis
  proof (cases "?g w' = ?g w \<and> r \<noteq> Inr ()")
    case True
    then show ?thesis by simp
  next
    case False
    obtain p w1 where a: "resolveFspContractAddresses (lib D) registry defaults w = (Inr p, w1)" and w1: "?g w1 = ?g w"
      and rest: "(\<lambda>(logAddresses, logTopics).
     bindE (wrapE ''backfill FSP events''
              (liftX (backfillFspEventLogs D ci ev (full - 1) logAddresses logTopics))) (\<lambda>_.
     bindE (wrapE ''fetch FSP event-start timestamp''
              (liftX (FetchBlockTimestamp D ci ev))) (\<lambda>eventStartTimestamp.
       wrapE ''set first FSP event index state''
         (liftX (UpdateState (e_db ci) LogFloor ev eventStartTimestamp))))) p w1 = (r, w')"
      by (rule keeps_bind_go [where g = ?g, OF reg run [unfolded backfill_events_def] False])
    obtain as ts where p: "p = (as, ts)" by force
    obtain r2 x2 where b: "backfillFspEventLogs_from (loop_fuel D) D ci R' ev (full - 1) as ts (ext w1) = (r2, x2)" by force
    then have b': "backfillFspEventLogs D ci ev (full - 1) as ts (ext w1) = (r2, x2)"
      by (simp add: backfillFspEventLogs_def R'_def)
    note loop = backfill_loop [OF R'(1) sum b, unfolded to]
    show ?thesis
    proof (cases r2)
      case (Inl e)
      with rest b' p have "w' = w1\<lparr>ext := x2\<rparr>" "r \<noteq> Inr ()" by (auto simp: bindE_def wrapE_def liftX_def)
      with loop w1 show ?thesis by simp
    next
      case (Inr u)
      with rest b' p have rest2: "bindE (wrapE ''fetch FSP event-start timestamp''
              (liftX (FetchBlockTimestamp D ci ev))) (\<lambda>eventStartTimestamp.
         wrapE ''set first FSP event index state''
           (liftX (UpdateState (e_db ci) LogFloor ev eventStartTimestamp))) (w1\<lparr>ext := x2\<rparr>) = (r, w')"
        by (simp add: bindE_def wrapE_def liftX_def)
      from loop Inr w1 have l: "only_logs_added (?g w) (tabs x2)"
        "events_stored (lib D) chain logs_at (fsp_filter as ts) (unat ev) (unat full) (tabs x2)" by auto
      show ?thesis
      proof (cases "?g w' = tabs x2 \<and> r \<noteq> Inr ()")
        case True
        with l show ?thesis by simp
      next
        case F2: False
        obtain tm x3 where t: "fetchBlockTimestamp D ci ev x2 = (Inr tm, x3)" and x3: "tabs x3 = tabs x2"
          and u: "UpdateState (e_db ci) LogFloor ev tm x3 = (r, ext w') \<or> r \<noteq> Inr () \<and> (\<exists>r'. UpdateState (e_db ci) LogFloor ev tm x3 = (r', ext w'))"
        proof -
          obtain r3 x3 where f: "fetchBlockTimestamp D ci ev x2 = (r3, x3)" by force
          have "tabs x3 = tabs x2" using keepsD [OF fetchBlockTimestamp_keeps f] by blast
          with rest2 f F2 that show ?thesis
            by (cases r3) (auto simp: bindE_def wrapE_def wrapR_def liftX_def split: prod.splits sum.splits)
        qed
        have "tabs (ext w') = upsert_state LogFloor ev tm (tabs x3) \<or> tabs (ext w') = tabs x3 \<and> r \<noteq> Inr ()"
          using u writesD [OF UpdateState_writes] by fastforce
        with fetchBlockTimestamp_Inr [OF t] x3 l a p F2 show ?thesis by auto
      qed
    qed
  qed
qed

end

subsection \<open>What startup leaves\<close>

lemma only_logs_coverage:
  assumes "only_logs_added tb tb'"
  shows "covers tb' \<longleftrightarrow> covers tb" "chain_rows L chain tb' \<longleftrightarrow> chain_rows L chain tb"
    "connects i tb' \<longleftrightarrow> connects i tb" "rows_present L chain a b tb' \<longleftrightarrow> rows_present L chain a b tb"
    "floor_at_most s tb' \<longleftrightarrow> floor_at_most s tb" "state_of tb' n = state_of tb n"
  using assms
  by (auto simp: only_logs_added_def covers_def chain_rows_def connects_def rows_present_def floor_at_most_def state_of_def)

lemma log_floor_coverage [simp]:
  "covers (upsert_state LogFloor i t tb) \<longleftrightarrow> covers tb" "chain_rows L chain (upsert_state n i t tb) \<longleftrightarrow> chain_rows L chain tb"
  "connects k (upsert_state LogFloor i t tb) \<longleftrightarrow> connects k tb"
  "rows_present L chain a b (upsert_state n i t tb) \<longleftrightarrow> rows_present L chain a b tb"
  "floor_at_most s (upsert_state LogFloor i t tb) \<longleftrightarrow> floor_at_most s tb"
  "state_of (upsert_state LogFloor i t tb) LastIndexed = state_of tb LastIndexed"
  by (auto simp: covers_def chain_rows_def connects_def rows_present_def floor_at_most_def state_of_def)

text \<open>Coverage says the same of the tables before and after a backfill.\<close>

definition same_coverage :: "common_lib \<Rightarrow> (nat \<Rightarrow> ext_block) \<Rightarrow> tables \<Rightarrow> tables \<Rightarrow> bool" where
  "same_coverage L chain tb tb' \<longleftrightarrow>
     (covers tb' \<longleftrightarrow> covers tb) \<and> (chain_rows L chain tb' \<longleftrightarrow> chain_rows L chain tb) \<and>
     (\<forall>i. connects i tb' \<longleftrightarrow> connects i tb) \<and> (\<forall>a b. rows_present L chain a b tb' \<longleftrightarrow> rows_present L chain a b tb) \<and>
     (\<forall>s. floor_at_most s tb' \<longleftrightarrow> floor_at_most s tb) \<and> state_of tb' LastIndexed = state_of tb LastIndexed"

lemma rows_present_covered:
  assumes "covers tb" "chain_rows L chain tb" and num: "\<And>k. bk_number (chain k) = int k"
    and "tb_states tb BlockFloor = Some fl" "tb_states tb LastIndexed = Some li" "Index fl \<le> s"
  shows "rows_present L chain (unat s) (unat (Index li) + 1) tb"
  unfolding rows_present_def
proof (intro allI impI)
  fix m assume m: "unat s \<le> m" "m < unat (Index li) + 1"
  then have "m < 18446744073709551616" using unat_u64_bound [of "Index li"] by linarith
  then have u: "unat (of_nat m :: u64) = m" by (simp add: unat_of_nat)
  then have "Index fl \<le> of_nat m" "of_nat m \<le> Index li" using m assms(6) by (auto simp: word_le_nat_alt)
  from coversD [OF assms(1,4,5) this] obtain b where b: "b \<in> set (tb_blocks tb)" "b_number b = of_nat m" by auto
  with assms(2) u have "b = chain_row L (chain m)" by (auto simp: chain_rows_def)
  with b(1) show "chain_row L (chain m) \<in> set (tb_blocks tb)" by simp
qed

context fsp_start
begin

lemma backfill_keeps_coverage:
  assumes "unat (LogRange (params ci)) \<le> 2 ^ 62" "unat full \<le> 2 ^ 62"
    and run: "(case backfill_from states anchor full of None \<Rightarrow> ret ()
       | Some ev \<Rightarrow> backfill_events D ci registry defaults ev full) w = (r, w')"
  shows "same_coverage (lib D) chain (tabs (ext w)) (tabs (ext w'))"
proof (cases "backfill_from states anchor full")
  case None
  with run show ?thesis by (simp add: same_coverage_def)
next
  case (Some ev)
  then have "ev < full" by (auto simp: backfill_from_def Let_def split: option.splits if_splits)
  with Some run backfill_events_outcome [OF assms(1,2) _ resolveFspContractAddresses_keeps]
  have "only_logs_added (tabs (ext w)) (tabs (ext w')) \<or>
      (\<exists>tb t. only_logs_added (tabs (ext w)) tb \<and> tabs (ext w') = upsert_state LogFloor ev t tb)"
    by auto blast
  then show ?thesis
    by (auto simp: same_coverage_def only_logs_coverage)
qed

lemma liftX_ext: "liftX m w = (r, w') \<Longrightarrow> m (ext w) = (r, ext w')"
  by (auto simp: liftX_iff)

lemma startup_plan_Inr:
  assumes cur: "unat current < 18446744073709551615"
    and fuel: "unat (HistoryEpochs (params ci)) + 2 \<le> loop_fuel D"
    and asc: "ascending_upto tip (\<lambda>n. bk_time (chain (unat n)))"
    and plan: "startup_plan D ci registry new_fsm w = (Inr (tip, full, anchor, states), w1)"
  shows "tabs (ext w1) = tabs (ext w) \<and> unat tip < 2 ^ 62 \<and>
    (\<forall>n \<in> {BlockFloor, LastIndexed, LogFloor}. states n = tb_states (tabs (ext w)) n) \<and>
    (\<exists>e. full_window chain starts current (HistoryEpochs (params ci)) tip (bk_time (chain (unat tip))) full e)"
proof -
  from plan obtain n tm wa a wb fsm s e wd wf where
    l: "liftX (fetchLastBlockIndex D ci) w = (Inr (n, tm), wa)"
      "liftX (resolveFullStartBlock D ci fsm n tm) wb = (Inr (s, e), wd)"
      "liftX (fspEventBackfillAnchor (loop_fuel D) fsm e) wd = (Inr anchor, wf)"
      "liftX (GetStates (e_db ci) [BlockFloor, LastIndexed, LogFloor]) wf = (Inr states, w1)"
    and a: "ResolveByName registry fspFsmContractName wa = (Inr a, wb)"
    and fsm: "new_fsm a (e_client ci) = Inr fsm" and eq: "n = tip" "s = full"
    unfolding startup_plan_def FetchLastBlockIndex_def bindE_Inr_iff wrapE_Inr_iff by (clarsimp simp: bindE_Inr_iff wrapE_Inr_iff)
  note f = liftX_ext [OF l(1)] and s = liftX_ext [OF l(2)] and an = liftX_ext [OF l(3)] and st = liftX_ext [OF l(4)]
  note fr = binding_law [OF fsm]
  have "tabs (ext wa) = tabs (ext w)" using keepsD [OF fetchLastBlockIndex_keeps f] by blast
  moreover have "tabs (ext wb) = tabs (ext wa)" using keepsD [OF ResolveByName_keeps a] by blast
  moreover have "tabs (ext wd) = tabs (ext wb)" using keepsD [OF resolveFullStartBlock_keeps [OF binding_keeps [OF fsm]] s] by blast
  moreover have "tabs (ext wf) = tabs (ext wd)" using keepsD [OF fspEventBackfillAnchor_keeps [OF binding_keeps [OF fsm]] an] by blast
  moreover note GetStates_Inr [OF st] fetchLastBlockIndex_Inr [OF f]
    resolveFullStartBlock_window [OF fr cur fuel _ s] asc eq
  ultimately show ?thesis by auto
qed

lemma IndexStartup_outcome:
  assumes B: "0 < BatchSize (params ci)" "unat (BatchSize (params ci)) \<le> 2 ^ 62"
    and LR: "unat (LogRange (params ci)) \<le> 2 ^ 62"
    and cur: "unat current < 18446744073709551615"
    and fuel: "unat (HistoryEpochs (params ci)) + 2 \<le> loop_fuel D"
    and asc: "ascending_upto tip (\<lambda>n. bk_time (chain (unat n)))"
    and st: "covers (tabs (ext w))" "chain_rows (lib D) chain (tabs (ext w))"
    and li: "unat (Index (state_of (tabs (ext w)) LastIndexed)) < 18446744073709551615"
    and plan: "startup_plan D ci registry new_fsm w = (Inr (tip, full, anchor, states), w1)"
    and conn: "connects full (tabs (ext w))"
    and run: "IndexStartup D ci registry new_fsm defaults w = (r, w')"
  shows "sound (lib D) chain full (tabs (ext w')) \<and>
    (\<forall>e. r = Inr e \<longrightarrow> rows_present (lib D) chain (unat full) (unat e + 1) (tabs (ext w')) \<and>
       (full \<le> e \<longrightarrow> floor_at_most full (tabs (ext w'))))"
proof -
  let ?tb = "tabs (ext w)"
  note p = startup_plan_Inr [OF cur fuel asc plan]
  then have full: "unat full \<le> 2 ^ 62" "full \<le> tip" by (auto dest!: full_window_le simp: word_le_nat_alt)
  have states: "state_in states BlockFloor = state_of ?tb BlockFloor" "state_in states LastIndexed = state_of ?tb LastIndexed"
    using p by (simp_all add: state_in_def state_of_def)
  define i where "i = catchup_from states full"
  have i: "connects i ?tb \<and> full \<le> i \<and> rows_present (lib D) chain (unat full) (unat i) ?tb \<and>
      (full < i \<longrightarrow> unat (Index (state_of ?tb LastIndexed)) + 1 = unat i \<and> floor_at_most full ?tb)"
  proof (cases "i = full")
    case True
    with conn show ?thesis by (simp add: rows_present_def)
  next
    case False
    then have c: "IsSet (state_of ?tb BlockFloor)" "IsSet (state_of ?tb LastIndexed)"
      "Index (state_of ?tb BlockFloor) \<le> full" "full \<le> Index (state_of ?tb LastIndexed)"
      and i: "i = Index (state_of ?tb LastIndexed) + 1"
      by (auto simp: i_def catchup_from_def Let_def states split: if_splits)
    from c(1,2) obtain f l where s: "tb_states ?tb BlockFloor = Some f" "tb_states ?tb LastIndexed = Some l"
      by (auto simp: state_of_def IsSet_def zero_state_def split: option.splits)
    then have l: "state_of ?tb BlockFloor = f" "state_of ?tb LastIndexed = l" by (simp_all add: state_of_def)
    have u: "unat i = unat (Index l) + 1" using li by (simp add: i l unat_Suc_below_max)
    have "connects i ?tb" by (rule connects_above_indexed [OF st(1) s(2)]) (simp add: u)
    moreover have "rows_present (lib D) chain (unat full) (unat i) ?tb"
      unfolding u using c(3) by (intro rows_present_covered [OF st number s]) (simp add: l)
    moreover have "full \<le> i" using c(4) u by (simp add: l word_le_nat_alt)
    moreover have "floor_at_most full ?tb" using s c(3) by (auto simp: floor_at_most_def l)
    ultimately show ?thesis using u l by simp
  qed
  obtain r2 w2 where b: "(case backfill_from states anchor full of None \<Rightarrow> ret ()
       | Some ev \<Rightarrow> backfill_events D ci registry defaults ev full) w1 = (r2, w2)" by force
  have same: "same_coverage (lib D) chain ?tb (tabs (ext w2))"
    using backfill_keeps_coverage [OF LR full(1) b] p by simp
  with st conn have sound2: "sound (lib D) chain full (tabs (ext w2))" by (simp add: same_coverage_def sound_def)
  show ?thesis
  proof (cases r2)
    case (Inl e)
    with run plan b have "w' = w2" "\<forall>e. r \<noteq> Inr e"
      by (auto simp: IndexStartup_def bindE_run_Inr Let_def bindE_run_Inl)
    with sound2 show ?thesis by simp
  next
    case (Inr u)
    with run plan b have rest: "(if i \<le> tip then wrapE ''backfill FSP catchup range'' (IndexHistory D ci i)
        else ret tip) w2 = (r, w')"
      by (auto simp: IndexStartup_def bindE_run_Inr Let_def i_def split: if_splits)
    show ?thesis
    proof (cases "i \<le> tip")
      case True
      with rest obtain r3 where h: "IndexHistory D ci i w2 = (r3, w')" and r: "r = wrapR ''backfill FSP catchup range'' r3"
        by (auto simp: wrapE_def split: prod.splits)
      have "sound (lib D) chain full (tabs (ext w')) \<and> grows full (tabs (ext w2)) (tabs (ext w')) \<and>
        (\<forall>e. r3 = Inr e \<longrightarrow> e \<le> StopIndex (params ci) \<and> unat e < 2 ^ 62 \<and>
           rows_present (lib D) chain (unat full) (unat e + 1) (tabs (ext w')) \<and>
           (full \<le> e \<longrightarrow> floor_at_most full (tabs (ext w'))) \<and>
           (i \<le> e \<longrightarrow> Index (state_of (tabs (ext w')) LastIndexed) = e))"
        by (rule IndexHistory_resume [OF B sound2 _ _ _ _ h]) (use i same in \<open>auto simp: same_coverage_def\<close>)
      with r show ?thesis by (cases r3) auto
    next
      case False
      with rest have "w' = w2" "\<forall>e. r = Inr e \<longrightarrow> e = tip" by auto
      moreover have "rows_present (lib D) chain (unat full) (unat tip + 1) (tabs (ext w2))"
        using i same False by (auto simp: same_coverage_def rows_present_def word_le_nat_alt)
      moreover have "floor_at_most full (tabs (ext w2))" using i same False full(2) by (auto simp: same_coverage_def)
      ultimately show ?thesis using sound2 by auto
    qed
  qed
qed

end

subsection \<open>Properties of startup\<close>

text \<open>
  C9: FSP startup serves the full window. With \<open>full\<close> the first block that its plan wants in
  full (an hour below the confirmed tip, or below the start of the oldest wanted epoch with
  start data): a startup that returns \<open>e\<close> has every block from \<open>full\<close> to \<open>e\<close> in the table as
  the row of the chain's block, whether it started over or continued the stored range; and
  on every outcome, failed ones included, the coverage states claim nothing that is not
  there. The times of the blocks must not decrease up to the tip, and the stored range must connect to the window: it may end
  inside it, right below it, or begin above it (otherwise the claim may become false, as a later counterexample shows).
\<close>

theorem startup_window_complete:
  assumes start: "fsp_start D ci chain logs_at receipt_of tabs registry new_fsm starts randoms current"
    and B: "0 < BatchSize (params ci)" "unat (BatchSize (params ci)) \<le> 2 ^ 62"
    and LR: "unat (LogRange (params ci)) \<le> 2 ^ 62"
    and cur: "unat current < 18446744073709551615"
    and fuel: "unat (HistoryEpochs (params ci)) + 2 \<le> loop_fuel D"
    and st: "covers (tabs (ext w))" "chain_rows (lib D) chain (tabs (ext w))"
      "unat (Index (state_of (tabs (ext w)) LastIndexed)) < 18446744073709551615"
    and plan: "startup_plan D ci registry new_fsm w = (Inr (tip, full, anchor, states), w1)"
    and asc: "ascending_upto tip (\<lambda>n. bk_time (chain (unat n)))"
    and conn: "connects full (tabs (ext w))"
    and run: "IndexStartup D ci registry new_fsm defaults w = (r, w')"
  shows "(\<exists>epoch. full_window chain starts current (HistoryEpochs (params ci)) tip (bk_time (chain (unat tip))) full epoch) \<and>
    covers (tabs (ext w')) \<and> chain_rows (lib D) chain (tabs (ext w')) \<and>
    (\<forall>e. r = Inr e \<longrightarrow> rows_present (lib D) chain (unat full) (unat e + 1) (tabs (ext w')) \<and>
       (full \<le> e \<longrightarrow> floor_at_most full (tabs (ext w'))))"
  using fsp_start.IndexStartup_outcome [OF start B LR cur fuel asc st plan conn run]
    fsp_start.startup_plan_Inr [OF start cur fuel asc plan]
  by (auto simp: sound_def)

text \<open>
  Every event of a default collector from block \<open>lo\<close> up to \<open>hi\<close>: the logs of each deployment of
  its contract (as the cache \<open>c\<close> of the resolver knows it) whose first topic is the collector's.
\<close>

definition collector_stored ::
  "common_lib \<Rightarrow> (nat \<Rightarrow> ext_block) \<Rightarrow> (nat \<Rightarrow> ext_log list) \<Rightarrow> (string \<Rightarrow> address option) \<Rightarrow> nat \<Rightarrow> nat \<Rightarrow> tables \<Rightarrow>
   LogInfo \<Rightarrow> bool" where
  "collector_stored L chain logs_at c lo hi tb i \<longleftrightarrow>
     (\<forall>t. TrimSpace (LogContractName i) \<noteq> '''' \<longrightarrow> fsp_topic L i = Some t \<longrightarrow>
        (\<exists>a. c (TrimSpace (LogContractName i)) = Some a \<and>
          (\<forall>k l. lo \<le> k \<longrightarrow> k < hi \<longrightarrow> l \<in> set (logs_at k) \<longrightarrow>
             lg_address l \<in> set (addressesForUpgradedContract L (TrimSpace (LogContractName i)) a) \<longrightarrow>
             take 1 (lg_topics l) = [t] \<longrightarrow>
             log_key (event_row L chain l) \<in> log_key ` set (tb_logs tb))))"

lemma collector_storedD:
  assumes "collector_stored L chain logs_at c lo hi tb i" "c (TrimSpace (LogContractName i)) = Some a"
    and "TrimSpace (LogContractName i) \<noteq> []" "fsp_topic L i = Some t"
    and "lo \<le> k" "k < hi" "l \<in> set (logs_at k)"
    and "lg_address l \<in> set (addressesForUpgradedContract L (TrimSpace (LogContractName i)) a)" "take 1 (lg_topics l) = [t]"
  shows "log_key (event_row L chain l) \<in> log_key ` set (tb_logs tb)"
  using assms unfolding collector_stored_def by (metis option.inject)

lemma collector_stored_filter:
  assumes "fsp_collected L c as ts i" "events_stored L chain logs_at (fsp_filter as ts) lo hi tb"
  shows "collector_stored L chain logs_at c lo hi tb i"
  unfolding collector_stored_def
proof (intro allI impI)
  fix t assume "TrimSpace (LogContractName i) \<noteq> ''''" "fsp_topic L i = Some t"
  with assms(1) obtain a where a: "c (TrimSpace (LogContractName i)) = Some a"
    "set (addressesForUpgradedContract L (TrimSpace (LogContractName i)) a) \<subseteq> set as" "t \<in> set ts"
    by (auto simp: fsp_collected_def)
  have "log_key (event_row L chain l) \<in> log_key ` set (tb_logs tb)"
    if "lo \<le> k" "k < hi" "l \<in> set (logs_at k)" "lg_address l \<in> set as" "take 1 (lg_topics l) = [t]" for k l
  proof -
    have "fsp_filter as ts l" using that(4,5) a(3) by (cases "lg_topics l") (auto simp: fsp_filter_def)
    with that(1-3) have "l \<in> set (logs_between logs_at (fsp_filter as ts) lo hi)"
      by (auto simp: logs_between_set)
    with assms(2) show ?thesis unfolding events_stored_def by blast
  qed
  with a(1,2) show "\<exists>a. c (TrimSpace (LogContractName i)) = Some a \<and>
      (\<forall>k l. lo \<le> k \<longrightarrow> k < hi \<longrightarrow> l \<in> set (logs_at k) \<longrightarrow>
         lg_address l \<in> set (addressesForUpgradedContract L (TrimSpace (LogContractName i)) a) \<longrightarrow>
         take 1 (lg_topics l) = [t] \<longrightarrow> log_key (event_row L chain l) \<in> log_key ` set (tb_logs tb))"
    by (intro exI [of _ a] conjI allI impI) auto
qed

text \<open>
  C17: the event backfill is complete. On every outcome only rows of logs are added, and the floor
  of the logs moves to the event start \<open>ev\<close> only when every event is stored: for each default
  collector that names a contract and a topic, each deployment of the contract, and each
  block from \<open>ev\<close> up to the full window, every log of that contract with that topic has its row, with
  the time of its block, or the table had a row with its key.
\<close>

theorem backfill_complete:
  assumes start: "fsp_start D ci chain logs_at receipt_of tabs registry new_fsm starts randoms current"
    and LR: "unat (LogRange (params ci)) \<le> 2 ^ 62" and range: "ev < full" "unat full \<le> 2 ^ 62"
    and cache: "cache_ok (cache w)"
    and run: "backfill_events D ci registry defaults ev full w = (r, w')"
  shows "tb_blocks (tabs (ext w')) = tb_blocks (tabs (ext w)) \<and> tb_txs (tabs (ext w')) = tb_txs (tabs (ext w)) \<and>
    set (tb_logs (tabs (ext w))) \<subseteq> set (tb_logs (tabs (ext w'))) \<and>
    (tb_states (tabs (ext w')) = tb_states (tabs (ext w)) \<and> r \<noteq> Inr () \<or>
     tb_states (tabs (ext w')) = (tb_states (tabs (ext w)))(LogFloor \<mapsto> \<lparr>Index = ev, BlockTimestamp = bk_time (chain (unat ev))\<rparr>) \<and>
     (\<exists>filter_lists w1. resolveFspContractAddresses (lib D) registry defaults w = (Inr filter_lists, w1) \<and>
        (\<forall>i \<in> set defaults. collector_stored (lib D) chain logs_at (cache w1) (unat ev) (unat full) (tabs (ext w')) i)))"
proof -
  have ix: "indexer D ci chain logs_at receipt_of tabs"
    using start by (simp add: fsp_start_def fsp_host_def indexing_def)
  note out = indexer.backfill_events_outcome [OF ix LR range(2,1) fsp_host.resolveFspContractAddresses_keeps [OF fsp_start.axioms(1) [OF start]] run]
  show ?thesis
  proof (cases "only_logs_added (tabs (ext w)) (tabs (ext w')) \<and> r \<noteq> Inr ()")
    case True
    then show ?thesis by (simp add: only_logs_added_def)
  next
    case False
    with out obtain as ts w1 tb where res: "resolveFspContractAddresses (lib D) registry defaults w = (Inr (as, ts), w1)"
      and tb: "only_logs_added (tabs (ext w)) tb" "tabs (ext w') = upsert_state LogFloor ev (bk_time (chain (unat ev))) tb"
      and ev: "events_stored (lib D) chain logs_at (fsp_filter as ts) (unat ev) (unat full) tb" by blast
    from ev tb(2) have "events_stored (lib D) chain logs_at (fsp_filter as ts) (unat ev) (unat full) (tabs (ext w'))"
      by (simp add: events_stored_def)
    with resolveFspContractAddresses_Inr [OF res cache]
    have "\<forall>i \<in> set defaults. collector_stored (lib D) chain logs_at (cache w1) (unat ev) (unat full) (tabs (ext w')) i"
      using collector_stored_filter by blast
    with res tb show ?thesis by (simp add: only_logs_added_def)
  qed
qed

subsection \<open>Startup on the concrete world\<close>

definition mem_registry :: "(string \<Rightarrow> address) \<Rightarrow> mem registry" where
  "mem_registry address_of name = faulty (ret (address_of name))"

definition mem_binding ::
  "(u64 \<Rightarrow> rewardEpochStartInfo) \<Rightarrow> (u64 \<Rightarrow> randomAcquisitionInfo) \<Rightarrow> u64 \<Rightarrow> mem fsm_binding" where
  "mem_binding starts randoms current a c = Inr (mem_fsm starts randoms current)"

interpretation mem_start:
  fsp_start "mem_deps k n" "mem_engine p ts time txs logs receipt_of" "make_chain time txs"
    "make_logs logs" receipt_of m_tabs "mem_registry f" "mem_binding starts randoms current" starts randoms current
  by (intro fsp_start.intro fsp_start_axioms.intro fsp_host.intro fsp_host_axioms.intro mem_indexing.indexing_axioms)
    (auto simp: mem_registry_def [abs_def] mem_binding_def mem_fsm.fsm_records_axioms mem_fsm.fsm_reader_axioms intro!: keeps_faulty)

text \<open>
  Blocks half an hour apart, with an event of contract \<^verbatim>\<open>0xbb\<close> in every block. Epoch 3 began with
  block 3 and its random acquisition with block 1, so that the full window begins at block 2.
\<close>

definition half_hours :: "nat \<Rightarrow> u64" where "half_hours k = 1800 * of_nat k"

definition relay_logs :: "nat \<Rightarrow> ext_log list" where
  "relay_logs k = [\<lparr>lg_address = 0xbb, lg_topics = [7], lg_data = [1], lg_block_number = of_nat k,
     lg_tx_hash = of_nat k, lg_index = 0\<rparr>]"

definition third_epoch :: "u64 \<Rightarrow> rewardEpochStartInfo" where
  "third_epoch e = (if e = 3 then \<lparr>RewardEpochStartTs = 6000, RewardEpochStartBlock = 3\<rparr>
     else \<lparr>RewardEpochStartTs = 0, RewardEpochStartBlock = 0\<rparr>)"

definition third_random :: "u64 \<Rightarrow> randomAcquisitionInfo" where
  "third_random e = \<lparr>RandomAcquisitionStartTs = 1800, RandomAcquisitionStartBlock = 1,
     RandomAcquisitionEndTs = 3600, RandomAcquisitionEndBlock = 2\<rparr>"

definition start_engine :: "u64 \<Rightarrow> (nat \<Rightarrow> u64) \<Rightarrow> mem engine" where
  "start_engine epochs time = mem_engine ((Indexer defaultConfig)\<lparr>HistoryEpochs := epochs, BatchSize := 2, LogRange := 2,
       Confirmations := 0, StopIndex := 100\<rparr>)
     (\<lambda>_. None) time (\<lambda>_. []) relay_logs (\<lambda>_. \<lparr>rc_status = 1, rc_logs = []\<rparr>)"

definition relay_collector :: LogInfo where
  "relay_collector = named_log ''Relay'' ''0x07''"

lemma relay_start:
  "fsp_start (mem_deps k n) (start_engine epochs time) (make_chain time (\<lambda>_. [])) (make_logs relay_logs)
     (\<lambda>_. \<lparr>rc_status = 1, rc_logs = []\<rparr>) m_tabs (mem_registry f) (mem_binding starts randoms current) starts randoms current"
  unfolding start_engine_def by (rule mem_start.fsp_start_axioms)

lemma start_engine_fields [simp]:
  "BatchSize (params (start_engine epochs time)) = 2" "LogRange (params (start_engine epochs time)) = 2"
  "HistoryEpochs (params (start_engine epochs time)) = epochs"
  by (simp_all add: start_engine_def)

lemma half_hours_ascending:
  assumes "unat tip \<le> 1000"
  shows "ascending_upto tip (\<lambda>n. bk_time (make_chain half_hours (\<lambda>_. []) (unat n)))"
proof -
  have "unat (half_hours k) = 1800 * k" if "k \<le> 1000" for k
    using that unat_of_nat [of "1800 * k", where 'a = 64] by (simp add: half_hours_def)
  with assms show ?thesis by (auto simp: ascending_upto_def make_chain_def word_le_nat_alt)
qed

definition start_world :: "nat \<Rightarrow> tables \<Rightarrow> mem world" where
  "start_world head tb = \<lparr>ext = \<lparr>m_tabs = tb, m_faults = [], m_head = head\<rparr>, TransactionId = 1, synced = False,
     cache = (\<lambda>_. None)\<rparr>"

lemma empty_start:
  "covers empty_tables" "chain_rows L chain empty_tables" "connects k empty_tables"
  "state_of empty_tables n = zero_state"
  by (simp_all add: covers_def chain_rows_def connects_def empty_tables_def state_of_def)

theorem startup_window_complete_witness:
  "\<exists>w'. IndexStartup (mem_deps 1 10) (start_engine 1 half_hours) (mem_registry (\<lambda>_. 0xbb))
      (mem_binding third_epoch third_random 3) [] (start_world 3 empty_tables) = (Inr 3, w') \<and>
     rows_present plain_lib (make_chain half_hours (\<lambda>_. [])) 2 4 (m_tabs (ext w')) \<and> covers (m_tabs (ext w'))"
proof -
  let ?plan = "startup_plan (mem_deps 1 10) (start_engine 1 half_hours) (mem_registry (\<lambda>_. 0xbb))
      (mem_binding third_epoch third_random 3) (start_world 3 empty_tables)"
  let ?run = "IndexStartup (mem_deps 1 10) (start_engine 1 half_hours) (mem_registry (\<lambda>_. 0xbb))
      (mem_binding third_epoch third_random 3) [] (start_world 3 empty_tables)"
  have "case fst ?plan of Inr (tip, full, _) \<Rightarrow> tip = 3 \<and> full = 2 | Inl _ \<Rightarrow> False"
    by code_simp
  then obtain anchor states w1 where plan: "?plan = (Inr (3, 2, anchor, states), w1)"
    by (cases ?plan) (auto split: sum.splits)
  have "case fst ?run of Inr e \<Rightarrow> e = 3 | Inl _ \<Rightarrow> False"
    by code_simp
  then obtain w' where run: "?run = (Inr 3, w')"
    by (cases ?run) (auto split: sum.splits)
  have tb: "tabs (ext (start_world 3 tabs0)) = tabs0" if "tabs = m_tabs" for tabs tabs0
    using that by (simp add: start_world_def)
  from startup_window_complete [OF relay_start _ _ _ _ _ _ _ _ plan half_hours_ascending _ run]
  have "covers (m_tabs (ext w')) \<and> rows_present plain_lib (make_chain half_hours (\<lambda>_. [])) 2 4 (m_tabs (ext w'))"
    by (simp add: start_world_def empty_start zero_state_def)
  with run show ?thesis by blast
qed

theorem backfill_complete_witness:
  "\<exists>w'. backfill_events (mem_deps 1 10) (start_engine 1 half_hours) (mem_registry (\<lambda>_. 0xbb)) [relay_collector] 1 2
      (start_world 3 empty_tables) = (Inr (), w') \<and>
     log_key (event_row plain_lib (make_chain half_hours (\<lambda>_. [])) (hd (relay_logs 1))) \<in> log_key ` set (tb_logs (m_tabs (ext w')))"
proof -
  let ?run = "backfill_events (mem_deps 1 10) (start_engine 1 half_hours) (mem_registry (\<lambda>_. 0xbb)) [relay_collector] 1 2
      (start_world 3 empty_tables)"
  have "case fst ?run of Inr e \<Rightarrow> True | Inl _ \<Rightarrow> False"
    by code_simp
  then obtain w' where run: "?run = (Inr (), w')"
    by (cases ?run) (auto split: sum.splits)
  have cache: "cache_ok (cache (start_world 3 empty_tables))" by (simp add: cache_ok_def start_world_def)
  have names: "TrimSpace (LogContractName relay_collector) = ''Relay''" "fsp_topic plain_lib relay_collector = Some 7"
    by code_simp+
  have dep: "addressesForUpgradedContract plain_lib ''Relay'' 0xbb = [0xbb]" by code_simp
  let ?res = "resolveFspContractAddresses plain_lib (mem_registry (\<lambda>_. 0xbb)) [relay_collector] (start_world 3 empty_tables)"
  have known: "cache (snd ?res) ''Relay'' = Some 0xbb"
    by code_simp
  from backfill_complete [OF relay_start _ _ _ cache run] obtain l w1 where res: "?res = (Inr l, w1)" and
    "collector_stored plain_lib (make_chain half_hours (\<lambda>_. [])) (make_logs relay_logs) (cache w1) 1 2 (m_tabs (ext w')) relay_collector"
    by auto
  moreover have "cache w1 ''Relay'' = Some 0xbb" using known unfolding res by simp
  ultimately have "collector_stored plain_lib (make_chain half_hours (\<lambda>_. [])) (make_logs relay_logs) (cache w1) 1 2 (m_tabs (ext w')) relay_collector"
    "cache w1 ''Relay'' = Some 0xbb" by simp_all
  note stored = this
  have "log_key (event_row plain_lib (make_chain half_hours (\<lambda>_. [])) (hd (relay_logs 1))) \<in> log_key ` set (tb_logs (m_tabs (ext w')))"
    by (rule collector_storedD [OF stored(1), where t = 7 and a = "0xbb" and k = 1])
       (simp_all add: names dep stored(2) make_logs_def relay_logs_def)
  with run show ?thesis by blast
qed

text \<open>A chain whose block 4 comes long after block 3, of which blocks 1 and 2 are stored and claimed.\<close>

definition long_pause :: "nat \<Rightarrow> u64" where "long_pause k = (if k < 4 then 10 * of_nat k else 10000)"

definition before_pause :: tables where
  "before_pause = upsert_state LogFloor 1 10 (upsert_state LastIndexed 2 20 (upsert_state BlockFloor 1 10
     (empty_tables\<lparr>tb_blocks := [\<lparr>b_hash = ''01'', b_number = 1, b_timestamp = 10\<rparr>,
        \<lparr>b_hash = ''02'', b_number = 2, b_timestamp = 20\<rparr>]\<rparr>)))"

text \<open>
  C33: after a downtime longer than the full window, startup leaves a gap that the coverage
  states claim: blocks 1 and 2 are stored and claimed, the window begins at block 4, startup indexes block
  4 and moves \<open>LastIndexed\<close> to it, but leaves the floor at 1, and block 3 is missing.
\<close>

theorem startup_gap_overclaims:
  "covers before_pause \<and>
   (\<exists>w'. IndexStartup (mem_deps 1 10) (start_engine 0 long_pause) (mem_registry (\<lambda>_. 0xbb))
        (mem_binding third_epoch third_random 3) [] (start_world 4 before_pause) = (Inr 4, w') \<and>
      tb_states (m_tabs (ext w')) BlockFloor = Some \<lparr>Index = 1, BlockTimestamp = 10\<rparr> \<and>
      tb_states (m_tabs (ext w')) LastIndexed = Some \<lparr>Index = 4, BlockTimestamp = 10000\<rparr> \<and>
      3 \<notin> b_number ` set (tb_blocks (m_tabs (ext w'))) \<and> \<not> covers (m_tabs (ext w')))"
proof
  have "n = 1 \<or> n = 2" if "1 \<le> n" "n \<le> 2" for n :: u64
  proof -
    from that have "unat n = 1 \<or> unat n = 2" by (auto simp: word_le_nat_alt)
    then show ?thesis by (auto simp: word_eq_unat)
  qed
  then show "covers before_pause" by (auto simp: covers_def before_pause_def)
  let ?run = "IndexStartup (mem_deps 1 10) (start_engine 0 long_pause) (mem_registry (\<lambda>_. 0xbb))
        (mem_binding third_epoch third_random 3) [] (start_world 4 before_pause)"
  have "case fst ?run of Inr e \<Rightarrow> e = 4 | Inl _ \<Rightarrow> False" by code_simp
  then obtain w' where run: "?run = (Inr 4, w')"
    by (cases ?run) (auto split: sum.splits)
  have "tb_states (m_tabs (ext (snd ?run))) BlockFloor = Some \<lparr>Index = 1, BlockTimestamp = 10\<rparr>" by code_simp
  moreover have "tb_states (m_tabs (ext (snd ?run))) LastIndexed = Some \<lparr>Index = 4, BlockTimestamp = 10000\<rparr>" by code_simp
  moreover have "map b_number (tb_blocks (m_tabs (ext (snd ?run)))) = [1, 2, 4]" by code_simp
  ultimately have st: "tb_states (m_tabs (ext w')) BlockFloor = Some \<lparr>Index = 1, BlockTimestamp = 10\<rparr>"
      "tb_states (m_tabs (ext w')) LastIndexed = Some \<lparr>Index = 4, BlockTimestamp = 10000\<rparr>"
    and rows: "map b_number (tb_blocks (m_tabs (ext w'))) = [1, 2, 4]"
    by (simp_all only: run snd_conv)
  from rows have "set (map b_number (tb_blocks (m_tabs (ext w')))) = set [1, 2, 4]" by (rule arg_cong)
  then have "b_number ` set (tb_blocks (m_tabs (ext w'))) = {1, 2, 4}" by simp
  then have gap: "3 \<notin> b_number ` set (tb_blocks (m_tabs (ext w')))" by simp
  moreover have "\<not> covers (m_tabs (ext w'))"
    using gap coversD [OF _ st, of 3] by auto
  ultimately show "\<exists>w'. ?run = (Inr 4, w') \<and>
      tb_states (m_tabs (ext w')) BlockFloor = Some \<lparr>Index = 1, BlockTimestamp = 10\<rparr> \<and>
      tb_states (m_tabs (ext w')) LastIndexed = Some \<lparr>Index = 4, BlockTimestamp = 10000\<rparr> \<and>
      3 \<notin> b_number ` set (tb_blocks (m_tabs (ext w'))) \<and> \<not> covers (m_tabs (ext w'))"
    using run st by blast
qed

end
