(* ===== verification/History_Drop.thy ===== *)
theory History_Drop
  imports States Block_Search Boff
begin

text \<open>
  Dropping old history, \<^verbatim>\<open>internal/database/history_drop.go\<close>: the delete boundary, the
  deletion in batches, and the raising of the coverage floors past the deletions.
\<close>

definition deleteBatchSize :: nat where "deleteBatchSize = 1000"

definition safeDeleteBoundary :: "u64 \<Rightarrow> u64 \<Rightarrow> u64" where
  "safeDeleteBoundary lastBlockTime intervalSeconds =
     (if lastBlockTime \<le> intervalSeconds then 0 else lastBlockTime - intervalSeconds)"

definition getBlockTimestamp ::
  "('x, block) backoff_retry \<Rightarrow> nat \<Rightarrow> int option \<Rightarrow> 'x client \<Rightarrow> ('x, u64 \<times> u64) io" where
  "getBlockTimestamp backoff_Retry maxElapsed index client =
     bindE (wrapE ''getBlockByTimestamp''
              (RetryWithMaxElapsed backoff_Retry maxElapsed (BlockByNumber client index))) (\<lambda>block.
       liftR (bindR (big_Uint64 (Block_Number block)) (\<lambda>number. Inr (Block_Time block, number))))"

definition TipAgeBoundary ::
  "('x, block) backoff_retry \<Rightarrow> nat \<Rightarrow> 'x client \<Rightarrow> u64 \<Rightarrow> ('x, u64) io" where
  "TipAgeBoundary backoff_Retry maxElapsed client intervalSeconds =
     bindE (wrapE ''Failed to get the latest time'' (getBlockTimestamp backoff_Retry maxElapsed None client))
       (\<lambda>(lastBlockTime, _). ret (safeDeleteBoundary lastBlockTime intervalSeconds))"

definition GetStartBlock ::
  "('x, block) backoff_retry \<Rightarrow> nat \<Rightarrow> u64 \<Rightarrow> 'x client \<Rightarrow> u64 \<Rightarrow> ('x, u64) io" where
  "GetStartBlock backoff_Retry maxElapsed historyDropIntervalSeconds client configuredStartBlock =
     bindE (wrapE ''Failed to get the latest block'' (getBlockTimestamp backoff_Retry maxElapsed None client))
       (\<lambda>(lastBlockTime, lastBlockNumber).
          GetNearestBlockByTimestampFromChain
            (safeDeleteBoundary lastBlockTime historyDropIntervalSeconds) client
            configuredStartBlock lastBlockNumber)"

text \<open>
  The deletion loop runs until a batch deletes nothing; \<open>fuel\<close> bounds the number of batches
  (\<open>DeleteInBatches_total\<close> says how many are enough). The pauses are left out.
\<close>

fun DeleteInBatches :: "nat \<Rightarrow> 'x store \<Rightarrow> u64 \<Rightarrow> entity \<Rightarrow> ('x, unit) io" where
  "DeleteInBatches 0 db deleteStartTime entity = throw OutOfFuel"
| "DeleteInBatches (Suc fuel) db deleteStartTime entity =
     bindE (wrapE ''Failed to delete historic data in the DB''
              (s_delete db entity deleteBatchSize deleteStartTime)) (\<lambda>rowsAffected.
       if rowsAffected = 0 then ret () else DeleteInBatches fuel db deleteStartTime entity)"

definition firstSurvivingBlock :: "'x store \<Rightarrow> ('x, u64 \<times> u64) io" where
  "firstSurvivingBlock db = bindE (s_first_block db) (\<lambda>block. ret (b_number block, b_timestamp block))"

definition firstSurvivingLog :: "'x store \<Rightarrow> ('x, u64 \<times> u64) io" where
  "firstSurvivingLog db = bindE (s_first_log db) (\<lambda>log. ret (l_block_number log, l_timestamp log))"

definition raiseFloor ::
  "'x store \<Rightarrow> u64 \<Rightarrow> state_name \<Rightarrow> ('x store \<Rightarrow> ('x, u64 \<times> u64) io) \<Rightarrow> ('x, unit) io" where
  "raiseFloor db deleteStartTime floorState firstSurviving =
     bindE (wrapE ''read floor state'' (GetState db floorState)) (\<lambda>floor.
       if IsSet floor \<and> deleteStartTime \<le> BlockTimestamp floor then ret ()
       else (\<lambda>x. case firstSurviving db x of
               (Inr (index, timestamp), x') \<Rightarrow> UpdateState db floorState index timestamp x'
             | (Inl e, x') \<Rightarrow>
                 if is_not_found e then (Inr (), x')
                 else (Inl (Wrapped ''find first surviving row'' e), x')))"

definition dropAndRaiseFloor ::
  "nat \<Rightarrow> 'x store \<Rightarrow> u64 \<Rightarrow> state_name \<Rightarrow> ('x store \<Rightarrow> ('x, u64 \<times> u64) io) \<Rightarrow> entity list \<Rightarrow> ('x, unit) io" where
  "dropAndRaiseFloor fuel db deleteStartTime floorState firstSurviving entities =
     bindE (foldE (\<lambda>_ entity. DeleteInBatches fuel db deleteStartTime entity) () entities) (\<lambda>_.
       raiseFloor db deleteStartTime floorState firstSurviving)"

definition dropHistoryBelow :: "nat \<Rightarrow> 'x store \<Rightarrow> u64 \<Rightarrow> ('x, unit) io" where
  "dropHistoryBelow fuel db deleteStartTime =
     bindE (dropAndRaiseFloor fuel db deleteStartTime LogFloor firstSurvivingLog [LogEntity]) (\<lambda>_.
       dropAndRaiseFloor fuel db deleteStartTime BlockFloor firstSurvivingBlock
         [TransactionEntity, BlockEntity])"

definition dropHistoryIteration :: "nat \<Rightarrow> 'x store \<Rightarrow> ('x, u64) io \<Rightarrow> ('x, unit) io" where
  "dropHistoryIteration fuel db boundaryFn =
     bindE (wrapE ''resolve history drop boundary'' boundaryFn) (\<lambda>boundary.
       dropHistoryBelow fuel db boundary)"

text \<open>
  \<^verbatim>\<open>DropHistory\<close> repeats iterations for ever; an iteration's error is logged and dropped.
  \<open>DropHistory n\<close> is its first \<open>n\<close> iterations; an iteration whose fuel is spent has not ended.
\<close>

primrec DropHistory :: "nat \<Rightarrow> nat \<Rightarrow> 'x store \<Rightarrow> ('x, u64) io \<Rightarrow> 'x \<Rightarrow> 'x" where
  "DropHistory 0 fuel db boundaryFn x = x"
| "DropHistory (Suc n) fuel db boundaryFn x =
     (case dropHistoryIteration fuel db boundaryFn x of (r, x') \<Rightarrow>
        if r = Inl OutOfFuel then x' else DropHistory n fuel db boundaryFn x')"

subsection \<open>The boundary\<close>

text \<open>
  The delete boundary is the block time less the interval, and 0 where the subtraction
  would wrap around: it is never above the block time.
\<close>

theorem safe_boundary_saturates:
  "unat (safeDeleteBoundary lastBlockTime intervalSeconds)
     = unat lastBlockTime - unat intervalSeconds"
  by (auto simp: safeDeleteBoundary_def word_le_nat_alt unat_minus_exact)

subsection \<open>Deleting in batches\<close>

text \<open>What matters of the rows of an entity: those a boundary \<open>ts\<close> deletes and the others.\<close>

fun old_rows :: "entity \<Rightarrow> u64 \<Rightarrow> tables \<Rightarrow> nat" where
  "old_rows LogEntity ts tb = length (filter (\<lambda>r. l_timestamp r < ts) (tb_logs tb))"
| "old_rows TransactionEntity ts tb = length (filter (\<lambda>r. t_timestamp r < ts) (tb_txs tb))"
| "old_rows BlockEntity ts tb = length (filter (\<lambda>r. b_timestamp r < ts) (tb_blocks tb))"

lemma deletes_count:
  assumes "deletes lim P xs k ys"
  shows "length (filter P ys) + k = length (filter P xs)"
proof -
  from assms obtain zs where m: "mset xs = mset ys + mset zs" and k: "length zs = k" "\<forall>z \<in> set zs. P z"
    by (auto simp: deletes_def)
  have "size (filter_mset P (mset xs)) = size (filter_mset P (mset ys)) + size (filter_mset P (mset zs))"
    by (simp add: m)
  moreover have "filter_mset P (mset zs) = mset zs" using k(2) by (simp add: filter_mset_eq_conv)
  moreover have "size (filter_mset P (mset us)) = length (filter P us)" for us
    by (metis mset_filter size_mset)
  ultimately show ?thesis using k(1) by (metis size_mset)
qed

lemma deletes_zero:
  assumes "deletes lim P xs 0 ys" and "0 < lim"
  shows "filter P ys = []"
proof -
  have "length (filter P xs) = 0" using assms by (auto simp: deletes_def min_def split: if_splits)
  with deletes_count [OF assms(1)] show ?thesis by simp
qed

lemma deletes_subset: "deletes lim P xs k ys \<Longrightarrow> set ys \<subseteq> set xs"
  unfolding deletes_def by (metis Un_upper1 set_mset_mset set_mset_union)

lemma deletes_in: "deletes lim P xs k ys \<Longrightarrow> y \<in> set ys \<Longrightarrow> y \<in> set xs"
  using deletes_subset by fastforce

lemma deletes_keeps_young: "deletes lim P xs k ys \<Longrightarrow> x \<in> set xs \<Longrightarrow> \<not> P x \<Longrightarrow> x \<in> set ys"
proof -
  assume "deletes lim P xs k ys" "x \<in> set xs" "\<not> P x"
  then have "x \<in> set (filter (\<lambda>x. \<not> P x) ys)" by (simp add: deletes_def)
  then show "x \<in> set ys" by simp
qed

lemma delete_step_count: "delete_step e lim ts tb k tb' \<Longrightarrow> old_rows e ts tb' + k = old_rows e ts tb"
  by (cases e) (auto dest: deletes_count)

lemma delete_step_zero: "delete_step e lim ts tb 0 tb' \<Longrightarrow> 0 < lim \<Longrightarrow> old_rows e ts tb' = 0"
  by (cases e) (auto dest: deletes_zero)

text \<open>
  Every log belongs to its transaction's block: a log with a transaction has that
  transaction's timestamp. Then deletion, the cascade included, is by timestamp.
\<close>

definition logs_dated :: "tables \<Rightarrow> bool" where
  "logs_dated tb \<longleftrightarrow>
     (\<forall>l \<in> set (tb_logs tb). \<forall>t \<in> set (tb_txs tb). l_transaction_id l = t_id t \<longrightarrow> l_timestamp l = t_timestamp t) \<and>
     distinct (map t_id (tb_txs tb))"

text \<open>\<open>kept ts tb tb'\<close>: the rows of \<open>tb'\<close> are rows of \<open>tb\<close>, and no row from \<open>ts\<close> on is lost.\<close>

definition kept :: "u64 \<Rightarrow> tables \<Rightarrow> tables \<Rightarrow> bool" where
  "kept ts tb tb' \<longleftrightarrow>
     set (tb_blocks tb') \<subseteq> set (tb_blocks tb) \<and> set (tb_txs tb') \<subseteq> set (tb_txs tb) \<and>
     set (tb_logs tb') \<subseteq> set (tb_logs tb) \<and>
     (\<forall>b \<in> set (tb_blocks tb). ts \<le> b_timestamp b \<longrightarrow> b \<in> set (tb_blocks tb')) \<and>
     (\<forall>t \<in> set (tb_txs tb). ts \<le> t_timestamp t \<longrightarrow> t \<in> set (tb_txs tb')) \<and>
     (\<forall>l \<in> set (tb_logs tb). ts \<le> l_timestamp l \<longrightarrow> l \<in> set (tb_logs tb'))"

lemma kept_refl [simp]: "kept ts tb tb"
  by (simp add: kept_def)

lemma kept_trans: "kept ts a b \<Longrightarrow> kept ts b c \<Longrightarrow> kept ts a c"
  unfolding kept_def by blast

lemma kept_states [simp]: "kept ts tb (upsert_state n i t tb') \<longleftrightarrow> kept ts tb tb'"
  by (simp add: kept_def)

lemma distinct_map_sub:
  assumes "distinct (map f xs)" and "mset xs = mset ys + mset zs"
  shows "distinct (map f ys)"
proof -
  have "mset (map f xs) = mset (map f (ys @ zs))" using assms(2) by simp
  with assms(1) have "distinct (map f (ys @ zs))" by (metis mset_eq_imp_distinct_iff)
  then show ?thesis by simp
qed

lemma delete_step_kept:
  assumes "delete_step e lim ts tb k tb'" and "logs_dated tb"
  shows "kept ts tb tb' \<and> logs_dated tb' \<and> tb_states tb' = tb_states tb"
proof (cases e)
  case LogEntity
  with assms show ?thesis
    by (auto simp: kept_def logs_dated_def not_less dest: deletes_in deletes_keeps_young)
next
  case BlockEntity
  with assms show ?thesis
    by (auto simp: kept_def logs_dated_def not_less dest: deletes_in deletes_keeps_young)
next
  case TransactionEntity
  with assms(1) obtain ys where d: "deletes lim (\<lambda>r. t_timestamp r < ts) (tb_txs tb) k ys"
    and tb': "tb' = tb\<lparr>tb_txs := ys, tb_logs := filter (\<lambda>r. l_transaction_id r = 0 \<or>
        l_transaction_id r \<notin> t_id ` set (tb_txs tb) \<or> l_transaction_id r \<in> t_id ` set ys) (tb_logs tb)\<rparr>"
    by auto
  have sub: "set ys \<subseteq> set (tb_txs tb)" using d by (rule deletes_subset)
  have young: "t \<in> set ys" if "t \<in> set (tb_txs tb)" "ts \<le> t_timestamp t" for t
    using deletes_keeps_young [OF d that(1)] that(2) by (simp add: not_less)
  have "l_transaction_id l = 0 \<or> l_transaction_id l \<notin> t_id ` set (tb_txs tb) \<or>
      l_transaction_id l \<in> t_id ` set ys" if "l \<in> set (tb_logs tb)" "ts \<le> l_timestamp l" for l
    using assms(2) that young by (force simp: logs_dated_def)
  moreover have "distinct (map t_id ys)"
    using assms(2) d by (auto simp: logs_dated_def deletes_def intro: distinct_map_sub)
  ultimately show ?thesis using sub young assms(2)
    by (auto simp: tb' kept_def logs_dated_def)
qed

subsection \<open>An iteration of the history drop\<close>

text \<open>
  What the floors guarantee, beside \<open>covers\<close>. \<open>chain_dated\<close>: rows carry the times of one chain, where a higher block is not
  earlier. \<open>floor_dated\<close>: the time stored with a floor is the time of its block.
\<close>

definition chain_dated :: "tables \<Rightarrow> bool" where
  "chain_dated tb \<longleftrightarrow>
     (\<forall>b \<in> set (tb_blocks tb). \<forall>c \<in> set (tb_blocks tb).
        b_number b \<le> b_number c \<longrightarrow> b_timestamp b \<le> b_timestamp c)"

definition floor_dated :: "tables \<Rightarrow> bool" where
  "floor_dated tb \<longleftrightarrow>
     (\<forall>b \<in> set (tb_blocks tb).
        (b_number b \<le> Index (state_of tb BlockFloor) \<longrightarrow>
           b_timestamp b \<le> BlockTimestamp (state_of tb BlockFloor)) \<and>
        (Index (state_of tb BlockFloor) \<le> b_number b \<longrightarrow>
           BlockTimestamp (state_of tb BlockFloor) \<le> b_timestamp b))"

text \<open>The floor that a pass leaves: the first surviving row, once the boundary has passed it.\<close>

definition raised :: "u64 \<Rightarrow> state_row \<Rightarrow> (u64 \<times> u64) option \<Rightarrow> state_row" where
  "raised ts floor first =
     (if IsSet floor \<and> ts \<le> BlockTimestamp floor then floor
      else case first of None \<Rightarrow> floor | Some (i, t) \<Rightarrow> \<lparr>Index = i, BlockTimestamp = t\<rparr>)"

definition first_block_pos :: "tables \<Rightarrow> (u64 \<times> u64) option" where
  "first_block_pos tb = map_option (\<lambda>b. (b_number b, b_timestamp b)) (first_block_of tb)"

definition first_log_pos :: "tables \<Rightarrow> (u64 \<times> u64) option" where
  "first_log_pos tb = map_option (\<lambda>l. (l_block_number l, l_timestamp l)) (first_log_of tb)"

context relational_store
begin

lemma DeleteInBatches_keeps:
  "keeps (\<lambda>x. kept ts tb0 (tabs x) \<and> logs_dated (tabs x) \<and> tb_states (tabs x) = st)
     (DeleteInBatches fuel db ts e)"
proof (induction fuel)
  case 0
  show ?case by (simp add: triple_def)
next
  case (Suc fuel)
  have "keeps (\<lambda>x. kept ts tb0 (tabs x) \<and> logs_dated (tabs x) \<and> tb_states (tabs x) = st)
      (s_delete db e deleteBatchSize ts)"
    by (rule tripleI; drule delete_law) (auto dest!: delete_step_kept intro: kept_trans)
  then show ?case by (auto intro!: wp Suc)
qed

lemma DeleteInBatches_done:
  "DeleteInBatches fuel db ts e x = (Inr (), x') \<Longrightarrow> old_rows e ts (tabs x') = 0"
proof (induction fuel arbitrary: x)
  case (Suc fuel)
  then obtain k x1 where "s_delete db e deleteBatchSize ts x = (Inr k, x1)"
    and rest: "(if k = 0 then ret () else DeleteInBatches fuel db ts e) x1 = (Inr (), x')"
    by (auto simp: bindE_Inr_iff wrapE_Inr_iff)
  then have "delete_step e deleteBatchSize ts (tabs x) k (tabs x1)" using delete_law by fastforce
  then show ?case using rest Suc.IH
    by (cases "k = 0") (auto simp: deleteBatchSize_def dest: delete_step_zero)
qed simp

lemma DeleteInBatches_other_rows:
  "e \<noteq> e' \<Longrightarrow> old_rows e ts (tabs x) = 0 \<Longrightarrow> DeleteInBatches fuel db ts e' x = (r, x') \<Longrightarrow>
   old_rows e ts (tabs x') = 0"
proof -
  assume ne: "e \<noteq> e'" and z: "old_rows e ts (tabs x) = 0" and run: "DeleteInBatches fuel db ts e' x = (r, x')"
  have step: "old_rows e ts tb' = 0" if "delete_step e' lim ts tb k tb'" "old_rows e ts tb = 0" for lim tb k tb'
    using that ne by (cases e; cases e') (auto simp: filter_empty_conv)
  have "keeps (\<lambda>x. old_rows e ts (tabs x) = 0) (DeleteInBatches fuel db ts e')"
  proof (induction fuel)
    case (Suc fuel)
    have "keeps (\<lambda>x. old_rows e ts (tabs x) = 0) (s_delete db e' deleteBatchSize ts)"
      by (rule tripleI; drule delete_law) (auto dest: step)
    then show ?case by (auto intro!: wp Suc)
  qed (simp add: triple_def)
  with z run show ?thesis by (cases r) (auto dest: triple_Inr triple_Inl)
qed

lemma DeleteInBatches_fuel:
  "(old_rows e ts (tabs x) + deleteBatchSize - 1) div deleteBatchSize < fuel \<Longrightarrow>
   DeleteInBatches fuel db ts e x = (r, x') \<Longrightarrow> r \<noteq> Inl OutOfFuel"
proof (induction fuel arbitrary: x)
  case (Suc fuel)
  show ?case
  proof
    assume "r = Inl OutOfFuel"
    with Suc.prems(2) obtain k x1 where d: "s_delete db e deleteBatchSize ts x = (Inr k, x1)" and k: "k \<noteq> 0"
      and rest: "DeleteInBatches fuel db ts e x1 = (r, x')"
      by (auto simp: bindE_Inl_iff wrapE_def wrapR_def split: prod.splits sum.splits if_splits)
    from d have s: "delete_step e deleteBatchSize ts (tabs x) k (tabs x1)" using delete_law by fastforce
    then have c: "old_rows e ts (tabs x1) + k = old_rows e ts (tabs x)" by (rule delete_step_count)
    have "k = min deleteBatchSize (old_rows e ts (tabs x))" using s by (cases e) (auto simp: deletes_def)
    with c k Suc.prems(1)
    have "(old_rows e ts (tabs x1) + deleteBatchSize - 1) div deleteBatchSize < fuel"
      by (auto simp: deleteBatchSize_def min_def split: if_splits)
    from Suc.IH [OF this rest] \<open>r = Inl OutOfFuel\<close> show False by simp
  qed
qed simp

end

lemma reads_pos: "reads tabs g m \<Longrightarrow> reads tabs (\<lambda>tb. map_option f (g tb)) (bindE m (\<lambda>v. ret (f v)))"
  by (auto simp: reads_def bindE_Inr_iff bindE_Inl_iff)
     (auto simp: bindE_def split: prod.splits sum.splits)

lemma logs_dated_states [simp]: "logs_dated (upsert_state n i t tb) \<longleftrightarrow> logs_dated tb"
  by (simp add: logs_dated_def)

context relational_store
begin

lemma firstSurvivingBlock_reads: "reads tabs first_block_pos (firstSurvivingBlock db)"
  using reads_pos [OF first_block_law] unfolding firstSurvivingBlock_def first_block_pos_def [abs_def] .

lemma firstSurvivingLog_reads: "reads tabs first_log_pos (firstSurvivingLog db)"
  using reads_pos [OF first_log_law] unfolding firstSurvivingLog_def first_log_pos_def [abs_def] .

text \<open>Raising a floor writes nothing but the floor; when it succeeds, the raised one.\<close>

lemma raiseFloor_cases:
  assumes pos: "reads tabs pos (first db)" and run: "raiseFloor db ts n first x = (r, x')"
  shows "tabs x' = tabs x \<and> (r = Inr () \<longrightarrow> raised ts (state_of (tabs x) n) (pos (tabs x)) = state_of (tabs x) n) \<or>
    (\<exists>i t. pos (tabs x) = Some (i, t) \<and> tabs x' = upsert_state n i t (tabs x) \<and>
       raised ts (state_of (tabs x) n) (pos (tabs x)) = \<lparr>Index = i, BlockTimestamp = t\<rparr>)"
proof -
  obtain g x1 where g: "GetState db n x = (g, x1)" by force
  show ?thesis
  proof (cases g)
    case (Inl e)
    with run g show ?thesis by (auto simp: raiseFloor_def bindE_def wrapE_def dest: GetState_tabs)
  next
    case (Inr floor)
    with g have f: "floor = state_of (tabs x) n" "tabs x1 = tabs x" using GetState_Inr by auto
    show ?thesis
    proof (cases "IsSet floor \<and> ts \<le> BlockTimestamp floor")
      case True
      with run g Inr f show ?thesis by (auto simp: raiseFloor_def bindE_def wrapE_def raised_def)
    next
      case False
      obtain p x2 where p: "first db x1 = (p, x2)" by force
      with readsD [OF pos] f have t2: "tabs x2 = tabs x" by metis
      show ?thesis
      proof (cases p)
        case (Inl e)
        with run g Inr False p have "x' = x2" "is_not_found e \<or> r \<noteq> Inr ()"
          by (auto simp: raiseFloor_def bindE_def wrapE_def split: if_splits)
        with Inl p t2 f False reads_not_found [OF pos, of x1 e x2] show ?thesis
          by (auto simp: raised_def)
      next
        case (Inr it)
        obtain i t where it: "it = (i, t)" by force
        with Inr p f reads_Inr [OF pos, of x1 it x2] have P: "pos (tabs x) = Some (i, t)" by simp
        from run g \<open>g = Inr floor\<close> False p Inr it have up: "UpdateState db n i t x2 = (r, x')"
          by (simp add: raiseFloor_def bindE_def wrapE_def)
        from writesD [OF UpdateState_writes up] t2 P f False show ?thesis
          by (auto simp: raised_def)
      qed
    qed
  qed
qed

lemma raiseFloor_Inr:
  assumes "reads tabs pos (first db)" and "raiseFloor db ts n first x = (Inr (), x')"
  shows "state_of (tabs x') n = raised ts (state_of (tabs x) n) (pos (tabs x))"
    and "m \<noteq> n \<Longrightarrow> tb_states (tabs x') m = tb_states (tabs x) m"
    and "tb_blocks (tabs x') = tb_blocks (tabs x)" and "tb_txs (tabs x') = tb_txs (tabs x)"
    and "tb_logs (tabs x') = tb_logs (tabs x)"
  using raiseFloor_cases [where first = first, OF assms] by (auto simp: state_of_def)

lemma raiseFloor_keeps:
  assumes "reads tabs pos (first db)"
  shows "keeps (\<lambda>x. kept ts tb0 (tabs x) \<and> logs_dated (tabs x)) (raiseFloor db ts' n first)"
  by (rule tripleI; drule raiseFloor_cases [where first = first, OF assms]) auto

lemma dropAndRaiseFloor_keeps:
  assumes "reads tabs pos (first db)"
  shows "keeps (\<lambda>x. kept ts tb0 (tabs x) \<and> logs_dated (tabs x)) (dropAndRaiseFloor fuel db ts n first es)"
proof -
  have "keeps (\<lambda>x. kept ts tb0 (tabs x) \<and> logs_dated (tabs x)) (DeleteInBatches fuel db ts e)" for e
  proof (rule keepsI)
    fix x r x' assume I: "kept ts tb0 (tabs x) \<and> logs_dated (tabs x)"
      and run: "DeleteInBatches fuel db ts e x = (r, x')"
    from keepsD [OF DeleteInBatches_keeps [of ts tb0 "tb_states (tabs x)"] run] I
    show "kept ts tb0 (tabs x') \<and> logs_dated (tabs x')" by simp
  qed
  then show ?thesis unfolding dropAndRaiseFloor_def
    by (intro keeps_bind keeps_foldE raiseFloor_keeps [where first = first, OF assms])
qed

lemma dropHistoryBelow_kept:
  assumes "logs_dated (tabs x)" and "dropHistoryBelow fuel db ts x = (r, x')"
  shows "kept ts (tabs x) (tabs x') \<and> logs_dated (tabs x')"
proof -
  have "keeps (\<lambda>y. kept ts (tabs x) (tabs y) \<and> logs_dated (tabs y)) (dropHistoryBelow fuel db ts)"
    unfolding dropHistoryBelow_def
    by (intro keeps_bind dropAndRaiseFloor_keeps [where first = firstSurvivingLog, OF firstSurvivingLog_reads]
        dropAndRaiseFloor_keeps [where first = firstSurvivingBlock, OF firstSurvivingBlock_reads])
  from keepsD [OF this assms(2)] assms(1) show ?thesis by simp
qed

end

context relational_store
begin

lemma DeleteInBatches_states: 
  assumes "DeleteInBatches fuel db ts e x = (r, x')"
  shows "tb_states (tabs x') = tb_states (tabs x)"
proof -
  have "keeps (\<lambda>y. tb_states (tabs y) = tb_states (tabs x)) (DeleteInBatches fuel db ts e)"
  proof (induction fuel)
    case (Suc fuel)
    have "tb_states tb' = tb_states tb" if "delete_step e lim ts tb k tb'" for lim tb k tb'
      using that by (cases e) auto
    then have "keeps (\<lambda>y. tb_states (tabs y) = tb_states (tabs x)) (s_delete db e deleteBatchSize ts)"
      by (intro keepsI) (drule delete_law, auto)
    then show ?case by (auto intro!: wp Suc)
  qed (simp add: triple_def)
  from keepsD [OF this assms] show ?thesis by simp
qed

text \<open>The two passes of a succeeding iteration.\<close>

lemma dropHistoryBelow_Inr:
  assumes "dropHistoryBelow fuel db ts x = (Inr (), x')"
  shows "old_rows LogEntity ts (tabs x') = 0" "old_rows TransactionEntity ts (tabs x') = 0"
    "old_rows BlockEntity ts (tabs x') = 0"
    "state_of (tabs x') BlockFloor = raised ts (state_of (tabs x) BlockFloor) (first_block_pos (tabs x'))"
    "n \<noteq> BlockFloor \<Longrightarrow> n \<noteq> LogFloor \<Longrightarrow> tb_states (tabs x') n = tb_states (tabs x) n"
proof -
  from assms obtain x1 x2 x3 x4 where
    d1: "DeleteInBatches fuel db ts LogEntity x = (Inr (), x1)" and
    f1: "raiseFloor db ts LogFloor firstSurvivingLog x1 = (Inr (), x2)" and
    d2: "DeleteInBatches fuel db ts TransactionEntity x2 = (Inr (), x3)" and
    d3: "DeleteInBatches fuel db ts BlockEntity x3 = (Inr (), x4)" and
    f2: "raiseFloor db ts BlockFloor firstSurvivingBlock x4 = (Inr (), x')"
    by (auto simp: dropHistoryBelow_def dropAndRaiseFloor_def bindE_Inr_iff)
  note r1 = raiseFloor_Inr [OF firstSurvivingLog_reads f1]
  note r2 = raiseFloor_Inr [OF firstSurvivingBlock_reads f2]
  note s = DeleteInBatches_states [OF d1] DeleteInBatches_states [OF d2] DeleteInBatches_states [OF d3]
  have "old_rows LogEntity ts (tabs x2) = 0" using DeleteInBatches_done [OF d1] r1(5) by simp
  then have "old_rows LogEntity ts (tabs x3) = 0"
    by (intro DeleteInBatches_other_rows [OF _ _ d2] entity.distinct)
  then have "old_rows LogEntity ts (tabs x4) = 0"
    by (intro DeleteInBatches_other_rows [OF _ _ d3] entity.distinct)
  then show "old_rows LogEntity ts (tabs x') = 0" using r2(5) by simp
  have "old_rows TransactionEntity ts (tabs x4) = 0"
    by (intro DeleteInBatches_other_rows [OF _ DeleteInBatches_done [OF d2] d3] entity.distinct)
  then show "old_rows TransactionEntity ts (tabs x') = 0" using r2(4) by simp
  show "old_rows BlockEntity ts (tabs x') = 0" using DeleteInBatches_done [OF d3] r2(3) by simp
  have "state_of (tabs x4) BlockFloor = state_of (tabs x) BlockFloor"
    using s r1(2) [of BlockFloor] by (simp add: state_of_def)
  then show "state_of (tabs x') BlockFloor = raised ts (state_of (tabs x) BlockFloor) (first_block_pos (tabs x'))"
    using r2(1,3) by (simp add: first_block_pos_def first_block_of_def)
  show "n \<noteq> BlockFloor \<Longrightarrow> n \<noteq> LogFloor \<Longrightarrow> tb_states (tabs x') n = tb_states (tabs x) n"
    using s r1(2) [of n] r2(2) [of n] by simp
qed

end

text \<open>
  Raising the floor over what a drop leaves keeps the floor's claim: rows from the boundary
  on are still there, and a block from the new floor on is not older than the floor's row.
\<close>

lemma raised_covers:
  assumes "covers tb" "chain_dated tb" "floor_dated tb" "kept ts tb tb'"
    and old: "\<forall>b \<in> set (tb_blocks tb'). ts \<le> b_timestamp b" and ne: "tb_blocks tb' \<noteq> []"
    and set0: "IsSet (state_of tb BlockFloor)"
    and f: "state_of tb' BlockFloor = raised ts (state_of tb BlockFloor) (first_block_pos tb')"
    and l: "tb_states tb' LastIndexed = tb_states tb LastIndexed"
  shows "covers tb'"
proof (rule coversI)
  fix n fl li assume fl: "tb_states tb' BlockFloor = Some fl" and li: "tb_states tb' LastIndexed = Some li"
    and "Index fl \<le> n" "n \<le> Index li"
  then have lo: "Index (state_of tb' BlockFloor) \<le> n" and hi: "n \<le> Index (state_of tb LastIndexed)"
    using l by (simp_all add: state_of_def)
  obtain fl0 where fl0: "tb_states tb BlockFloor = Some fl0"
    using set0 by (cases "tb_states tb BlockFloor") (auto simp: state_of_def IsSet_def zero_state_def)
  have cov: "n \<in> b_number ` set (tb_blocks tb)" if "Index (state_of tb BlockFloor) \<le> n"
    using coversD [OF assms(1) fl0 li [unfolded l]] that hi fl0 li l by (simp add: state_of_def)
  have keep: "n \<in> b_number ` set (tb_blocks tb')"
    if "Index (state_of tb BlockFloor) \<le> n" "\<And>c. c \<in> set (tb_blocks tb) \<Longrightarrow> b_number c = n \<Longrightarrow> ts \<le> b_timestamp c"
    using cov [OF that(1)] assms(4) that(2) by (force simp: kept_def)
  show "n \<in> b_number ` set (tb_blocks tb')"
  proof (cases "ts \<le> BlockTimestamp (state_of tb BlockFloor)")
    case True
    then have "Index (state_of tb BlockFloor) \<le> n" using lo f set0 by (simp add: raised_def)
    moreover have "ts \<le> b_timestamp c" if "c \<in> set (tb_blocks tb)" "b_number c = n" for c
      using assms(3) that True calculation by (fastforce simp: floor_dated_def)
    ultimately show ?thesis by (rule keep)
  next
    case False
    obtain b where b: "first_block_of tb' = Some b" using ne by (cases "first_block_of tb'") auto
    then have bin: "b \<in> set (tb_blocks tb')" using first_block_of_Some by blast
    then have young: "ts \<le> b_timestamp b" and binold: "b \<in> set (tb_blocks tb)"
      using old assms(4) by (auto simp: kept_def)
    have nb: "b_number b \<le> n" using lo f b False by (simp add: raised_def first_block_pos_def)
    have "Index (state_of tb BlockFloor) < b_number b"
      using assms(3) binold young False by (force simp: floor_dated_def not_le)
    with nb have "Index (state_of tb BlockFloor) \<le> n" by simp
    moreover have "ts \<le> b_timestamp c" if "c \<in> set (tb_blocks tb)" "b_number c = n" for c
      using assms(2) that binold nb young by (fastforce simp: chain_dated_def)
    ultimately show ?thesis by (rule keep)
  qed
qed

subsection \<open>Properties of the history drop\<close>

text \<open>
  C14: an iteration of the history drop loses no row from the boundary on and adds none,
  whatever fails on the way: blocks, transactions and logs at or after the boundary
  survive every outcome, also the deletions that cascade from a transaction to its logs.
\<close>

theorem drop_keeps_recent:
  assumes "relational_store db tabs" and "logs_dated (tabs x)"
    and "dropHistoryBelow fuel db deleteStartTime x = (r, x')"
  shows "kept deleteStartTime (tabs x) (tabs x') \<and> logs_dated (tabs x')"
  using relational_store.dropHistoryBelow_kept [OF assms] .

text \<open>
  C13: when an iteration of the history drop succeeds, no row older than the boundary is
  left in the three tables, \<open>LastIndexed\<close> and \<open>ChainTip\<close> are untouched, and the claim of
  the coverage states is kept as long as some block is left: every block from the floor the iteration leaves to
  \<open>LastIndexed\<close> is in the database. When no block is left the floor stays where it was. It is assumed that the claim
  was true, that the floor was set, and that the stored times are those of a chain: the times of blocks do not decrease with
  their numbers, the floor has the time of its block, and a log has the time of its transaction.
\<close>

theorem drop_keeps_coverage:
  assumes db: "relational_store db tabs" and "logs_dated (tabs x)"
    and "covers (tabs x)" "chain_dated (tabs x)" "floor_dated (tabs x)"
    and "IsSet (state_of (tabs x) BlockFloor)"
    and run: "dropHistoryBelow fuel db deleteStartTime x = (Inr (), x')"
  shows "(\<forall>e. old_rows e deleteStartTime (tabs x') = 0) \<and>
    state_of (tabs x') LastIndexed = state_of (tabs x) LastIndexed \<and>
    state_of (tabs x') ChainTip = state_of (tabs x) ChainTip \<and>
    (tb_blocks (tabs x') \<noteq> [] \<longrightarrow> covers (tabs x')) \<and>
    (tb_blocks (tabs x') = [] \<longrightarrow> state_of (tabs x') BlockFloor = state_of (tabs x) BlockFloor)"
proof -
  note d = relational_store.dropHistoryBelow_Inr [OF db run]
  have k: "kept deleteStartTime (tabs x) (tabs x')"
    using relational_store.dropHistoryBelow_kept [OF db assms(2) run] by simp
  have "\<forall>e. old_rows e deleteStartTime (tabs x') = 0" using d(1-3) by (metis entity.exhaust)
  moreover have "covers (tabs x')" if "tb_blocks (tabs x') \<noteq> []"
    using raised_covers [OF assms(3-5) k _ that assms(6) d(4) d(5)] d(3)
    by (auto simp: filter_empty_conv not_less)
  moreover have "state_of (tabs x') BlockFloor = state_of (tabs x) BlockFloor" if "tb_blocks (tabs x') = []"
    using d(4) that by (simp add: raised_def first_block_pos_def first_block_of_def)
  moreover have "state_of (tabs x') LastIndexed = state_of (tabs x) LastIndexed" "state_of (tabs x') ChainTip = state_of (tabs x) ChainTip"
    using d(5) [of LastIndexed] d(5) [of ChainTip] by (simp_all add: state_of_def)
  ultimately show ?thesis by blast
qed

text \<open>
  C25: the deletion loop ends: with one batch for every 1000 rows below the boundary, and
  the empty batch that ends the loop, it is never cut off.
\<close>

theorem delete_in_batches_terminates:
  assumes "relational_store db tabs"
    and "(old_rows entity ts (tabs x) + deleteBatchSize - 1) div deleteBatchSize < fuel"
  shows "fst (DeleteInBatches fuel db ts entity x) \<noteq> Inl OutOfFuel"
  using relational_store.DeleteInBatches_fuel [OF assms, of "fst (DeleteInBatches fuel db ts entity x)"
      "snd (DeleteInBatches fuel db ts entity x)"] by simp

subsection \<open>On a concrete database\<close>

text \<open>Blocks 1, 2 and 3 at times 10, 20 and 30, with the floor at 1.\<close>

definition small_tables :: tables where
  "small_tables = \<lparr>
     tb_states = (\<lambda>_. None)(LastIndexed \<mapsto> \<lparr>Index = 3, BlockTimestamp = 30\<rparr>,
                            BlockFloor \<mapsto> \<lparr>Index = 1, BlockTimestamp = 10\<rparr>),
     tb_blocks = [\<lparr>b_hash = ''a'', b_number = 1, b_timestamp = 10\<rparr>,
                  \<lparr>b_hash = ''b'', b_number = 2, b_timestamp = 20\<rparr>,
                  \<lparr>b_hash = ''c'', b_number = 3, b_timestamp = 30\<rparr>],
     tb_txs = [], tb_logs = []\<rparr>"

definition small_faults :: "bool list" where
  "small_faults = [False, False, False, False, False, False, False, False, True]"

definition small_world :: "bool list \<Rightarrow> mem" where
  "small_world faults = empty_mem\<lparr>m_tabs := small_tables, m_faults := faults\<rparr>"

lemma small_tables_fields [simp]:
  "state_of small_tables BlockFloor = \<lparr>Index = 1, BlockTimestamp = 10\<rparr>"
  "state_of small_tables LastIndexed = \<lparr>Index = 3, BlockTimestamp = 30\<rparr>"
  "tb_logs small_tables = []" "tb_txs small_tables = []"
  by (simp_all add: small_tables_def state_of_def)

lemma small_world_fields [simp]: "m_tabs (small_world fs) = small_tables" "m_faults (small_world fs) = fs"
  by (simp_all add: small_world_def)

lemma one_to_three: "1 \<le> n \<Longrightarrow> n \<le> 3 \<Longrightarrow> n = 1 \<or> n = 2 \<or> n = (3::u64)"
  by (auto simp: word_le_nat_alt word_eq_unat)

lemma small_tables_sound:
  "covers small_tables" "chain_dated small_tables" "floor_dated small_tables" "logs_dated small_tables"
proof -
  show "covers small_tables"
    by (rule coversI) (auto dest!: one_to_three simp: small_tables_def)
  show "chain_dated small_tables" by (simp add: chain_dated_def small_tables_def word_le_nat_alt)
  show "floor_dated small_tables" unfolding floor_dated_def
    by (simp add: small_tables_def [THEN arg_cong, of tb_blocks] word_le_nat_alt)
  show "logs_dated small_tables" by (simp add: logs_dated_def)
qed

theorem drop_keeps_recent_witness:
  "kept 25 small_tables (m_tabs (snd (dropHistoryBelow 3 mem_store 25 (small_world [False, True])))) \<and>
   logs_dated (m_tabs (snd (dropHistoryBelow 3 mem_store 25 (small_world [False, True]))))"
  using drop_keeps_recent [OF mem_store.relational_store_axioms,
      of "small_world [False, True]" 3 25 "fst (dropHistoryBelow 3 mem_store 25 (small_world [False, True]))"
      "snd (dropHistoryBelow 3 mem_store 25 (small_world [False, True]))"]
  by (simp add: small_tables_sound)

definition after_drop :: "(go_error + unit) \<times> mem \<Rightarrow> bool \<times> db_block list \<times> state_row \<times> state_row" where
  "after_drop = (\<lambda>(r, x). (r = Inr (), tb_blocks (m_tabs x), state_of (m_tabs x) BlockFloor, state_of (m_tabs x) LastIndexed))"

lemma small_drop:
  "after_drop (dropHistoryBelow 3 mem_store 25 (small_world [])) =
     (True, [\<lparr>b_hash = ''c'', b_number = 3, b_timestamp = 30\<rparr>],
      \<lparr>Index = 3, BlockTimestamp = 30\<rparr>, \<lparr>Index = 3, BlockTimestamp = 30\<rparr>)"
  by code_simp

theorem drop_keeps_coverage_witness:
  "covers (m_tabs (snd (dropHistoryBelow 3 mem_store 25 (small_world []))))"
  using drop_keeps_coverage [OF mem_store.relational_store_axioms, of "small_world []" 3 25
      "snd (dropHistoryBelow 3 mem_store 25 (small_world []))"] small_drop
  by (cases "dropHistoryBelow 3 mem_store 25 (small_world [])")
     (simp add: after_drop_def small_tables_sound IsSet_def)

theorem delete_in_batches_terminates_witness:
  "fst (DeleteInBatches 2 mem_store 25 BlockEntity (small_world [])) \<noteq> Inl OutOfFuel"
  by (rule delete_in_batches_terminates [OF mem_store.relational_store_axioms])
     (simp add: small_tables_def deleteBatchSize_def)

text \<open>
  C32: the floor is raised after the deletions, not before them: when the write that raises
  it fails, the blocks are gone and the coverage states still claim them. In the small
  database, whose claim holds, a drop that loses its last statement leaves the claim false.
\<close>

theorem failed_drop_overclaims:
  "covers (m_tabs (small_world (small_faults))) \<and>
   (\<exists>e x'. dropHistoryBelow 3 mem_store 25 (small_world (small_faults)) = (Inl e, x') \<and>
      \<not> covers (m_tabs x'))"
proof -
  have run: "after_drop (dropHistoryBelow 3 mem_store 25 (small_world small_faults)) =
      (False, [\<lparr>b_hash = ''c'', b_number = 3, b_timestamp = 30\<rparr>],
       \<lparr>Index = 1, BlockTimestamp = 10\<rparr>, \<lparr>Index = 3, BlockTimestamp = 30\<rparr>)"
    by code_simp
  obtain r x' where rx: "dropHistoryBelow 3 mem_store 25 (small_world small_faults) = (r, x')" by force
  with run have "\<not> covers (m_tabs x')"
    using coversD [of "m_tabs x'" "\<lparr>Index = 1, BlockTimestamp = 10\<rparr>" "\<lparr>Index = 3, BlockTimestamp = 30\<rparr>" 1]
    by (auto simp: after_drop_def state_of_def zero_state_def word_le_nat_alt split: option.splits)
  moreover from rx run obtain e where "r = Inl e" by (cases r) (auto simp: after_drop_def)
  ultimately show ?thesis by (simp add: rx small_tables_sound)
qed

end
