(* ===== verification/Runtime.thy ===== *)
theory Runtime
  imports Fsp_Startup History_Drop
begin

text \<open>
  The life of the process: \<^verbatim>\<open>cmd/indexer/main.go\<close>, \<^verbatim>\<open>internal/fsp/runtime.go\<close>, the database
  connection of \<^verbatim>\<open>internal/database/database.go\<close>, the readiness flag of \<^verbatim>\<open>internal/ready\<close> and the
  endpoint of \<^verbatim>\<open>internal/health\<close>. \<open>host\<close> is what the process takes from outside: the configuration
  file and the environment, the third-party constructors (RPC clients, database, contract
  bindings), the retrying of each result type, and how many iterations of the history drop run
  before continuous indexing. Logging and the signal handler are left out.
\<close>

subsection \<open>Readiness and health\<close>

definition SetSynced :: "bool \<Rightarrow> ('x world, unit) io" where
  "SetSynced value = (\<lambda>w. (Inr (), w\<lparr>synced := value\<rparr>))"

definition IsSynced :: "'x world \<Rightarrow> bool" where
  "IsSynced w = synced w"

text \<open>The patterns of the mux with their handlers: the status code and the body of the reply.\<close>

definition newline :: string where "newline = [CHR 0x0A]"

definition handler :: "(string \<times> ('x world \<Rightarrow> nat \<times> string)) list" where
  "handler = [(''/health'', \<lambda>w.
     if \<not> IsSynced w then (503, ''false'' @ newline) else (200, ''true'' @ newline))]"

text \<open>The reply to a request for \<open>path\<close>; a path without a pattern is answered by 404.\<close>

definition serve :: "string \<Rightarrow> 'x world \<Rightarrow> nat \<times> string" where
  "serve path w = (case map_of handler path of Some h \<Rightarrow> h w | None \<Rightarrow> (404, ''404 page not found'' @ newline))"

subsection \<open>The database connection\<close>

record mysql_config =
  User :: string
  Passwd :: string
  Net :: string
  Addr :: string
  DBName :: string
  AllowNativePasswords :: bool
  ParseTime :: bool

datatype log_level = Silent | Info

record gorm_config =
  LogMode :: log_level
  CreateBatchSize :: nat

definition tcp :: string where "tcp = ''tcp''"

definition HistoryDropIntervalCheck :: nat where "HistoryDropIntervalCheck = 60 * 30"

text \<open>\<^verbatim>\<open>%d\<close> of a signed number.\<close>

definition signed_decimal :: "int \<Rightarrow> string" where
  "signed_decimal n = (if n < 0 then ''-'' @ decimal (nat (- n)) else decimal (nat n))"

definition getGormLogLevel :: "DBConfig \<Rightarrow> log_level" where
  "getGormLogLevel cfg = (if LogQueries cfg then Info else Silent)"

definition connect :: "(mysql_config \<Rightarrow> gorm_config \<Rightarrow> ('x, 'x store) io) \<Rightarrow> DBConfig \<Rightarrow> ('x, 'x store) io" where
  "connect gorm_Open cfg =
     (let dbConfig = \<lparr>User = Username cfg, Passwd = Password cfg, Net = tcp,
            Addr = Host cfg @ '':'' @ signed_decimal (Port cfg), DBName = Database cfg,
            AllowNativePasswords = True, ParseTime = True\<rparr>;
          gormConfig = \<lparr>LogMode = getGormLogLevel cfg, CreateBatchSize = DBTransactionBatchesSize\<rparr>
      in bindE (gorm_Open dbConfig gormConfig) (\<lambda>db. ret db))"

text \<open>The counter of transaction ids starts above the greatest stored id.\<close>

definition storeTransactionID :: "'x store \<Rightarrow> ('x world, unit) io" where
  "storeTransactionID db = (\<lambda>w.
     case liftX (s_last_tx db) w of
       (Inr maxIndexTx, w') \<Rightarrow> (Inr (), w'\<lparr>TransactionId := t_id maxIndexTx + 1\<rparr>)
     | (Inl e, w') \<Rightarrow>
         if is_not_found e then (Inr (), w'\<lparr>TransactionId := 1\<rparr>)
         else (Inl (Wrapped ''Failed to obtain ID data from DB'' e), w'))"

definition ConnectAndInitialize ::
  "(mysql_config \<Rightarrow> gorm_config \<Rightarrow> ('x, 'x store) io) \<Rightarrow> DBConfig \<Rightarrow> ('x world, 'x store) io" where
  "ConnectAndInitialize gorm_Open cfg =
     bindE (wrapE ''ConnectAndInitialize: Connect'' (liftX (connect gorm_Open cfg))) (\<lambda>db.
     bindE (if DropTableAtStart cfg then liftX (s_drop_tables db) else ret ()) (\<lambda>_.
     bindE (wrapE ''ConnectAndInitialize: AutoMigrate'' (liftX (s_auto_migrate db))) (\<lambda>_.
     bindE (storeTransactionID db) (\<lambda>_. ret db))))"

subsection \<open>What the process takes from outside\<close>

record ('x, 'u) host =
  h_decode :: "Config \<Rightarrow> go_error + Config \<times> string list"
  h_env_order :: "env_var list"
  h_env :: "env_var \<Rightarrow> string option"
  h_reward_logs :: "LogInfo list"
  h_url_Parse :: "string \<Rightarrow> go_error + 'u"
  h_set_query :: "string \<Rightarrow> string \<Rightarrow> 'u \<Rightarrow> 'u"
  h_url_String :: "'u \<Rightarrow> string"
  h_avx_dial :: "string \<Rightarrow> go_error + 'x rpc"
  h_eth_dial :: "string \<Rightarrow> go_error + 'x rpc"
  h_nil_rpc :: "'x rpc"
  h_ctx_err :: "'x \<Rightarrow> go_error option"
  h_bind :: "'x bind_package"
  h_new_fsm :: "'x fsm_binding"
  h_gorm_Open :: "mysql_config \<Rightarrow> gorm_config \<Rightarrow> ('x, 'x store) io"
  h_deps :: "'x deps"
  h_retry_u64 :: "('x, u64) backoff_retry"
  h_retry_history :: "('x world, u64) backoff_retry"
  h_retry_continuous :: "('x world, unit) backoff_retry"
  h_drop_rounds :: nat
  h_drop_fuel :: nat

text \<open>
  \<^verbatim>\<open>go database.DropHistory(...)\<close>: the iterations that the goroutine completes before
  continuous indexing starts. Later iterations interleave with continuous indexing:
  \<open>Goroutines\<close> and \<open>Live\<close>.
\<close>

definition go_DropHistory :: "('x, 'u) host \<Rightarrow> 'x store \<Rightarrow> ('x, u64) io \<Rightarrow> ('x world, unit) io" where
  "go_DropHistory H db boundaryFn =
     (\<lambda>w. (Inr (), w\<lparr>ext := DropHistory (h_drop_rounds H) (h_drop_fuel H) db boundaryFn (ext w)\<rparr>))"

text \<open>One attempt of continuous indexing: the progress is read afresh.\<close>

definition continuous_attempt :: "'x deps \<Rightarrow> 'x engine \<Rightarrow> 'x store \<Rightarrow> u64 \<Rightarrow> ('x world, unit) io" where
  "continuous_attempt D cIndexer db historyLastIndex =
     bindE (liftX (ContinuousStartIndex db historyLastIndex)) (\<lambda>startIndex.
       IndexContinuous D cIndexer startIndex)"

subsection \<open>The full mode\<close>

definition getStartIndex ::
  "('x, 'u) host \<Rightarrow> 'x deps \<Rightarrow> 'x store \<Rightarrow> 'x client \<Rightarrow> Config \<Rightarrow> u64 \<Rightarrow> ('x, u64) io" where
  "getStartIndex H D db ethClient cfg historyDrop = (\<lambda>x.
     case s_last_block db x of
       (Inr latestIndexedBlock, x') \<Rightarrow> (Inr (b_number latestIndexedBlock + 1), x')
     | (Inl e, x') \<Rightarrow>
         if \<not> is_not_found e then (Inl (Wrapped ''DB query error'' e), x')
         else if historyDrop = 0 then (Inr (StartIndex (Indexer cfg)), x')
         else
           wrapE ''GetStartBlock error''
             (Retry (h_retry_u64 H)
               (GetStartBlock (retry_block D) (max_elapsed D) historyDrop ethClient (StartIndex (Indexer cfg)))) x')"

definition runIndexer ::
  "('x, 'u) host \<Rightarrow> 'x deps \<Rightarrow> Config \<Rightarrow> 'x store \<Rightarrow> 'x client \<Rightarrow> 'x registry \<Rightarrow> u64 \<Rightarrow> ('x world, unit) io" where
  "runIndexer H D cfg db ethClient resolver historyDrop =
     bindE (liftR (NewEngine (lib D) cfg db ethClient (Some resolver))) (\<lambda>cIndexer.
     bindE (wrapE ''Index history fatal error''
              (Retry (h_retry_history H) (IndexHistory D cIndexer (StartIndex (Indexer cfg))))) (\<lambda>historyLastIndex.
     bindE (if 0 < historyDrop
            then go_DropHistory H db (TipAgeBoundary (retry_block D) (max_elapsed D) ethClient historyDrop)
            else ret ()) (\<lambda>_.
     bindE (SetSynced True) (\<lambda>_.
     bindE (wrapE ''Index continuous fatal error''
              (RetryNoReturn (h_retry_continuous H) (continuous_attempt D cIndexer db historyLastIndex))) (\<lambda>_.
       ret ())))))"

text \<open>The end of \<^verbatim>\<open>run\<close> in full mode: where to start, and indexing from there.\<close>

definition index_full ::
  "('x, 'u) host \<Rightarrow> 'x deps \<Rightarrow> Config \<Rightarrow> 'x store \<Rightarrow> 'x client \<Rightarrow> 'x registry \<Rightarrow> u64 \<Rightarrow> ('x world, unit) io" where
  "index_full H D cfg db ethClient resolver historyDrop =
     bindE (wrapE ''getStartIndex error'' (liftX (getStartIndex H D db ethClient cfg historyDrop))) (\<lambda>startIndex.
       runIndexer H D (cfg\<lparr>Indexer := (Indexer cfg)\<lparr>StartIndex := startIndex\<rparr>\<rparr>) db ethClient resolver historyDrop)"

subsection \<open>The FSP mode\<close>

definition RunIndexer ::
  "('x, 'u) host \<Rightarrow> 'x deps \<Rightarrow> Config \<Rightarrow> 'x store \<Rightarrow> 'x client \<Rightarrow> 'x registry \<Rightarrow> ('x world, unit) io" where
  "RunIndexer H D cfg db ethClient resolver =
     bindE (liftR (NewEngine (lib D) cfg db ethClient (Some resolver))) (\<lambda>cIndexer.
     bindE (SetSynced False) (\<lambda>_.
     bindE (wrapE ''FSP startup backfill fatal error''
              (Retry (h_retry_history H) (IndexStartup D cIndexer resolver (h_new_fsm H) (h_reward_logs H)))) (\<lambda>historyLastIndex.
     bindE (wrapE ''resolve FlareSystemsManager for history drop''
              (ResolveByName resolver fspFsmContractName)) (\<lambda>fsmAddress.
     bindE (wrapE ''bind FlareSystemsManager caller for history drop''
              (liftR (h_new_fsm H fsmAddress (e_client cIndexer)))) (\<lambda>fsmCaller.
     bindE (go_DropHistory H db
              (RetryWithMaxElapsed (h_retry_u64 H) (max_elapsed D)
                 (fspRetentionBoundary (loop_fuel D) fsmCaller (HistoryEpochs (Indexer cfg))))) (\<lambda>_.
     bindE (SetSynced True) (\<lambda>_.
     bindE (wrapE ''FSP Index continuous fatal error''
              (RetryNoReturn (h_retry_continuous H) (continuous_attempt D cIndexer db historyLastIndex))) (\<lambda>_.
       ret ()))))))))"

subsection \<open>The program\<close>

text \<open>
  The configured maximal time of a retried call, in nanoseconds, replaces the default. \<^verbatim>\<open>Call\<close>
  runs the callback that \<^verbatim>\<open>init\<close> registered.
\<close>

definition configured_deps :: "('x, 'u) host \<Rightarrow> Config \<Rightarrow> 'x deps" where
  "configured_deps H cfg =
     (h_deps H)\<lparr>max_elapsed := nat (BackoffMaxElapsedTime (Call (AddCallback init_callback []) (as_GlobalConfig cfg) default_settings))\<rparr>"

definition run :: "('x, 'u) host \<Rightarrow> ('x world, unit) io" where
  "run H =
     bindE (liftR (BuildConfig (h_reward_logs H) (h_decode H) (h_env_order H) (h_env H))) (\<lambda>cfg.
     let D = configured_deps H cfg in
     bindE (wrapE ''Invalid node URL in config''
              (liftR (FullNodeURL (h_url_Parse H) (h_set_query H) (Chain cfg)))) (\<lambda>nodeURL.
     bindE (wrapE ''Could not connect to the RPC nodes''
              (liftR (DialRPCNode (h_avx_dial H) (h_eth_dial H) (h_nil_rpc H) (h_ctx_err H)
                        (h_url_String H nodeURL) (CfgChainType (Chain cfg)) (RpcConcurrency (Indexer cfg))))) (\<lambda>ethClient.
     bindE (wrapE ''Failed to initialize contract registry resolver''
              (NewContractResolver (lib D) (h_bind H) ethClient)) (\<lambda>resolver.
     bindE (wrapE ''Failed to resolve configured contract addresses''
              (ResolveContractAddresses (lib D) resolver cfg)) (\<lambda>cfg.
     bindE (wrapE ''Database connect and initialize errors''
              (ConnectAndInitialize (h_gorm_Open H) (DB cfg))) (\<lambda>db.
     bindE (SetSynced False) (\<lambda>_.
     bindE (wrapE ''failed to get chain ID'' (liftX (Client_ChainID ethClient))) (\<lambda>chainID.
       if IsFspMode (Indexer cfg) then RunIndexer H D cfg db ethClient resolver
       else
         bindE (wrapE ''Failed to get history drop configuration'' (liftR (GetHistoryDrop (DB cfg) chainID))) (\<lambda>historyDrop.
           index_full H D cfg db ethClient resolver historyDrop)))))))))"

subsection \<open>Connecting to the database\<close>

text \<open>
  The interface of the driver: an opened database keeps the laws of the statements, and opening
  it changes no table.
\<close>

locale database_driver =
  fixes gorm_Open :: "mysql_config \<Rightarrow> gorm_config \<Rightarrow> ('x, 'x store) io"
    and tabs :: "'x \<Rightarrow> tables"
  assumes open_law: "gorm_Open mc gc x = (Inr db, x') \<Longrightarrow> relational_store db tabs"
    and open_keeps: "keeps (\<lambda>x. tabs x = v) (gorm_Open mc gc)"
begin

lemma connect_Inr: "connect gorm_Open cfg x = (Inr db, x') \<Longrightarrow> relational_store db tabs \<and> tabs x' = tabs x"
  using keepsD [OF open_keeps] by (auto simp: connect_def Let_def bindE_Inr_iff dest: open_law)

end

lemma last_tx_of_Some:
  "last_tx_of tb = Some t \<Longrightarrow> t \<in> set (tb_txs tb) \<and> (\<forall>u \<in> set (tb_txs tb). t_id u \<le> t_id t)"
proof -
  have "fold (\<lambda>r m. if t_id m < t_id r then r else m) us u \<in> set (u # us) \<and>
      (\<forall>v \<in> set (u # us). t_id v \<le> t_id (fold (\<lambda>r m. if t_id m < t_id r then r else m) us u))" for u us
  proof (induction us arbitrary: u)
    case (Cons v us)
    show ?case using Cons [of "if t_id u < t_id v then v else u"] by (auto split: if_splits)
  qed simp
  then show "last_tx_of tb = Some t \<Longrightarrow> t \<in> set (tb_txs tb) \<and> (\<forall>u \<in> set (tb_txs tb). t_id u \<le> t_id t)"
    by (auto simp: last_tx_of_def split: list.splits)
qed

text \<open>The counter after a start: above every stored id, and not 0.\<close>

lemma storeTransactionID_outcome:
  assumes db: "relational_store db tabs" and run: "storeTransactionID db w = (r, w')"
    and low: "\<And>t. t \<in> set (tb_txs (tabs (ext w))) \<Longrightarrow> unat (t_id t) < 18446744073709551615"
  shows "tabs (ext w') = tabs (ext w) \<and>
    (case r of Inl _ \<Rightarrow> TransactionId w' = TransactionId w
     | Inr _ \<Rightarrow> TransactionId w' \<noteq> 0 \<and> (\<forall>t \<in> set (tb_txs (tabs (ext w))). t_id t < TransactionId w'))"
proof -
  have law: "reads tabs last_tx_of (s_last_tx db)" using db by (rule relational_store.last_tx_law)
  obtain r1 x1 where l: "s_last_tx db (ext w) = (r1, x1)" by force
  note keep = readsD [OF law l]
  show ?thesis
  proof (cases r1)
    case (Inl e)
    have "tb_txs (tabs (ext w)) = []" if "is_not_found e"
      using reads_not_found [OF law l [unfolded Inl] that] by (auto simp: last_tx_of_def split: list.splits)
    with run l Inl keep show ?thesis by (auto simp: storeTransactionID_def liftX_def split: if_splits)
  next
    case (Inr t)
    have t: "t \<in> set (tb_txs (tabs (ext w)))" "\<And>u. u \<in> set (tb_txs (tabs (ext w))) \<Longrightarrow> t_id u \<le> t_id t"
      using last_tx_of_Some reads_Inr [OF law l [unfolded Inr]] by auto
    have w': "r = Inr ()" "w' = w\<lparr>ext := x1, TransactionId := t_id t + 1\<rparr>"
      using run l Inr by (auto simp: storeTransactionID_def liftX_def)
    have id: "unat (t_id t + 1) = unat (t_id t) + 1" using low [OF t(1)] by (rule unat_Suc_below_max)
    have "t_id t + 1 \<noteq> 0"
    proof
      assume "t_id t + 1 = 0"
      with id show False by simp
    qed
    moreover have "t_id u < t_id t + 1" if "u \<in> set (tb_txs (tabs (ext w)))" for u
      using t(2) [OF that] id by (simp add: word_less_nat_alt word_le_nat_alt)
    ultimately show ?thesis using w' keep by simp
  qed
qed

text \<open>
  C22: ids of transactions are never given twice, across restarts. After a connection is set up the
  tables are those that were stored (none when the configuration drops them at the start), every
  stored transaction has an id below the counter from which new ids are drawn, and the
  counter is not 0, which stands for no transaction in a log.
\<close>

theorem connected_ids_fresh:
  assumes driver: "database_driver gorm_Open tabs"
    and run: "ConnectAndInitialize gorm_Open cfg w = (Inr db, w')"
    and low: "\<And>t. t \<in> set (tb_txs (tabs (ext w))) \<Longrightarrow> unat (t_id t) < 18446744073709551615"
  shows "relational_store db tabs \<and>
    tabs (ext w') = (if DropTableAtStart cfg then empty_tables else tabs (ext w)) \<and>
    TransactionId w' \<noteq> 0 \<and> (\<forall>t. t \<in> set (tb_txs (tabs (ext w'))) \<longrightarrow> t_id t < TransactionId w')"
proof -
  from run obtain x1 w2 x3 where c: "connect gorm_Open cfg (ext w) = (Inr db, x1)"
    and d: "(if DropTableAtStart cfg then liftX (s_drop_tables db) else ret ()) (w\<lparr>ext := x1\<rparr>) = (Inr (), w2)"
    and m: "s_auto_migrate db (ext w2) = (Inr (), x3)"
    and s: "storeTransactionID db (w2\<lparr>ext := x3\<rparr>) = (Inr (), w')"
    by (auto simp: ConnectAndInitialize_def bindE_Inr_iff wrapE_Inr_iff liftX_iff)
  note con = database_driver.connect_Inr [OF driver c]
  have db: "relational_store db tabs" using con by simp
  have t2: "tabs (ext w2) = (if DropTableAtStart cfg then empty_tables else tabs (ext w))"
    using d con relational_store.drop_tables_law [OF db] by (auto simp: liftX_iff split: if_splits)
  have t3: "tabs x3 = tabs (ext w2)" using relational_store.auto_migrate_law [OF db m] .
  have "\<And>t. t \<in> set (tb_txs (tabs (ext (w2\<lparr>ext := x3\<rparr>)))) \<Longrightarrow> unat (t_id t) < 18446744073709551615"
    using low t2 t3 by (auto simp: empty_tables_def split: if_splits)
  from storeTransactionID_outcome [OF db s this] show ?thesis using db t2 t3 by simp
qed

definition mem_Open :: "mysql_config \<Rightarrow> gorm_config \<Rightarrow> (mem, mem store) io" where
  "mem_Open = (\<lambda>_ _. faulty (ret mem_store))"

interpretation mem_driver: database_driver mem_Open m_tabs
  by (rule database_driver.intro) (auto simp: mem_Open_def mem_store.relational_store_axioms intro!: keeps_faulty elim!: faulty_cases)

definition stored_tx :: db_tx where
  "stored_tx = \<lparr>t_id = 7, t_hash = ''aa'', t_function_sig = ''00000000'', t_input = '''', t_block_number = 3, t_block_hash = ''bb'',
     t_transaction_index = 0, t_from_address = '''', t_to_address = '''', t_status = 1, t_value = ''0'', t_gas_price = ''0'',
     t_gas = 0, t_timestamp = 30\<rparr>"

definition one_tx_world :: "mem world" where
  "one_tx_world = \<lparr>ext = empty_mem\<lparr>m_tabs := empty_tables\<lparr>tb_txs := [stored_tx]\<rparr>\<rparr>, TransactionId = 0, synced = False, cache = (\<lambda>_. None)\<rparr>"

theorem connected_ids_fresh_witness:
  "t_id stored_tx < TransactionId (snd (ConnectAndInitialize mem_Open (DB defaultConfig) one_tx_world))"
proof -
  obtain r w' where run: "ConnectAndInitialize mem_Open (DB defaultConfig) one_tx_world = (r, w')" by force
  moreover have "case fst (ConnectAndInitialize mem_Open (DB defaultConfig) one_tx_world) of Inl _ \<Rightarrow> False | Inr _ \<Rightarrow> True"
    by code_simp
  ultimately obtain db where "ConnectAndInitialize mem_Open (DB defaultConfig) one_tx_world = (Inr db, w')"
    by (cases r) auto
  note db = this
  have txs: "tb_txs (m_tabs (ext one_tx_world)) = [stored_tx]" and id: "t_id stored_tx = 7"
    and keep: "\<not> DropTableAtStart (DB defaultConfig)"
    by (simp_all add: one_tx_world_def stored_tx_def defaultConfig_def)
  have "\<And>t. t \<in> set (tb_txs (m_tabs (ext one_tx_world))) \<Longrightarrow> unat (t_id t) < 18446744073709551615"
    by (simp add: txs id)
  from connected_ids_fresh [OF mem_driver.database_driver_axioms db this] run txs keep show ?thesis by simp
qed

end
