(* ===== verification/Restart.thy ===== *)
theory Restart
  imports Runtime
begin

text \<open>
  Restarts of the process in full mode: what the database guarantees when the process stops, in
  whatever way, is what the next start needs to go on without a gap.
\<close>

subsection \<open>A database that indexing can resume on\<close>

text \<open>
  \<open>c\<close> is the block at which indexing of the empty database began: nothing is stored below it,
  and everything from it up to the highest stored block is.
\<close>

definition resumable :: "u64 \<Rightarrow> common_lib \<Rightarrow> (nat \<Rightarrow> ext_block) \<Rightarrow> tables \<Rightarrow> bool" where
  "resumable c L chain tb \<longleftrightarrow>
     covers tb \<and> chain_rows L chain tb \<and> ordered tb \<and> floored tb \<and> floor_row tb \<and> tip_low tb \<and> gapless c tb \<and>
     (\<forall>b \<in> set (tb_blocks tb). c \<le> b_number b)"

lemma empty_resumable: "resumable c L chain empty_tables"
  by (simp add: resumable_def empty_tables_def covers_def chain_rows_def ordered_def floored_def floor_row_def tip_low_def gapless_def)

text \<open>The block at which \<^verbatim>\<open>getStartIndex\<close> resumes.\<close>

definition resume_point :: "u64 \<Rightarrow> tables \<Rightarrow> u64" where
  "resume_point c tb = (case last_row (tb_blocks tb) of None \<Rightarrow> c | Some b \<Rightarrow> b_number b + 1)"

lemma resumable_tip [simp]: "resumable c L chain (upsert_state ChainTip i t tb) \<longleftrightarrow> resumable c L chain tb"
  by (simp add: resumable_def floored_def tip_low_def)

lemma stored_upto:
  assumes "resumable c L chain tb" "n \<in> b_number ` set (tb_blocks tb)"
  shows "rows_present L chain (unat c) (unat n + 1) tb"
  unfolding rows_present_def
proof (intro allI impI)
  fix m assume m: "unat c \<le> m" "m < unat n + 1"
  then have u: "unat (of_nat m :: u64) = m" using unat_u64_bound [of n] by (simp add: unat_of_nat)
  then have "c \<le> of_nat m" "of_nat m \<le> n" using m by (auto simp: word_le_nat_alt)
  with assms have "of_nat m \<in> b_number ` set (tb_blocks tb)" by (auto simp: resumable_def gapless_def)
  then obtain b where "b \<in> set (tb_blocks tb)" "b_number b = of_nat m" by auto
  with assms(1) show "chain_row L (chain m) \<in> set (tb_blocks tb)"
    by (metis chain_rows_def resumable_def u)
qed

lemma rows_numbers:
  assumes num: "\<And>k. bk_number (chain k) = int k" and "rows_present L chain lo hi tb" "lo \<le> unat m" "unat m < hi"
  shows "(m::u64) \<in> b_number ` set (tb_blocks tb)"
proof -
  have "b_number (chain_row L (chain (unat m))) = m"
    using batch_block_number [OF num, of m 0 L] unat_u64_bound [of m] by (simp add: word_eq_unat)
  moreover have "chain_row L (chain (unat m)) \<in> set (tb_blocks tb)" using assms(2-4) by (simp add: rows_present_def)
  ultimately show ?thesis by (metis imageI)
qed

text \<open>Indexing may start from any block above the stored range, or inside it.\<close>

lemma resumable_from:
  assumes num: "\<And>k. bk_number (chain k) = int k" and tb: "resumable c L chain tb"
    and s: "c \<le> s" "rows_present L chain (unat c) (unat s) tb"
  shows "sound L chain s tb" "gapless s tb"
proof -
  have "m \<in> b_number ` set (tb_blocks tb)" if fl: "tb_states tb BlockFloor = Some fl" "Index fl \<le> m" "m < s" for fl m
  proof -
    obtain li where li: "tb_states tb LastIndexed = Some li" "Index fl \<le> Index li"
      using tb fl(1) by (auto simp: resumable_def floored_def split: option.splits)
    then have "Index fl \<in> b_number ` set (tb_blocks tb)"
      using tb fl(1) by (intro coversD [of tb fl li]) (auto simp: resumable_def)
    then have "c \<le> m" using tb fl(2) by (auto simp: resumable_def)
    then show ?thesis using fl(3) by (intro rows_numbers [OF num s(2)]) (auto simp: word_le_nat_alt word_less_nat_alt)
  qed
  with tb show "sound L chain s tb" by (auto simp: resumable_def sound_def connects_def)
  show "gapless s tb" using tb s(1) by (auto simp: resumable_def gapless_def)
qed

lemma last_row_Some: "last_row rs = Some r \<Longrightarrow> r \<in> set rs"
proof -
  assume "last_row rs = Some r"
  then have "r \<in> set (rev rs)" by (auto simp: last_row_def split: list.splits)
  then show "r \<in> set rs" by simp
qed

lemma resume_point_above:
  assumes "resumable c L chain tb"
  shows "c \<le> resume_point c tb" "rows_present L chain (unat c) (unat (resume_point c tb)) tb"
proof -
  consider "resume_point c tb = c" | b where "b \<in> set (tb_blocks tb)" "resume_point c tb = b_number b + 1"
    by (cases "last_row (tb_blocks tb)") (auto simp: resume_point_def dest: last_row_Some)
  then have "c \<le> resume_point c tb \<and> rows_present L chain (unat c) (unat (resume_point c tb)) tb"
  proof cases
    case 1
    then show ?thesis by (simp add: rows_present_def)
  next
    case 2
    then have b: "c \<le> b_number b" "unat (b_number b) < 2 ^ 62"
      using assms by (auto simp: resumable_def ordered_def)
    then have "unat (b_number b + 1) = unat (b_number b) + 1" by (intro unat_Suc_below_max) simp
    with 2 b stored_upto [OF assms, of "b_number b"] show ?thesis by (simp add: word_le_nat_alt)
  qed
  then show "c \<le> resume_point c tb" "rows_present L chain (unat c) (unat (resume_point c tb)) tb" by auto
qed

lemma resumable_grows:
  assumes num: "\<And>k. bk_number (chain k) = int k" and tb: "resumable c L chain tb"
    and s: "c \<le> s" "rows_present L chain (unat c) (unat s) tb"
    and tb': "sound L chain s tb'" "grows s tb tb'"
  shows "resumable c L chain tb'" "set (tb_blocks tb) \<subseteq> set (tb_blocks tb')"
proof -
  note from_s = resumable_from [OF num tb s]
  show mono: "set (tb_blocks tb) \<subseteq> set (tb_blocks tb')" using tb'(2) by (simp add: grows_def)
  have g: "gapless s tb'" "ordered tb'" "floored tb'" "floor_row tb'" "tip_low tb'"
    using tb from_s(2) tb'(2) by (auto simp: grows_def resumable_def)
  have "c \<le> b_number b" if "b \<in> set (tb_blocks tb')" for b
    using that tb tb'(2) s(1) by (auto simp: grows_def resumable_def)
  moreover have "gapless c tb'"
    unfolding gapless_def
  proof (intro ballI allI impI)
    fix b m assume b: "b \<in> set (tb_blocks tb')" and m: "c \<le> m" "m \<le> b_number b"
    show "m \<in> b_number ` set (tb_blocks tb')"
    proof (cases "s \<le> m")
      case True
      with g(1) b m show ?thesis unfolding gapless_def by blast
    next
      case False
      then have "m \<in> b_number ` set (tb_blocks tb)"
        using m by (intro rows_numbers [OF num s(2)]) (auto simp: word_le_nat_alt word_less_nat_alt)
      with mono show ?thesis by auto
    qed
  qed
  ultimately show "resumable c L chain tb'" using g tb'(1) by (simp add: resumable_def sound_def)
qed

text \<open>Everything from \<open>c\<close> up to \<open>LastIndexed\<close> is stored, when it is set.\<close>

lemma indexed_stored:
  assumes tb: "resumable c L chain tb" and li: "tb_states tb LastIndexed = Some li"
  shows "rows_present L chain (unat c) (unat (Index li) + 1) tb"
proof (rule stored_upto [OF tb])
  obtain fl where "tb_states tb BlockFloor = Some fl" "Index fl \<le> Index li"
    using tb li by (auto simp: resumable_def floored_def split: option.splits)
  with tb li show "Index li \<in> b_number ` set (tb_blocks tb)"
    by (intro coversD [of tb fl li]) (auto simp: resumable_def)
qed

subsection \<open>One life of the process\<close>

text \<open>
  The interface of the full mode: the engine it builds is an indexer of the node and of the
  database, the retriers retry, and the node never reports a confirmed tip below the block
  right under \<open>c\<close>. The history drop is disabled.
\<close>

locale full_mode =
  fixes H :: "('x, 'u) host" and D :: "'x deps" and cfg :: Config and db :: "'x store" and ethClient :: "'x client"
    and chain logs_at receipt_of and tabs :: "'x \<Rightarrow> tables" and c :: u64
  assumes engine_law: "e_db ci = db \<Longrightarrow> e_client ci = ethClient \<Longrightarrow> indexing D ci chain logs_at receipt_of tabs"
    and history_retrier: "retrier (h_retry_history H)"
    and continuous_retrier: "retrier (h_retry_continuous H)"
    and batch_law: "unat (BatchSize (Indexer cfg)) \<le> 2 ^ 62"
    and stop_law: "StopIndex (Indexer cfg) = 0 \<or> c \<le> StopIndex (Indexer cfg)"
    and tip_law:
      "e_client ci = ethClient \<Longrightarrow> Confirmations (params ci) = Confirmations (Indexer cfg) \<Longrightarrow>
         fetchLastBlockIndex D ci x = (Inr (n, t), x') \<Longrightarrow> unat c \<le> unat n + 1"

text \<open>The readiness flag belongs to the process, not to indexing.\<close>

lemma liftX_synced: "keeps (\<lambda>w. synced w = v) (liftX m)"
  by (auto simp: triple_def liftX_iff split: sum.splits)

lemma liftT_synced: "keeps (\<lambda>w. synced w = v) (liftT m)"
  by (auto simp: triple_def liftT_iff split: sum.splits)

lemma processAndSave_synced: "keeps (\<lambda>w. synced w = v) (processAndSave D ci bs tb lgs f l t)"
  unfolding processAndSave_def by (intro wp liftX_synced liftT_synced)

lemma IndexHistory_synced: "keeps (\<lambda>w. synced w = v) (IndexHistory D ci s)"
proof -
  have "keeps (\<lambda>w. synced w = v) (IndexHistory_from n D ci i rg)" for n i rg
    by (induction n arbitrary: i rg)
      (auto simp: indexBatch_def Let_def intro!: wp liftX_synced processAndSave_synced split: prod.splits)
  then show ?thesis by (auto simp: IndexHistory_def intro!: wp liftX_synced)
qed

definition configured_engine :: "common_lib \<Rightarrow> Config \<Rightarrow> 'x store \<Rightarrow> 'x client \<Rightarrow> 'x engine \<Rightarrow> bool" where
  "configured_engine L cfg db ethClient ci \<longleftrightarrow>
     e_db ci = db \<and> e_client ci = ethClient \<and> params ci = applyIndexerDefaults (Indexer cfg)"

lemma NewEngine_configured: "NewEngine L cfg db ethClient resolver = Inr ci \<Longrightarrow> configured_engine L cfg db ethClient ci"
  by (auto simp: NewEngine_def configured_engine_def split: if_splits)

context full_mode
begin

abbreviation stored :: "u64 \<Rightarrow> 'x world \<Rightarrow> bool" where
  "stored e w \<equiv> unat e < 2 ^ 62 \<and> unat c \<le> unat e + 1 \<and> rows_present (lib D) chain (unat c) (unat e + 1) (tabs (ext w))"

abbreviation good :: "'x world \<Rightarrow> bool" where
  "good w \<equiv> resumable c (lib D) chain (tabs (ext w))"

lemma configured_indexing:
  "configured_engine L cfg' db ethClient ci \<Longrightarrow> indexing D ci chain logs_at receipt_of tabs"
  by (simp add: configured_engine_def engine_law)

lemma number: "bk_number (chain k) = int k"
proof -
  have "indexing D \<lparr>e_db = db, params = Indexer cfg, e_transactions = (\<lambda>_. None), e_client = ethClient\<rparr> chain logs_at receipt_of tabs"
    by (rule engine_law) simp_all
  from canonical_node.number [OF indexer.axioms(1) [OF indexing.axioms(1) [OF this]]] show ?thesis .
qed

text \<open>An attempt of the history pass, from a block up to which everything is stored.\<close>

lemma history_attempt:
  assumes ci: "configured_engine L (cfg\<lparr>Indexer := (Indexer cfg)\<lparr>StartIndex := s0\<rparr>\<rparr>) db ethClient ci"
    and pre: "good w" "c \<le> s" "rows_present (lib D) chain (unat c) (unat s) (tabs (ext w))"
    and run: "IndexHistory D ci s w = (r, w')"
  shows "good w' \<and> rows_present (lib D) chain (unat c) (unat s) (tabs (ext w')) \<and> (\<forall>e. r = Inr e \<longrightarrow> stored e w')"
proof -
  have B: "0 < BatchSize (params ci)" "unat (BatchSize (params ci)) \<le> 2 ^ 62"
    using ci batch_law by (auto simp: configured_engine_def applyIndexerDefaults_def word_neq_0_conv)
  note f = resumable_from [OF number pre]
  have con: "connects s (tabs (ext w))" using f(1) by (simp add: sound_def)
  have "rows_present (lib D) chain (unat s) (unat s) (tabs (ext w))" by (simp add: rows_present_def)
  note out = indexing.IndexHistory_resume [OF configured_indexing [OF ci] B f(1) con order.refl this _ run]
  then have out: "sound (lib D) chain s (tabs (ext w'))" "grows s (tabs (ext w)) (tabs (ext w'))"
    "\<And>e. r = Inr e \<Longrightarrow> unat e < 2 ^ 62 \<and> rows_present (lib D) chain (unat s) (unat e + 1) (tabs (ext w'))"
    by auto
  note g = resumable_grows [OF number pre out(1,2)]
  have rows: "rows_present (lib D) chain (unat c) (unat s) (tabs (ext w'))" using rows_present_mono [OF pre(3) g(2)] .
  moreover have "stored e w'" if e: "r = Inr e" for e
  proof -
    obtain x n t x' where tip: "fetchLastBlockIndex D ci x = (Inr (n, t), x')" "e = min n (StopIndex (params ci))"
      using IndexHistory_reported [OF run [unfolded e]] unfolding reported_end_def by blast
    have "unat c \<le> unat n + 1"
      by (rule tip_law [OF _ _ tip(1)]) (use ci in \<open>simp_all add: configured_engine_def applyIndexerDefaults_def\<close>)
    moreover have "c \<le> StopIndex (params ci)"
      using ci stop_law by (auto simp: configured_engine_def applyIndexerDefaults_def)
    ultimately have "unat c \<le> unat e + 1" by (auto simp: tip(2) min_def word_le_nat_alt)
    with rows_present_join [OF rows] out(3) [OF e] show ?thesis by simp
  qed
  ultimately show ?thesis using g(1) by simp
qed

text \<open>An attempt of continuous indexing, after a history pass that ended at \<open>e\<close>.\<close>

lemma continuous_attempt_keeps:
  assumes ci: "configured_engine L cfg' db ethClient ci"
  shows "keeps (\<lambda>w. good w \<and> stored e w) (continuous_attempt D ci db e)"
proof (rule keepsI)
  fix w r w' assume pre: "good w \<and> stored e w" and run: "continuous_attempt D ci db e w = (r, w')"
  have db: "relational_store db tabs"
    using configured_indexing [OF ci] ci by (auto simp: configured_engine_def dest!: indexing.axioms(1) indexer.axioms(2))
  obtain r1 x1 where g: "ContinuousStartIndex db e (ext w) = (r1, x1)" by force
  have t1: "tabs x1 = tabs (ext w)"
    using g relational_store.GetState_tabs [OF db, of LastIndexed "ext w"]
    by (auto simp: ContinuousStartIndex_def bindE_def wrapE_def split: prod.splits sum.splits)
  show "good w' \<and> stored e w'"
  proof (cases r1)
    case (Inl er)
    with run g have "w' = w\<lparr>ext := x1\<rparr>" by (auto simp: continuous_attempt_def bindE_def liftX_def)
    with pre t1 show ?thesis by simp
  next
    case (Inr s)
    let ?li = "Index (state_of (tabs (ext w)) LastIndexed)"
    have li: "unat ?li < 2 ^ 62" using pre by (auto simp: resumable_def tip_low_def state_of_def zero_state_def split: option.split)
    have "unat e < 18446744073709551615" "unat ?li < 18446744073709551615" using pre li by auto
    from ContinuousStartIndex_Inr [OF db g [unfolded Inr] this]
    have s: "unat s = max (unat e) (unat ?li) + 1" by simp
    have "rows_present (lib D) chain (unat c) (unat ?li + 1) (tabs (ext w))" if "unat e < unat ?li"
      using that pre indexed_stored by (auto simp: state_of_def zero_state_def split: option.splits)
    then have rows: "rows_present (lib D) chain (unat c) (unat s) (tabs (ext w))"
      using pre s by (cases "unat e < unat ?li") (auto simp: max_def)
    have c: "c \<le> s" using pre s by (auto simp: word_le_nat_alt max_def)
    have snd: "sound (lib D) chain s (tabs (ext (w\<lparr>ext := x1\<rparr>)))"
      using resumable_from(1) [OF number _ c rows] pre t1 by simp
    from run g Inr have "IndexContinuous D ci s (w\<lparr>ext := x1\<rparr>) = (r, w')"
      by (simp add: continuous_attempt_def bindE_def liftX_def)
    from indexing.IndexContinuous_outcome [OF configured_indexing [OF ci] snd this]
    have out: "sound (lib D) chain s (tabs (ext w'))" "grows s (tabs (ext w)) (tabs (ext w'))" using t1 by auto
    from resumable_grows [OF number _ c rows out] pre have "good w'" "set (tb_blocks (tabs (ext w))) \<subseteq> set (tb_blocks (tabs (ext w')))"
      by auto
    with pre show ?thesis by (auto intro: rows_present_mono)
  qed
qed

end

context full_mode
begin

abbreviation from_block :: "u64 \<Rightarrow> Config" where
  "from_block s \<equiv> cfg\<lparr>Indexer := (Indexer cfg)\<lparr>StartIndex := s\<rparr>\<rparr>"

lemma db_law: "relational_store db tabs"
proof -
  have "indexing D \<lparr>e_db = db, params = Indexer cfg, e_transactions = (\<lambda>_. None), e_client = ethClient\<rparr> chain logs_at receipt_of tabs"
    by (rule engine_law) simp_all
  from indexer.axioms(2) [OF indexing.axioms(1) [OF this]] show ?thesis by simp
qed

text \<open>The history pass, with its retries.\<close>

lemma history_retried:
  assumes ci: "configured_engine (lib D) (from_block s0) db ethClient ci" and s: "c \<le> s"
    and st: "good w" "rows_present (lib D) chain (unat c) (unat s) (tabs (ext w))"
    and run: "Retry (h_retry_history H) (IndexHistory D ci s) w = (r, w')"
  shows "good w' \<and> rows_present (lib D) chain (unat c) (unat s) (tabs (ext w')) \<and> synced w' = synced w \<and>
    (\<forall>e. r = Inr e \<longrightarrow> stored e w' \<and> tip_reached (StopIndex (params ci)) e (tabs (ext w')))"
proof -
  let ?I = "\<lambda>v. good v \<and> rows_present (lib D) chain (unat c) (unat s) (tabs (ext v)) \<and> synced v = synced w"
  have B: "0 < BatchSize (params ci)" "unat (BatchSize (params ci)) \<le> 2 ^ 62"
    using ci batch_law by (auto simp: configured_engine_def applyIndexerDefaults_def word_neq_0_conv)
  have attempt: "?I v' \<and> (\<forall>e. r = Inr e \<longrightarrow> stored e v' \<and> tip_reached (StopIndex (params ci)) e (tabs (ext v')))"
    if "?I v" "IndexHistory D ci s v = (r, v')" for v r v'
    using history_attempt [OF ci _ s _ that(2)] that(1) keepsD [OF IndexHistory_synced [of "synced w"] that(2)]
      indexing.IndexHistory_tip [OF configured_indexing [OF ci] B] that(2) by blast
  have "triple ?I (Retry (h_retry_history H) (IndexHistory D ci s))
      (\<lambda>e v. ?I v \<and> stored e v \<and> tip_reached (StopIndex (params ci)) e (tabs (ext v))) (\<lambda>_. ?I)"
    by (rule retrier.Retry_triple [OF history_retrier], rule tripleI) (use attempt in \<open>blast+\<close>)
  from triple_Inr [OF this] triple_Inl [OF this] st run show ?thesis by (cases r) blast+
qed

lemma continuous_retried:
  assumes ci: "configured_engine (lib D) (from_block s0) db ethClient ci"
  shows "keeps (\<lambda>w. good w \<and> stored e w) (RetryNoReturn (h_retry_continuous H) (continuous_attempt D ci db e))"
  unfolding RetryNoReturn_def
  by (intro wp retrier.Retry_triple [OF continuous_retrier] continuous_attempt_keeps [OF ci])

text \<open>
  A run of the indexer without history drop: either it ends before its history pass has returned, with the flag as it
  was, or the pass returns \<open>e\<close> in the world \<open>w2\<close>, and continuous indexing goes on from there with the flag set.
\<close>

definition ran_history ::
  "Config \<Rightarrow> 'x registry \<Rightarrow> u64 \<Rightarrow> 'x world \<Rightarrow> 'x engine \<Rightarrow> u64 \<Rightarrow> 'x world \<Rightarrow> (go_error + unit) \<Rightarrow> 'x world \<Rightarrow> bool" where
  "ran_history cfg' resolver s w ci e w2 r w' \<longleftrightarrow>
     NewEngine (lib D) cfg' db ethClient (Some resolver) = Inr ci \<and>
     Retry (h_retry_history H) (IndexHistory D ci s) w = (Inr e, w2) \<and>
     RetryNoReturn (h_retry_continuous H) (continuous_attempt D ci db e) (w2\<lparr>synced := True\<rparr>) = (r, w')"

lemma runIndexer_cases:
  assumes run: "runIndexer H D cfg' db ethClient resolver 0 w = (r, w')"
  obtains (early) "w' = w" |
    (history) ci er where "NewEngine (lib D) cfg' db ethClient (Some resolver) = Inr ci"
      "Retry (h_retry_history H) (IndexHistory D ci (StartIndex (Indexer cfg'))) w = (Inl er, w')" |
    (ready) ci e w2 r' where "ran_history cfg' resolver (StartIndex (Indexer cfg')) w ci e w2 r' w'"
proof (cases "NewEngine (lib D) cfg' db ethClient (Some resolver)")
  case (Inl er)
  with run early show ?thesis by (simp add: runIndexer_def bindE_def)
next
  case (Inr ci)
  obtain r1 w1 where h: "Retry (h_retry_history H) (IndexHistory D ci (StartIndex (Indexer cfg'))) w = (r1, w1)" by force
  show ?thesis
  proof (cases r1)
    case (Inl er)
    with run h \<open>_ = Inr ci\<close> have "w' = w1" by (simp add: runIndexer_def bindE_def wrapE_def)
    with history [OF Inr] h Inl show ?thesis by blast
  next
    case Inr2: (Inr e)
    obtain r2 w3 where k: "RetryNoReturn (h_retry_continuous H) (continuous_attempt D ci db e) (w1\<lparr>synced := True\<rparr>) = (r2, w3)"
      by force
    have "w' = w3" using run h Inr Inr2 k
      by (cases r2) (auto simp: runIndexer_def bindE_def wrapE_def SetSynced_def)
    with ready [unfolded ran_history_def] Inr h Inr2 k show ?thesis by blast
  qed
qed

lemma runIndexer_outcome:
  assumes s: "c \<le> s" and st: "good w" "rows_present (lib D) chain (unat c) (unat s) (tabs (ext w))"
    and run: "runIndexer H D (from_block s) db ethClient resolver 0 w = (r, w')"
  shows "good w' \<and> (\<not> synced w \<longrightarrow> synced w' \<longrightarrow> (\<exists>ci e w2 r'. ran_history (from_block s) resolver s w ci e w2 r' w' \<and>
    tip_reached (StopIndex (params ci)) e (tabs (ext w2)) \<and> stored e w2 \<and> stored e w'))"
proof -
  from run show ?thesis
  proof (cases rule: runIndexer_cases)
    case early
    with st show ?thesis by simp
  next
    case (history ci er)
    from history_retried [OF NewEngine_configured [OF history(1)] s st] history(2) show ?thesis by simp
  next
    case (ready ci e w2 r')
    then have new: "configured_engine (lib D) (from_block s) db ethClient ci"
      and h: "Retry (h_retry_history H) (IndexHistory D ci s) w = (Inr e, w2)"
      and k: "RetryNoReturn (h_retry_continuous H) (continuous_attempt D ci db e) (w2\<lparr>synced := True\<rparr>) = (r', w')"
      by (auto simp: ran_history_def intro: NewEngine_configured)
    from history_retried [OF new s st h] have w2: "good w2" "stored e w2" "tip_reached (StopIndex (params ci)) e (tabs (ext w2))"
      by auto
    from keepsD [OF continuous_retried [OF new] k] w2(1,2) have "good w'" "stored e w'" by auto
    with w2 ready show ?thesis by auto
  qed
qed

end

context full_mode
begin

lemma getStartIndex_outcome:
  assumes start: "tb_blocks (tabs x) = [] \<Longrightarrow> StartIndex (Indexer cfg) = c"
    and run: "getStartIndex H D db ethClient cfg 0 x = (r, x')"
  shows "tabs x' = tabs x \<and> (\<forall>s. r = Inr s \<longrightarrow> s = resume_point c (tabs x))"
proof -
  have law: "reads tabs (\<lambda>tb. last_row (tb_blocks tb)) (s_last_block db)"
    using db_law by (rule relational_store.last_block_law)
  obtain r1 x1 where l: "s_last_block db x = (r1, x1)" by force
  show ?thesis
  proof (cases r1)
    case (Inl e)
    have "tb_blocks (tabs x) = []" if "is_not_found e"
      using reads_not_found [OF law l [unfolded Inl] that] by (auto simp: last_row_def split: list.splits)
    with run l Inl start readsD [OF law l] show ?thesis
      by (auto simp: getStartIndex_def resume_point_def last_row_def split: if_splits)
  next
    case (Inr b)
    with run l reads_Inr [OF law l [unfolded Inr]] show ?thesis
      by (auto simp: getStartIndex_def resume_point_def)
  qed
qed

lemma index_full_outcome:
  assumes start: "tb_blocks (tabs (ext w)) = [] \<Longrightarrow> StartIndex (Indexer cfg) = c" and pre: "good w"
    and run: "index_full H D cfg db ethClient resolver 0 w = (r, w')"
  shows "good w' \<and> (\<not> synced w \<longrightarrow> synced w' \<longrightarrow> (\<exists>s w1 ci e w2 r'.
    liftX (getStartIndex H D db ethClient cfg 0) w = (Inr s, w1) \<and> ran_history (from_block s) resolver s w1 ci e w2 r' w' \<and>
    tip_reached (StopIndex (params ci)) e (tabs (ext w2)) \<and> stored e w2 \<and> stored e w'))"
proof -
  obtain r1 x1 where g: "getStartIndex H D db ethClient cfg 0 (ext w) = (r1, x1)" by force
  note st = getStartIndex_outcome [OF start g]
  show ?thesis
  proof (cases r1)
    case (Inl e)
    with run g have "w' = w\<lparr>ext := x1\<rparr>" by (auto simp: index_full_def bindE_def wrapE_def liftX_def)
    with st pre show ?thesis by simp
  next
    case (Inr s)
    let ?w1 = "w\<lparr>ext := x1\<rparr>"
    from Inr st have s: "s = resume_point c (tabs (ext w))" "tabs x1 = tabs (ext w)" by auto
    note above = resume_point_above [OF pre, folded s(1)]
    have l: "liftX (getStartIndex H D db ethClient cfg 0) w = (Inr s, ?w1)" using g Inr by (simp add: liftX_def)
    have "runIndexer H D (from_block s) db ethClient resolver 0 ?w1 = (r, w')"
      using run l by (simp add: index_full_def bindE_def wrapE_def)
    from runIndexer_outcome [OF above(1) _ _ this] pre above(2) s(2) l show ?thesis by auto
  qed
qed

end

subsection \<open>Restarts\<close>

text \<open>
  Lives of the process in full mode without history drop, one after the other: each starts on the
  tables that the one before left, whatever else has changed, and ends in any way.
\<close>

inductive lives ::
  "('x, 'u) host \<Rightarrow> 'x deps \<Rightarrow> Config \<Rightarrow> 'x store \<Rightarrow> 'x client \<Rightarrow> ('x \<Rightarrow> tables) \<Rightarrow> tables \<Rightarrow> tables \<Rightarrow> bool"
  for H D cfg db ethClient tabs tb0 where
  none: "lives H D cfg db ethClient tabs tb0 tb0"
| another: "lives H D cfg db ethClient tabs tb0 (tabs (ext w)) \<Longrightarrow>
    index_full H D cfg db ethClient resolver 0 w = (r, w') \<Longrightarrow> lives H D cfg db ethClient tabs tb0 (tabs (ext w'))"

lemma lives_resumable:
  assumes "lives H D cfg db ethClient tabs empty_tables tb"
    and mode: "full_mode H D cfg db ethClient chain logs_at receipt_of tabs (StartIndex (Indexer cfg))"
  shows "resumable (StartIndex (Indexer cfg)) (lib D) chain tb"
  using assms(1)
proof induction
  case none
  show ?case by (rule empty_resumable)
next
  case (another w resolver r w')
  show ?case using full_mode.index_full_outcome [OF mode refl another.IH another.hyps(2)] by blast
qed

text \<open>
  C2: restarts leave no gap when no history is dropped. Starting from the empty database, after any number of lives of the
  process in full mode with the history drop disabled, each of them ended by success, by an error or by
  a crash anywhere, the coverage states claim nothing that is not there, the rows are blocks of the
  chain in ascending order, and from the configured start to the highest stored block no block
  is missing. It is assumed (\<open>full_mode\<close>) that the node never reports a confirmed tip that is more than one block
  below the configured start; what holds with the history drop enabled is the subject of \<open>Fsp_Lives\<close>.
\<close>

theorem restarts_leave_no_gap:
  assumes mode: "full_mode H D cfg db ethClient chain logs_at receipt_of tabs (StartIndex (Indexer cfg))"
    and lives: "lives H D cfg db ethClient tabs empty_tables tb"
  shows "covers tb \<and> chain_rows (lib D) chain tb \<and> sorted_wrt (<) (map b_number (tb_blocks tb)) \<and>
    (\<forall>b. b \<in> set (tb_blocks tb) \<longrightarrow> StartIndex (Indexer cfg) \<le> b_number b \<and>
       rows_present (lib D) chain (unat (StartIndex (Indexer cfg))) (unat (b_number b) + 1) tb)"
  using lives_resumable [OF lives mode] stored_upto [OF lives_resumable [OF lives mode]]
  by (auto simp: resumable_def ordered_def)

text \<open>
  C7: the health endpoint does not lie. A process runs in full mode with the history drop disabled, on a database that
  indexing could resume on, and answers 200 when it did not before. Then the run found its start block \<open>s\<close>, built its engine,
  and its history pass, retries included, returned \<open>e\<close> in the world \<open>w2\<close>, before the flag was set and continuous
  indexing began. At that moment the confirmed tip that the pass had read last from the node, which it
  recorded as \<open>ChainTip\<close>, was reached (or \<^verbatim>\<open>stop_index\<close>, when that is lower): every block from the configured start up to \<open>e\<close>
  was in the table as the chain's block, and still is.
\<close>

theorem healthy_means_caught_up:
  assumes mode: "full_mode H D cfg db ethClient chain logs_at receipt_of tabs (StartIndex (Indexer cfg))"
    and tb: "resumable (StartIndex (Indexer cfg)) (lib D) chain (tabs (ext w))"
    and run: "index_full H D cfg db ethClient resolver 0 w = (r, w')"
    and health: "serve ''/health'' w = (503, ''false'' @ newline)" "serve ''/health'' w' = (200, ''true'' @ newline)"
  shows "\<exists>s w1 ci e w2 r'.
    liftX (getStartIndex H D db ethClient cfg 0) w = (Inr s, w1) \<and>
    NewEngine (lib D) (cfg\<lparr>Indexer := (Indexer cfg)\<lparr>StartIndex := s\<rparr>\<rparr>) db ethClient (Some resolver) = Inr ci \<and>
    Retry (h_retry_history H) (IndexHistory D ci s) w1 = (Inr e, w2) \<and>
    RetryNoReturn (h_retry_continuous H) (continuous_attempt D ci db e) (w2\<lparr>synced := True\<rparr>) = (r', w') \<and>
    tip_reached (StopIndex (params ci)) e (tabs (ext w2)) \<and>
    rows_present (lib D) chain (unat (StartIndex (Indexer cfg))) (unat e + 1) (tabs (ext w2)) \<and>
    rows_present (lib D) chain (unat (StartIndex (Indexer cfg))) (unat e + 1) (tabs (ext w'))"
proof -
  have s: "\<not> synced w" "synced w'" using health by (simp_all add: serve_def handler_def IsSynced_def split: if_splits)
  from full_mode.index_full_outcome [OF mode refl tb run] s show ?thesis
    unfolding full_mode.ran_history_def [OF mode] by blast
qed

subsection \<open>On the concrete world\<close>

text \<open>A full-mode configuration that indexes the blocks 1 and 2, and a host that retries once.\<close>

definition two_blocks :: Config where
  "two_blocks = defaultConfig\<lparr>Indexer := (Indexer defaultConfig)\<lparr>BatchSize := 2, Confirmations := 0, StartIndex := 1, StopIndex := 2\<rparr>\<rparr>"

definition mem_host :: "(mem, string) host" where
  "mem_host =
     \<lparr>h_decode = (\<lambda>_. Inr (two_blocks, [])), h_env_order = [], h_env = (\<lambda>_. None), h_reward_logs = [],
      h_url_Parse = Inr, h_set_query = (\<lambda>_ _ u. u), h_url_String = id,
      h_avx_dial = (\<lambda>_. Inr (mem_rpc ten_apart (make_logs (\<lambda>_. [])) (\<lambda>_. \<lparr>rc_status = 1, rc_logs = []\<rparr>))),
      h_eth_dial = (\<lambda>_. Inl (ErrMsg ''no node'')),
      h_nil_rpc = mem_rpc ten_apart (make_logs (\<lambda>_. [])) (\<lambda>_. \<lparr>rc_status = 1, rc_logs = []\<rparr>),
      h_ctx_err = (\<lambda>_. None), h_bind = mem_bind (\<lambda>_. 5), h_new_fsm = (\<lambda>_ _. Inl (ErrMsg ''no contract'')),
      h_gorm_Open = mem_Open, h_deps = mem_deps 1 6,
      h_retry_u64 = bounded_retry 1, h_retry_history = bounded_retry 1, h_retry_continuous = bounded_retry 1,
      h_drop_rounds = 0, h_drop_fuel = 0\<rparr>"

definition ten_client :: "mem client" where
  "ten_client = mem_client ten_apart (make_logs (\<lambda>_. [])) (\<lambda>_. \<lparr>rc_status = 1, rc_logs = []\<rparr>)"

lemma ten_indexing:
  assumes "e_db ci = mem_store" "e_client ci = ten_client"
  shows "indexing (mem_deps k n) ci ten_apart (make_logs (\<lambda>_. [])) (\<lambda>_. \<lparr>rc_status = 1, rc_logs = []\<rparr>) m_tabs"
proof -
  have "ci = mem_engine (params ci) (e_transactions ci) (\<lambda>k. of_nat (10 * k)) (\<lambda>_. []) (\<lambda>_. []) (\<lambda>_. \<lparr>rc_status = 1, rc_logs = []\<rparr>)"
    using assms by (simp add: mem_engine_def ten_client_def ten_apart_def)
  then show ?thesis unfolding ten_apart_def by (metis mem_indexing.indexing_axioms)
qed

lemma two_blocks_fields [simp]:
  "StartIndex (Indexer two_blocks) = 1" "StopIndex (Indexer two_blocks) = 2" "BatchSize (Indexer two_blocks) = 2"
  by (simp_all add: two_blocks_def)

interpretation mem_mode:
  full_mode mem_host "mem_deps 1 6" two_blocks mem_store ten_client ten_apart "make_logs (\<lambda>_. [])"
    "\<lambda>_. \<lparr>rc_status = 1, rc_logs = []\<rparr>" m_tabs 1
  by (rule full_mode.intro) (simp_all add: ten_indexing mem_host_def bounded.retrier_axioms)

lemma empty_world: "m_tabs (ext (fresh_world k)) = empty_tables" "\<not> synced (fresh_world k)"
  by (simp_all add: fresh_world_def head_at_def empty_mem_def)

theorem restarts_leave_no_gap_witness:
  "covers (m_tabs (ext (snd (index_full mem_host (mem_deps 1 6) two_blocks mem_store ten_client (\<lambda>_. ret 5) 0 (fresh_world 2)))))"
proof -
  obtain r w' where run: "index_full mem_host (mem_deps 1 6) two_blocks mem_store ten_client (\<lambda>_. ret 5) 0 (fresh_world 2) = (r, w')"
    by force
  have "lives mem_host (mem_deps 1 6) two_blocks mem_store ten_client m_tabs empty_tables (m_tabs (ext w'))"
    by (rule lives.another [OF _ run]) (simp add: empty_world lives.none)
  from restarts_leave_no_gap [OF _ this] mem_mode.full_mode_axioms run show ?thesis by simp
qed

lemma two_blocks_run:
  "synced (snd (index_full mem_host (mem_deps 1 6) two_blocks mem_store ten_client (\<lambda>_. ret 5) 0 (fresh_world 2)))"
  by code_simp

text \<open>The history pass of this run returns 2, the node's head.\<close>

lemma two_blocks_history:
  "case liftX (getStartIndex mem_host (mem_deps 1 6) mem_store ten_client two_blocks 0) (fresh_world 2) of
     (Inr s, w1) \<Rightarrow>
       (case NewEngine plain_lib (two_blocks\<lparr>Indexer := (Indexer two_blocks)\<lparr>StartIndex := s\<rparr>\<rparr>) mem_store ten_client (Some ((\<lambda>_. ret 5) :: mem registry)) of
          Inr ci \<Rightarrow> fst (Retry (h_retry_history mem_host) (IndexHistory (mem_deps 1 6) ci s) w1) = Inr 2
        | Inl _ \<Rightarrow> False)
   | (Inl _, _) \<Rightarrow> False"
  by code_simp

theorem healthy_means_caught_up_witness:
  "rows_present plain_lib ten_apart 1 3
     (m_tabs (ext (snd (index_full mem_host (mem_deps 1 6) two_blocks mem_store ten_client (\<lambda>_. ret 5) 0 (fresh_world 2)))))"
proof -
  obtain r w' where run: "index_full mem_host (mem_deps 1 6) two_blocks mem_store ten_client (\<lambda>_. ret 5) 0 (fresh_world 2) = (r, w')"
    by force
  have health: "serve ''/health'' (fresh_world 2) = (503, ''false'' @ newline)" "serve ''/health'' w' = (200, ''true'' @ newline)"
    using two_blocks_run run by (simp_all add: serve_def handler_def IsSynced_def empty_world)
  have mode: "full_mode mem_host (mem_deps 1 6) two_blocks mem_store ten_client ten_apart (make_logs (\<lambda>_. []))
      (\<lambda>_. \<lparr>rc_status = 1, rc_logs = []\<rparr>) m_tabs (StartIndex (Indexer two_blocks))"
    using mem_mode.full_mode_axioms by simp
  have tb: "resumable (StartIndex (Indexer two_blocks)) (lib (mem_deps 1 6)) ten_apart (m_tabs (ext (fresh_world 2)))"
    by (simp add: empty_world empty_resumable)
  show ?thesis
    using healthy_means_caught_up [OF mode tb run health]
  proof (elim exE conjE)
    fix s w1 ci e w2
    assume "liftX (getStartIndex mem_host (mem_deps 1 6) mem_store ten_client two_blocks 0) (fresh_world 2) = (Inr s, w1)"
      "NewEngine (lib (mem_deps 1 6)) (two_blocks\<lparr>Indexer := (Indexer two_blocks)\<lparr>StartIndex := s\<rparr>\<rparr>) mem_store ten_client
         (Some ((\<lambda>_. ret 5) :: mem registry)) = Inr ci"
      "Retry (h_retry_history mem_host) (IndexHistory (mem_deps 1 6) ci s) w1 = (Inr e, w2)"
    with two_blocks_history have "e = 2" by simp
    moreover assume "rows_present (lib (mem_deps 1 6)) ten_apart (unat (StartIndex (Indexer two_blocks))) (unat e + 1) (m_tabs (ext w'))"
    ultimately show ?thesis using run by simp
  qed
qed

end
