(* ===== verification/Goroutines.thy ===== *)
theory Goroutines
  imports Restart
begin

text \<open>
  Continuous indexing and the history drop at the same time: \<^verbatim>\<open>runIndexer\<close> of \<^verbatim>\<open>main.go\<close> starts
  \<^verbatim>\<open>go database.DropHistory(...)\<close> and then follows the chain on the same database. The steps of
  the two goroutines are the statements and transactions of the database; they
  interleave in any order.
\<close>

subsection \<open>The history drop, statement by statement\<close>

datatype pass = LogPass | BlockPass

datatype drop_pc =
    Idle
  | Deleting entity
  | ReadingFloor pass
  | FindingFirst pass
  | Raising pass u64 u64

fun pass_floor :: "pass \<Rightarrow> state_name" where
  "pass_floor LogPass = LogFloor"
| "pass_floor BlockPass = BlockFloor"

fun pass_first :: "pass \<Rightarrow> 'x store \<Rightarrow> ('x, u64 \<times> u64) io" where
  "pass_first LogPass = firstSurvivingLog"
| "pass_first BlockPass = firstSurvivingBlock"

text \<open>What follows the deletion of an entity, and what follows a pass.\<close>

fun after_delete :: "entity \<Rightarrow> drop_pc" where
  "after_delete LogEntity = ReadingFloor LogPass"
| "after_delete TransactionEntity = Deleting BlockEntity"
| "after_delete BlockEntity = ReadingFloor BlockPass"

fun after_pass :: "pass \<Rightarrow> drop_pc" where
  "after_pass LogPass = Deleting TransactionEntity"
| "after_pass BlockPass = Idle"

fun drop_step :: "'x store \<Rightarrow> u64 \<Rightarrow> drop_pc \<Rightarrow> ('x, drop_pc) io" where
  "drop_step db deleteStartTime Idle = ret Idle"
| "drop_step db deleteStartTime (Deleting entity) =
     bindE (wrapE ''Failed to delete historic data in the DB''
              (s_delete db entity deleteBatchSize deleteStartTime)) (\<lambda>rowsAffected.
       ret (if rowsAffected = 0 then after_delete entity else Deleting entity))"
| "drop_step db deleteStartTime (ReadingFloor p) =
     bindE (wrapE ''read floor state'' (GetState db (pass_floor p))) (\<lambda>floor.
       ret (if IsSet floor \<and> deleteStartTime \<le> BlockTimestamp floor then after_pass p else FindingFirst p))"
| "drop_step db deleteStartTime (FindingFirst p) = (\<lambda>x.
     case pass_first p db x of
       (Inr (index, timestamp), x') \<Rightarrow> (Inr (Raising p index timestamp), x')
     | (Inl e, x') \<Rightarrow>
         if is_not_found e then (Inr (after_pass p), x')
         else (Inl (Wrapped ''find first surviving row'' e), x'))"
| "drop_step db deleteStartTime (Raising p index timestamp) =
     bindE (UpdateState db (pass_floor p) index timestamp) (\<lambda>_. ret (after_pass p))"

primrec drop_run :: "nat \<Rightarrow> 'x store \<Rightarrow> u64 \<Rightarrow> drop_pc \<Rightarrow> ('x, unit) io" where
  "drop_run 0 db deleteStartTime pc = throw OutOfFuel"
| "drop_run (Suc n) db deleteStartTime pc =
     (if pc = Idle then ret ()
      else bindE (drop_step db deleteStartTime pc) (drop_run n db deleteStartTime))"

text \<open>Run on from \<open>pc\<close>: some number of steps ends with the outcome.\<close>

definition drops_to :: "'x store \<Rightarrow> u64 \<Rightarrow> drop_pc \<Rightarrow> 'x \<Rightarrow> (go_error + unit) \<times> 'x \<Rightarrow> bool" where
  "drops_to db ts pc x out \<longleftrightarrow> (\<exists>n. drop_run n db ts pc x = out)"

lemma drops_to_Idle: "drops_to db ts Idle x (Inr (), x)"
  unfolding drops_to_def by (rule exI [of _ 1]) simp

lemma drops_to_step:
  assumes "pc \<noteq> Idle" "drop_step db ts pc x = (Inr pc', x1)" "drops_to db ts pc' x1 out"
  shows "drops_to db ts pc x out"
proof -
  from assms(3) obtain n where "drop_run n db ts pc' x1 = out" unfolding drops_to_def by blast
  then have "drop_run (Suc n) db ts pc x = out" using assms(1,2) by (simp add: bindE_def)
  then show ?thesis unfolding drops_to_def by blast
qed

lemma drops_to_fail:
  "pc \<noteq> Idle \<Longrightarrow> drop_step db ts pc x = (Inl e, x1) \<Longrightarrow> drops_to db ts pc x (Inl e, x1)"
  unfolding drops_to_def by (rule exI [of _ 1]) (simp add: bindE_def)

lemma after_not_Idle [simp]: "after_delete e \<noteq> Idle"
  by (cases e) simp_all

text \<open>The deletion of an entity, and the raising of a floor, in these steps.\<close>

lemma DeleteInBatches_steps:
  assumes "bindE (DeleteInBatches fuel db ts e) rest x = (r, x')" "r \<noteq> Inl OutOfFuel"
    and "\<And>y. rest () y = (r, x') \<Longrightarrow> drops_to db ts (after_delete e) y (r, x')"
  shows "drops_to db ts (Deleting e) x (r, x')"
  using assms(1)
proof (induction fuel arbitrary: x)
  case 0
  with assms(2) show ?case by (simp add: bindE_def)
next
  case (Suc fuel)
  obtain r2 x2 where d: "s_delete db e deleteBatchSize ts x = (r2, x2)" by force
  show ?case
  proof (cases r2)
    case (Inl er)
    with Suc.prems d show ?thesis
      using drops_to_fail [of "Deleting e" db ts x] by (simp add: bindE_def wrapE_def)
  next
    case (Inr k)
    have step: "drop_step db ts (Deleting e) x = (Inr (if k = 0 then after_delete e else Deleting e), x2)"
      using d Inr by (simp add: bindE_def wrapE_def)
    have "if k = 0 then rest () x2 = (r, x') else bindE (DeleteInBatches fuel db ts e) rest x2 = (r, x')"
      using Suc.prems d Inr by (auto simp: bindE_def wrapE_def split: if_splits)
    then have "drops_to db ts (if k = 0 then after_delete e else Deleting e) x2 (r, x')"
      using assms(3) Suc.IH by (simp split: if_splits)
    then show ?thesis by (rule drops_to_step [rotated 2, OF _ _ step]) simp
  qed
qed

lemma raiseFloor_steps:
  assumes run: "bindE (raiseFloor db ts (pass_floor p) (pass_first p)) rest x = (r, x')"
    and rest: "\<And>y. rest () y = (r, x') \<Longrightarrow> drops_to db ts (after_pass p) y (r, x')"
  shows "drops_to db ts (ReadingFloor p) x (r, x')"
proof -
  obtain rg x2 where g: "GetState db (pass_floor p) x = (rg, x2)" by force
  show ?thesis
  proof (cases rg)
    case (Inl er)
    with run g show ?thesis
      using drops_to_fail [of "ReadingFloor p" db ts x] by (simp add: raiseFloor_def bindE_def wrapE_def)
  next
    case (Inr floor)
    let ?above = "IsSet floor \<and> ts \<le> BlockTimestamp floor"
    have step: "drop_step db ts (ReadingFloor p) x = (Inr (if ?above then after_pass p else FindingFirst p), x2)"
      using g Inr by (simp add: bindE_def wrapE_def)
    obtain rf x3 where f: "pass_first p db x2 = (rf, x3)" by force
    have "drops_to db ts (FindingFirst p) x2 (r, x')" if "\<not> ?above"
    proof (cases rf)
      case (Inl er)
      have out: "if is_not_found er then rest () x3 = (r, x') else (r, x') = (Inl (Wrapped ''find first surviving row'' er), x3)"
        using run g Inr that f Inl by (auto simp: raiseFloor_def bindE_def wrapE_def)
      show ?thesis
      proof (cases "is_not_found er")
        case True
        with out rest have "drops_to db ts (after_pass p) x3 (r, x')" by simp
        then show ?thesis by (rule drops_to_step [rotated 2]) (simp_all add: f Inl True)
      next
        case False
        with out f Inl drops_to_fail [of "FindingFirst p" db ts x2] show ?thesis by simp
      qed
    next
      case it: (Inr it)
      obtain i t where it': "it = (i, t)" by force
      obtain ru x4 where u: "UpdateState db (pass_floor p) i t x3 = (ru, x4)" by force
      have "(case ru of Inl er \<Rightarrow> (Inl er, x4) | Inr _ \<Rightarrow> rest () x4) = (r, x')"
        using run g Inr that f it it' u by (auto simp: raiseFloor_def bindE_def wrapE_def split: sum.splits)
      then have "drops_to db ts (Raising p i t) x3 (r, x')"
        using u rest drops_to_fail [of "Raising p i t" db ts x3]
          drops_to_step [of "Raising p i t" db ts x3 "after_pass p" x4]
        by (cases ru) (auto simp: bindE_def)
      then show ?thesis by (rule drops_to_step [rotated 2]) (simp_all add: f it it')
    qed
    moreover have "drops_to db ts (after_pass p) x2 (r, x')" if ?above
      by (rule rest) (use run g Inr that in \<open>auto simp: raiseFloor_def bindE_def wrapE_def\<close>)
    ultimately have "drops_to db ts (if ?above then after_pass p else FindingFirst p) x2 (r, x')"
      by (cases "?above") (simp_all only: if_True if_False not_False_eq_True simp_thms)
    then show ?thesis by (rule drops_to_step [rotated 2, OF _ _ step]) simp
  qed
qed

lemma bindE_unit: "bindE m ret = m"
  by (auto simp: bindE_def fun_eq_iff split: prod.splits sum.splits)

lemma dropHistoryBelow_steps:
  assumes run: "dropHistoryBelow fuel db ts x = (r, x')" and fuel: "r \<noteq> Inl OutOfFuel"
  shows "drops_to db ts (Deleting LogEntity) x (r, x')"
proof -
  have "bindE (DeleteInBatches fuel db ts LogEntity) (\<lambda>_.
      bindE (raiseFloor db ts (pass_floor LogPass) (pass_first LogPass)) (\<lambda>_.
      bindE (DeleteInBatches fuel db ts TransactionEntity) (\<lambda>_.
      bindE (DeleteInBatches fuel db ts BlockEntity) (\<lambda>_.
      bindE (raiseFloor db ts (pass_floor BlockPass) (pass_first BlockPass)) ret)))) x = (r, x')"
    using run by (simp add: dropHistoryBelow_def dropAndRaiseFloor_def bindE_assoc bindE_unit)
  then show ?thesis
    apply (rule DeleteInBatches_steps [OF _ fuel], simp del: pass_floor.simps pass_first.simps)
    apply (rule raiseFloor_steps, assumption, simp del: pass_floor.simps pass_first.simps)
    apply (rule DeleteInBatches_steps [OF _ fuel], assumption, simp del: pass_floor.simps pass_first.simps)
    apply (rule DeleteInBatches_steps [OF _ fuel], assumption, simp del: pass_floor.simps pass_first.simps)
    apply (rule raiseFloor_steps, assumption)
    apply (auto intro: drops_to_Idle)
    done
qed


subsection \<open>Continuous indexing, transaction by transaction\<close>

text \<open>The second transaction of a save.\<close>

definition saveCoverage :: "'x store \<Rightarrow> databaseStructData \<Rightarrow> u64 \<Rightarrow> u64 \<Rightarrow> ('x, unit) io" where
  "saveCoverage db data lastDBIndex lastDBTimestamp =
     (case lowestBlock (d_Blocks data) of
        None \<Rightarrow> UpdateState db LastIndexed lastDBIndex lastDBTimestamp
      | Some first \<Rightarrow> WriteCoverageStates db lastDBIndex lastDBTimestamp (b_number first) (b_timestamp first))"

lemma saveData_stages:
  "saveData db data li lt = bindE (s_transaction db (saveRows db data)) (\<lambda>_. saveCoverage db data li lt)"
  by (simp add: saveData_def saveCoverage_def)

datatype follow_pc =
    Resuming
  | Ranging u64
  | Following u64 indexRange
  | Committing u64 indexRange databaseStructData u64
  | Covering u64 indexRange databaseStructData u64
  | Stopped

fun follow_step :: "'x deps \<Rightarrow> 'x engine \<Rightarrow> u64 \<Rightarrow> follow_pc \<Rightarrow> ('x world, follow_pc) io" where
  "follow_step D ci historyLastIndex Resuming =
     bindE (liftX (ContinuousStartIndex (e_db ci) historyLastIndex)) (\<lambda>startIndex. ret (Ranging startIndex))"
| "follow_step D ci historyLastIndex (Ranging startIndex) =
     bindE (wrapE ''ci.getIndexRange'' (liftX (getIndexRange D ci startIndex))) (\<lambda>ixRange.
       ret (Following (r_start ixRange) ixRange))"
| "follow_step D ci historyLastIndex (Following blockNum ixRange) =
     (if blockNum \<le> StopIndex (params ci) then
        if r_end ixRange < blockNum then
          bindE (liftX (updateLastIndexContinuous D ci ixRange)) (\<lambda>ixRange. ret (Following blockNum ixRange))
        else
          bindE (iteration_data D ci blockNum) (\<lambda>(data, ts). ret (Committing blockNum ixRange data ts))
      else ret Stopped)"
| "follow_step D ci historyLastIndex (Committing blockNum ixRange data ts) =
     bindE (wrapE ''saveData'' (liftX (s_transaction (e_db ci) (saveRows (e_db ci) data)))) (\<lambda>_.
       ret (Covering blockNum ixRange data ts))"
| "follow_step D ci historyLastIndex (Covering blockNum ixRange data ts) =
     bindE (wrapE ''saveData'' (liftX (saveCoverage (e_db ci) data blockNum ts))) (\<lambda>_.
       ret (Following (blockNum + 1) ixRange))"
| "follow_step D ci historyLastIndex Stopped = ret Stopped"

primrec follow_run :: "nat \<Rightarrow> 'x deps \<Rightarrow> 'x engine \<Rightarrow> u64 \<Rightarrow> follow_pc \<Rightarrow> ('x world, unit) io" where
  "follow_run 0 D ci historyLastIndex pc = throw OutOfFuel"
| "follow_run (Suc n) D ci historyLastIndex pc =
     (if pc = Stopped then ret ()
      else bindE (follow_step D ci historyLastIndex pc) (follow_run n D ci historyLastIndex))"

definition follows_to ::
  "'x deps \<Rightarrow> 'x engine \<Rightarrow> u64 \<Rightarrow> follow_pc \<Rightarrow> 'x world \<Rightarrow> (go_error + unit) \<times> 'x world \<Rightarrow> bool" where
  "follows_to D ci h pc w out \<longleftrightarrow> (\<exists>n. follow_run n D ci h pc w = out)"

lemma follows_to_Stopped: "follows_to D ci h Stopped w (Inr (), w)"
  unfolding follows_to_def by (rule exI [of _ 1]) simp

lemma follows_to_step:
  assumes "pc \<noteq> Stopped" "bindE (follow_step D ci h pc) rest w = out"
    and "\<And>pc' w1. rest pc' w1 = out \<Longrightarrow> follow_step D ci h pc w = (Inr pc', w1) \<Longrightarrow> follows_to D ci h pc' w1 out"
  shows "follows_to D ci h pc w out"
proof -
  obtain r w1 where s: "follow_step D ci h pc w = (r, w1)" by force
  show ?thesis
  proof (cases r)
    case (Inl e)
    with assms(1,2) s have "follow_run 1 D ci h pc w = out" by (simp add: bindE_def)
    then show ?thesis unfolding follows_to_def by blast
  next
    case (Inr pc')
    with assms(2) s have "rest pc' w1 = out" by (simp add: bindE_def)
    with assms(3) s Inr obtain n where "follow_run n D ci h pc' w1 = out" unfolding follows_to_def by blast
    then have "follow_run (Suc n) D ci h pc w = out" using assms(1) s Inr by (simp add: bindE_def)
    then show ?thesis unfolding follows_to_def by blast
  qed
qed

lemma liftX_bind: "liftX (bindE m f) = bindE (liftX m) (\<lambda>y. liftX (f y))"
  by (auto simp: liftX_def bindE_def fun_eq_iff split: prod.splits sum.splits)

lemma wrapE_bind: "wrapE a (bindE m f) = bindE (wrapE a m) (\<lambda>y. wrapE a (f y))"
  by (auto simp: wrapE_def wrapR_def bindE_def fun_eq_iff split: prod.splits sum.splits)

text \<open>The loop in these steps.\<close>

lemma IndexContinuous_from_steps:
  assumes "IndexContinuous_from n D ci k rg w = (r, w')" "r \<noteq> Inl OutOfFuel"
  shows "follows_to D ci h (Following k rg) w (r, w')"
  using assms(1)
proof (induction n arbitrary: k rg w)
  case 0
  with assms(2) show ?case by simp
next
  case (Suc n)
  consider "StopIndex (params ci) < k" | "k \<le> StopIndex (params ci)" "r_end rg < k"
    | "k \<le> StopIndex (params ci)" "k \<le> r_end rg" by fastforce
  then show ?case
  proof cases
    case 1
    then have "\<not> k \<le> StopIndex (params ci)" by simp
    with Suc.prems show ?thesis
      by (intro follows_to_step [of "Following k rg" D ci h "\<lambda>_. ret ()"]) (auto intro: follows_to_Stopped)
  next
    case 2
    let ?rest = "\<lambda>pc. case pc of Following k rg \<Rightarrow> IndexContinuous_from n D ci k rg | _ \<Rightarrow> ret ()"
    from 2 Suc.prems have "bindE (follow_step D ci h (Following k rg)) ?rest w = (r, w')"
      by (simp add: bindE_assoc)
    then show ?thesis
      by (rule follows_to_step [rotated]) (use 2 Suc.IH in \<open>auto simp: bindE_Inr_iff\<close>)
  next
    case 3
    let ?save = "\<lambda>k data ts. wrapE ''saveData'' (liftX (saveCoverage (e_db ci) data k ts))"
    let ?next = "\<lambda>pc. case pc of Following k rg \<Rightarrow> IndexContinuous_from n D ci k rg | _ \<Rightarrow> ret ()"
    let ?cover = "\<lambda>pc. case pc of Covering k rg data ts \<Rightarrow>
        bindE (?save k data ts) (\<lambda>_. IndexContinuous_from n D ci (k + 1) rg) | _ \<Rightarrow> ret ()"
    let ?commit = "\<lambda>pc. case pc of Committing k rg data ts \<Rightarrow>
        bindE (wrapE ''saveData'' (liftX (s_transaction (e_db ci) (saveRows (e_db ci) data)))) (\<lambda>_.
        bindE (?save k data ts) (\<lambda>_. IndexContinuous_from n D ci (k + 1) rg)) | _ \<Rightarrow> ret ()"
    have "\<not> r_end rg < k" using 3 by simp
    with 3 Suc.prems have "bindE (follow_step D ci h (Following k rg)) ?commit w = (r, w')"
      by (simp add: indexContinuousIteration_stages saveData_stages liftX_bind wrapE_bind bindE_assoc case_prod_unfold)
    then show ?thesis
    proof (rule follows_to_step [rotated], goal_cases)
      case (1 pc1 w1)
      from 1(2) 3 \<open>\<not> r_end rg < k\<close> obtain data ts where pc1: "pc1 = Committing k rg data ts"
        by (auto simp: bindE_Inr_iff)
      with 1(1) have "bindE (follow_step D ci h pc1) ?cover w1 = (r, w')" by (simp add: bindE_assoc)
      then show ?case
      proof (rule follows_to_step [rotated], goal_cases)
        case (1 pc2 w2)
        from 1(2) pc1 have pc2: "pc2 = Covering k rg data ts" by (auto simp: bindE_Inr_iff)
        with 1(1) have "bindE (follow_step D ci h pc2) ?next w2 = (r, w')" by (simp add: bindE_assoc)
        then show ?case
          by (rule follows_to_step [rotated]) (use Suc.IH pc2 in \<open>auto simp: bindE_Inr_iff\<close>)
      qed (simp add: pc1)
    qed simp
  qed
qed

lemma continuous_attempt_steps:
  assumes run: "continuous_attempt D ci (e_db ci) h w = (r, w')" and fuel: "r \<noteq> Inl OutOfFuel"
  shows "follows_to D ci h Resuming w (r, w')"
proof -
  let ?range = "\<lambda>pc. case pc of Ranging s \<Rightarrow> IndexContinuous D ci s | _ \<Rightarrow> ret ()"
  let ?loop = "\<lambda>pc. case pc of Following k rg \<Rightarrow> IndexContinuous_from (loop_fuel D) D ci k rg | _ \<Rightarrow> ret ()"
  from run have "bindE (follow_step D ci h Resuming) ?range w = (r, w')"
    by (simp add: continuous_attempt_def bindE_assoc)
  then show ?thesis
  proof (rule follows_to_step [rotated], goal_cases)
    case (1 pc1 w1)
    from 1(2) obtain s where pc1: "pc1 = Ranging s" by (auto simp: bindE_Inr_iff)
    with 1(1) have "bindE (follow_step D ci h pc1) ?loop w1 = (r, w')" by (simp add: IndexContinuous_def bindE_assoc)
    then show ?case
    proof (rule follows_to_step [rotated], goal_cases)
      case (1 pc2 w2)
      from 1(2) pc1 obtain k rg where "pc2 = Following k rg" by (auto simp: bindE_Inr_iff)
      with 1(1) IndexContinuous_from_steps [OF _ fuel] show ?case by simp
    qed (simp add: pc1)
  qed simp
qed

end
