(* ===== verification/Live.thy ===== *)
theory Live
  imports Goroutines
begin

text \<open>
  What the database guarantees at every moment while continuous indexing and the history drop
  interleave, in any order and with any failures.
\<close>

subsection \<open>The interleaving\<close>

text \<open>
  The process, where each goroutine is; \<open>l_boundary\<close> is the boundary of the current drop.
  \<open>l_highest\<close> and \<open>l_settled\<close> only record: the highest boundary so far, and that the
  last drop had it, has ended, and found its floor.
\<close>

record 'x live =
  l_world :: "'x world"
  l_follow :: follow_pc
  l_drop :: drop_pc
  l_boundary :: u64
  l_highest :: u64
  l_settled :: bool

definition both_started :: "'x world \<Rightarrow> 'x live" where
  "both_started w = \<lparr>l_world = w, l_follow = Resuming, l_drop = Idle, l_boundary = 0, l_highest = 0, l_settled = True\<rparr>"

abbreviation l_tabs :: "('x \<Rightarrow> tables) \<Rightarrow> 'x live \<Rightarrow> tables" where
  "l_tabs tabs s \<equiv> tabs (ext (l_world s))"

text \<open>
  A failed attempt is retried from its start; a failed drop iteration is given up. An attempt may
  also be given up between two blocks (in the model: when its fuel is spent). The flag of \<^verbatim>\<open>ready\<close>
  is set before the first attempt, when the drop may already be at work.
\<close>

definition or_else :: "'a \<Rightarrow> go_error + 'a \<Rightarrow> 'a" where
  "or_else pc r = (case r of Inl _ \<Rightarrow> pc | Inr pc' \<Rightarrow> pc')"

inductive live_step ::
  "'x deps \<Rightarrow> 'x engine \<Rightarrow> u64 \<Rightarrow> ('x, u64) io \<Rightarrow> 'x live \<Rightarrow> 'x live \<Rightarrow> bool"
  for D ci historyLastIndex boundaryFn where
  follow:
    "follow_step D ci historyLastIndex (l_follow s) (l_world s) = (r, w') \<Longrightarrow>
     live_step D ci historyLastIndex boundaryFn s (s\<lparr>l_world := w', l_follow := or_else Resuming r\<rparr>)"
| abandon:
    "l_follow s = Following k rg \<Longrightarrow> live_step D ci historyLastIndex boundaryFn s (s\<lparr>l_follow := Resuming\<rparr>)"
| ready:
    "l_follow s = Resuming \<Longrightarrow>
     live_step D ci historyLastIndex boundaryFn s (s\<lparr>l_world := (l_world s)\<lparr>synced := True\<rparr>\<rparr>)"
| no_boundary:
    "l_drop s = Idle \<Longrightarrow> boundaryFn (ext (l_world s)) = (Inl e, x') \<Longrightarrow>
     live_step D ci historyLastIndex boundaryFn s (s\<lparr>l_world := (l_world s)\<lparr>ext := x'\<rparr>\<rparr>)"
| begin_drop:
    "l_drop s = Idle \<Longrightarrow> boundaryFn (ext (l_world s)) = (Inr boundary, x') \<Longrightarrow>
     live_step D ci historyLastIndex boundaryFn s
       (s\<lparr>l_world := (l_world s)\<lparr>ext := x'\<rparr>, l_drop := Deleting LogEntity, l_boundary := boundary,
          l_highest := max (l_highest s) boundary, l_settled := False\<rparr>)"
| drop:
    "l_drop s \<noteq> Idle \<Longrightarrow> drop_step (e_db ci) (l_boundary s) (l_drop s) (ext (l_world s)) = (r, x') \<Longrightarrow>
     live_step D ci historyLastIndex boundaryFn s
       (s\<lparr>l_world := (l_world s)\<lparr>ext := x'\<rparr>, l_drop := or_else Idle r,
          l_settled := (r = Inr Idle \<and> l_drop s \<noteq> FindingFirst BlockPass \<and> l_boundary s = l_highest s)\<rparr>)"

subsection \<open>What is kept\<close>

definition present :: "common_lib \<Rightarrow> (nat \<Rightarrow> ext_block) \<Rightarrow> tables \<Rightarrow> nat \<Rightarrow> bool" where
  "present L chain tb n \<longleftrightarrow> chain_row L (chain n) \<in> set (tb_blocks tb)"

text \<open>The block that continuous indexing is about to index, and the lowest claimed block.\<close>

definition top_no :: "u64 \<Rightarrow> tables \<Rightarrow> nat" where
  "top_no h tb = max (unat h) (unat (Index (state_of tb LastIndexed))) + 1"

definition floor_no :: "u64 \<Rightarrow> tables \<Rightarrow> nat" where
  "floor_no c tb = (case tb_states tb BlockFloor of None \<Rightarrow> unat c | Some fl \<Rightarrow> unat (Index fl))"

text \<open>\<open>c\<close> is the block at which indexing of the empty database began.\<close>

definition followable :: "u64 \<Rightarrow> common_lib \<Rightarrow> (nat \<Rightarrow> ext_block) \<Rightarrow> u64 \<Rightarrow> tables \<Rightarrow> bool" where
  "followable c L chain h tb \<longleftrightarrow>
     chain_rows L chain tb \<and> (\<forall>b \<in> set (tb_blocks tb). c \<le> b_number b) \<and>
     unat c \<le> top_no h tb \<and> top_no h tb \<le> 2 ^ 62 \<and>
     (\<forall>fl. tb_states tb BlockFloor = Some fl \<longrightarrow> c \<le> Index fl \<and> BlockTimestamp fl = bk_time (chain (unat (Index fl))))"

text \<open>No row and no floor is above the block that is to be indexed.\<close>

definition tight :: "u64 \<Rightarrow> u64 \<Rightarrow> tables \<Rightarrow> bool" where
  "tight c h tb \<longleftrightarrow> (\<forall>b \<in> set (tb_blocks tb). unat (b_number b) \<le> top_no h tb) \<and> floor_no c tb \<le> top_no h tb"

text \<open>Every block from \<open>c\<close> up to \<open>m\<close> that is not older than \<open>ts\<close> is stored; every block from the floor is.\<close>

definition served :: "u64 \<Rightarrow> common_lib \<Rightarrow> (nat \<Rightarrow> ext_block) \<Rightarrow> u64 \<Rightarrow> nat \<Rightarrow> tables \<Rightarrow> bool" where
  "served c L chain ts m tb \<longleftrightarrow>
     (\<forall>n. unat c \<le> n \<longrightarrow> n < m \<longrightarrow> ts \<le> bk_time (chain n) \<longrightarrow> present L chain tb n)"

definition all_served :: "u64 \<Rightarrow> common_lib \<Rightarrow> (nat \<Rightarrow> ext_block) \<Rightarrow> nat \<Rightarrow> tables \<Rightarrow> bool" where
  "all_served c L chain m tb \<longleftrightarrow> (\<forall>n. floor_no c tb \<le> n \<longrightarrow> n < m \<longrightarrow> present L chain tb n)"

text \<open>Above a stored block that is older than \<open>ts\<close>, every block up to \<open>m\<close> is stored.\<close>

definition joined :: "common_lib \<Rightarrow> (nat \<Rightarrow> ext_block) \<Rightarrow> u64 \<Rightarrow> nat \<Rightarrow> tables \<Rightarrow> bool" where
  "joined L chain ts m tb \<longleftrightarrow>
     (\<forall>b \<in> set (tb_blocks tb). b_timestamp b < ts \<longrightarrow>
        (\<forall>n. unat (b_number b) \<le> n \<longrightarrow> n < m \<longrightarrow> present L chain tb n))"

text \<open>What holds where a goroutine is: \<open>t\<close> is the block that is to be indexed.\<close>

fun reach :: "follow_pc \<Rightarrow> nat \<Rightarrow> nat" where
  "reach (Covering k rg data ts) t = t + 1"
| "reach pc t = t"

fun follow_ok :: "common_lib \<Rightarrow> (nat \<Rightarrow> ext_block) \<Rightarrow> nat \<Rightarrow> follow_pc \<Rightarrow> bool" where
  "follow_ok L chain t (Ranging k) \<longleftrightarrow> unat k = t"
| "follow_ok L chain t (Following k rg) \<longleftrightarrow> unat k = t \<and> unat (r_end rg) < 2 ^ 62"
| "follow_ok L chain t (Committing k rg data ts) \<longleftrightarrow>
     unat k = t \<and> k \<le> r_end rg \<and> unat (r_end rg) < 2 ^ 62 \<and> d_Blocks data = batch_blocks L chain k 1"
| "follow_ok L chain t (Covering k rg data ts) \<longleftrightarrow>
     unat k = t \<and> k \<le> r_end rg \<and> unat (r_end rg) < 2 ^ 62 \<and> d_Blocks data = batch_blocks L chain k 1"
| "follow_ok L chain t _ \<longleftrightarrow> True"

fun drop_ok :: "common_lib \<Rightarrow> (nat \<Rightarrow> ext_block) \<Rightarrow> u64 \<Rightarrow> nat \<Rightarrow> tables \<Rightarrow> drop_pc \<Rightarrow> bool" where
  "drop_ok L chain ts m tb (ReadingFloor BlockPass) \<longleftrightarrow> joined L chain ts m tb"
| "drop_ok L chain ts m tb (FindingFirst BlockPass) \<longleftrightarrow> joined L chain ts m tb"
| "drop_ok L chain ts m tb (Raising BlockPass i t) \<longleftrightarrow>
     joined L chain ts m tb \<and> (\<exists>b \<in> set (tb_blocks tb). b_number b = i \<and> b_timestamp b = t)"
| "drop_ok L chain ts m tb _ \<longleftrightarrow> True"

text \<open>\<open>neat\<close>: the two goroutines started from a tight database.\<close>

definition kept_between ::
  "bool \<Rightarrow> u64 \<Rightarrow> common_lib \<Rightarrow> (nat \<Rightarrow> ext_block) \<Rightarrow> u64 \<Rightarrow> u64 \<Rightarrow> u64 \<Rightarrow> bool \<Rightarrow> drop_pc \<Rightarrow> nat \<Rightarrow> tables \<Rightarrow> bool" where
  "kept_between neat c L chain h boundary highest settled pc m tb \<longleftrightarrow>
     followable c L chain h tb \<and> served c L chain highest m tb \<and> drop_ok L chain boundary m tb pc \<and>
     (neat \<longrightarrow> tight c h tb \<and> (settled \<longrightarrow> all_served c L chain m tb))"

definition live_inv :: "bool \<Rightarrow> u64 \<Rightarrow> common_lib \<Rightarrow> (nat \<Rightarrow> ext_block) \<Rightarrow> u64 \<Rightarrow> ('x \<Rightarrow> tables) \<Rightarrow> 'x live \<Rightarrow> bool" where
  "live_inv neat c L chain h tabs s \<longleftrightarrow>
     (let tb = l_tabs tabs s in
      follow_ok L chain (top_no h tb) (l_follow s) \<and> l_boundary s \<le> l_highest s \<and>
      kept_between neat c L chain h (l_boundary s) (l_highest s) (l_settled s) (l_drop s) (reach (l_follow s) (top_no h tb)) tb)"

text \<open>What a step may not touch, for all this to be the same.\<close>

definition same_blocks :: "tables \<Rightarrow> tables \<Rightarrow> bool" where
  "same_blocks tb tb' \<longleftrightarrow>
     tb_blocks tb' = tb_blocks tb \<and> tb_states tb' BlockFloor = tb_states tb BlockFloor \<and>
     tb_states tb' LastIndexed = tb_states tb LastIndexed"

lemma same_blocks_refl [simp]: "same_blocks tb tb"
  by (simp add: same_blocks_def)

lemma drop_ok_cong:
  assumes "joined L chain B m tb \<Longrightarrow> joined L chain B m' tb'" "set (tb_blocks tb) \<subseteq> set (tb_blocks tb')" "drop_ok L chain B m tb pc"
  shows "drop_ok L chain B m' tb' pc"
  using assms by (cases "(L, chain, B, m, tb, pc)" rule: drop_ok.cases) auto

lemma same_blocks_kept:
  assumes "same_blocks tb tb'"
  shows "top_no h tb' = top_no h tb"
    and "kept_between neat c L chain h B M st pc m tb' \<longleftrightarrow> kept_between neat c L chain h B M st pc m tb"
proof -
  from assms have e: "tb_blocks tb' = tb_blocks tb" "tb_states tb' BlockFloor = tb_states tb BlockFloor"
    "tb_states tb' LastIndexed = tb_states tb LastIndexed" by (simp_all add: same_blocks_def)
  show t: "top_no h tb' = top_no h tb" by (simp add: top_no_def state_of_def e)
  have p: "present L chain tb' = present L chain tb" by (simp add: present_def fun_eq_iff e)
  have f: "floor_no c tb' = floor_no c tb" by (simp add: floor_no_def e)
  have "joined L chain B m tb' \<longleftrightarrow> joined L chain B m tb" by (simp add: joined_def e p)
  then have "drop_ok L chain B m tb' pc \<longleftrightarrow> drop_ok L chain B m tb pc"
    using drop_ok_cong [of L chain B m tb m tb' pc] drop_ok_cong [of L chain B m tb' m tb pc] e by auto
  then show "kept_between neat c L chain h B M st pc m tb' \<longleftrightarrow> kept_between neat c L chain h B M st pc m tb"
    by (simp add: kept_between_def followable_def tight_def served_def all_served_def chain_rows_def e t p f)
qed

lemma kept_between_less:
  assumes "kept_between neat c L chain h B M st pc m tb" "m' \<le> m"
  shows "kept_between neat c L chain h B M st pc m' tb"
proof -
  have "joined L chain B m tb \<Longrightarrow> joined L chain B m' tb" using assms(2) unfolding joined_def by (meson less_le_trans)
  then have "drop_ok L chain B m tb pc \<Longrightarrow> drop_ok L chain B m' tb pc" by (rule drop_ok_cong) auto
  with assms show ?thesis unfolding kept_between_def served_def all_served_def by (meson less_le_trans)
qed

subsection \<open>The two goroutines at work\<close>

text \<open>
  The interface: an indexer of a chain whose times do not decrease, and a boundary that is computed
  without touching the tables.
\<close>

locale following = indexing D ci chain logs_at receipt_of tabs
  for D :: "'x deps" and ci :: "'x engine" and chain logs_at receipt_of and tabs :: "'x \<Rightarrow> tables" +
  fixes boundaryFn :: "('x, u64) io"
  assumes time_law: "j \<le> k \<Longrightarrow> k \<le> 2 ^ 62 \<Longrightarrow> bk_time (chain j) \<le> bk_time (chain k)"
    and boundary_law: "keeps (\<lambda>x. tabs x = v) boundaryFn"
begin

abbreviation kept_inv :: "bool \<Rightarrow> u64 \<Rightarrow> u64 \<Rightarrow> u64 \<Rightarrow> u64 \<Rightarrow> bool \<Rightarrow> drop_pc \<Rightarrow> nat \<Rightarrow> tables \<Rightarrow> bool" where
  "kept_inv neat c \<equiv> kept_between neat c (lib D) chain"

text \<open>The transaction of the rows: the block to be indexed is stored.\<close>

lemma commit_kept:
  assumes inv: "kept_inv neat c h B M st pc (top_no h tb) tb" and k: "unat k = top_no h tb" "unat k < 2 ^ 62"
    and rows: "tb_blocks tb' = tb_blocks (fold ins_block (batch_blocks (lib D) chain k 1) tb)"
    and states: "tb_states tb' = tb_states tb"
  shows "top_no h tb' = top_no h tb" "kept_inv neat c h B M st pc (top_no h tb + 1) tb'"
proof -
  show t: "top_no h tb' = top_no h tb" by (simp add: top_no_def state_of_def states)
  have f: "floor_no c tb' = floor_no c tb" by (simp add: floor_no_def states)
  from inv have fl: "followable c (lib D) chain h tb" by (simp add: kept_between_def)
  then have cr: "chain_rows (lib D) chain tb" by (simp add: followable_def)
  have n: "unat k + 1 \<le> 18446744073709551616" using k(2) by simp
  have mono: "set (tb_blocks tb) \<subseteq> set (tb_blocks tb')" by (simp add: rows fold_ins_block_mono)
  have pk: "present (lib D) chain tb' (unat k)"
    using batch_block_present [OF cr number hash_law distinct_law n, of k] by (simp add: present_def rows)
  have pm: "present (lib D) chain tb n \<Longrightarrow> present (lib D) chain tb' n" for n
    using mono by (auto simp: present_def)
  have step: "present (lib D) chain tb' n"
    if "n < top_no h tb + 1" "n < top_no h tb \<Longrightarrow> present (lib D) chain tb n" for n
    using that pk pm k(1) by (cases "n = unat k") auto
  have new: "b \<in> set (tb_blocks tb) \<or> unat (b_number b) = unat k" if "b \<in> set (tb_blocks tb')" for b
  proof -
    from that have "b \<in> set (tb_blocks tb) \<or> b \<in> set (batch_blocks (lib D) chain k 1)"
      using fold_ins_block_origin by (fastforce simp: rows)
    then show ?thesis using batch_block_number [OF number, of k 0 "lib D"] n by (auto simp: batch_blocks_def)
  qed
  have "chain_rows (lib D) chain tb'" using fold_ins_block_chain [OF cr number n] by (simp add: chain_rows_def rows)
  then have "followable c (lib D) chain h tb'"
    using fl new k(1) by (fastforce simp: followable_def t states word_le_nat_alt)
  moreover have "tight c h tb \<Longrightarrow> tight c h tb'" using new k(1) by (fastforce simp: tight_def t f)
  moreover have "joined (lib D) chain B (top_no h tb + 1) tb'" if "joined (lib D) chain B (top_no h tb) tb"
    unfolding joined_def
  proof (intro ballI allI impI)
    fix b n assume b: "b \<in> set (tb_blocks tb')" "b_timestamp b < B" and n: "unat (b_number b) \<le> n" "n < top_no h tb + 1"
    show "present (lib D) chain tb' n"
      by (rule step [OF n(2)]) (use new [OF b(1)] that b n k(1) in \<open>auto simp: joined_def\<close>)
  qed
  then have "drop_ok (lib D) chain B (top_no h tb) tb pc \<Longrightarrow> drop_ok (lib D) chain B (top_no h tb + 1) tb' pc"
    using mono by (rule drop_ok_cong)
  moreover have "served c (lib D) chain M (top_no h tb) tb \<Longrightarrow> served c (lib D) chain M (top_no h tb + 1) tb'"
    unfolding served_def using step by blast
  moreover have "all_served c (lib D) chain (top_no h tb) tb \<Longrightarrow> all_served c (lib D) chain (top_no h tb + 1) tb'"
    unfolding all_served_def f using step by blast
  ultimately show "kept_inv neat c h B M st pc (top_no h tb + 1) tb'" using inv by (simp add: kept_between_def)
qed

text \<open>The transaction of the states: the block becomes claimed; a tight floor stays.\<close>

lemma cover_kept:
  assumes inv: "kept_inv neat c h B M st pc (top_no h tb + 1) tb" and k: "unat k = top_no h tb" "unat k < 2 ^ 62"
    and tb': "tb' = coverage_tables k lt k (bk_time (chain (unat k))) tb"
  shows "top_no h tb' = top_no h tb + 1" "kept_inv neat c h B M st pc (top_no h tb + 1) tb'"
proof -
  have li: "Index (state_of tb' LastIndexed) = k" by (simp add: tb' state_of_def)
  have b: "tb_blocks tb' = tb_blocks tb"
    and bf: "tb_states tb' BlockFloor = Some (lowered (tb_states tb BlockFloor) k (bk_time (chain (unat k))))"
    by (simp_all add: tb')
  have "unat h < unat k" using k(1) by (simp add: top_no_def)
  then show t: "top_no h tb' = top_no h tb + 1" using k(1) by (simp add: top_no_def li)
  have p: "present (lib D) chain tb' = present (lib D) chain tb" by (simp add: present_def fun_eq_iff b)
  from inv have fl: "followable c (lib D) chain h tb" by (simp add: kept_between_def)
  then have "c \<le> k" using k(1) by (simp add: followable_def word_le_nat_alt)
  then have "followable c (lib D) chain h tb'"
    using fl k by (auto simp: followable_def t b chain_rows_def bf lowered_def split: option.splits)
  moreover have "tight c h tb' \<and> floor_no c tb \<le> floor_no c tb'" if "tight c h tb"
    using that k(1) fl by (auto simp: tight_def t b floor_no_def bf lowered_def followable_def word_less_nat_alt
        split: option.splits)
  moreover have "joined (lib D) chain B m tb \<Longrightarrow> joined (lib D) chain B m tb'" for m by (simp add: joined_def b p)
  then have "drop_ok (lib D) chain B m tb pc \<Longrightarrow> drop_ok (lib D) chain B m tb' pc" for m
    by (rule drop_ok_cong) (simp_all add: b)
  ultimately show "kept_inv neat c h B M st pc (top_no h tb + 1) tb'"
    using inv by (auto simp: kept_between_def served_def all_served_def p)
qed

text \<open>A deletion at the boundary.\<close>

lemma delete_kept:
  assumes inv: "kept_inv neat c h B M st (Deleting e) m tb" and BM: "B \<le> M"
    and d: "delete_step e lim B tb n tb'" "0 < lim"
    and pc': "pc' = Deleting e \<or> pc' = Idle \<or> n = 0 \<and> pc' = after_delete e"
  shows "top_no h tb' = top_no h tb" "kept_inv neat c h B M False pc' m tb'"
proof -
  have st: "tb_states tb' = tb_states tb" and sub: "set (tb_blocks tb') \<subseteq> set (tb_blocks tb)"
    and young: "b \<in> set (tb_blocks tb) \<Longrightarrow> B \<le> b_timestamp b \<Longrightarrow> b \<in> set (tb_blocks tb')" for b
    using d(1) by (cases e; auto dest: deletes_in deletes_keeps_young simp: not_less)+
  show t: "top_no h tb' = top_no h tb" by (simp add: top_no_def state_of_def st)
  have f: "floor_no c tb' = floor_no c tb" by (simp add: floor_no_def st)
  have "followable c (lib D) chain h tb'" "neat \<longrightarrow> tight c h tb'"
    using inv sub by (auto simp: kept_between_def followable_def tight_def t f st chain_rows_def)
  moreover have "served c (lib D) chain M m tb'"
    using inv young BM unfolding kept_between_def served_def present_def
    by (metis chain_row_def db_block.select_convs(3) order.trans)
  moreover have "joined (lib D) chain B m tb'" if "n = 0" "e = BlockEntity"
  proof -
    have "old_rows BlockEntity B tb' = 0" using delete_step_zero d that by blast
    then show ?thesis by (auto simp: joined_def filter_empty_conv)
  qed
  then have "drop_ok (lib D) chain B m tb' pc'" using pc' by (cases e) auto
  ultimately show "kept_inv neat c h B M False pc' m tb'" by (simp add: kept_between_def)
qed

text \<open>Raising the floor over the first surviving row.\<close>

lemma raise_kept:
  assumes inv: "kept_inv neat c h B M st (Raising BlockPass i t) m tb" and m: "m \<le> top_no h tb + 1"
    and tb': "tb' = upsert_state BlockFloor i t tb"
  shows "top_no h tb' = top_no h tb" "kept_inv neat c h B M (B = M) Idle m tb'"
proof -
  have b: "tb_blocks tb' = tb_blocks tb"
    and bf: "tb_states tb' BlockFloor = Some \<lparr>Index = i, BlockTimestamp = t\<rparr>" by (simp_all add: tb')
  show tp: "top_no h tb' = top_no h tb" by (simp add: top_no_def tb' state_of_def)
  have f: "floor_no c tb' = unat i" by (simp add: floor_no_def bf)
  have p: "present (lib D) chain tb' = present (lib D) chain tb" by (simp add: present_def fun_eq_iff b)
  from inv have fl: "followable c (lib D) chain h tb" and sv: "served c (lib D) chain M m tb"
    and jn: "joined (lib D) chain B m tb" and ex: "\<exists>r \<in> set (tb_blocks tb). b_number r = i \<and> b_timestamp r = t"
    by (simp_all add: kept_between_def)
  then obtain r where r: "r \<in> set (tb_blocks tb)" "b_number r = i" "b_timestamp r = t" by blast
  have "r = chain_row (lib D) (chain (unat i))" using fl r(1,2) by (auto simp: followable_def chain_rows_def)
  then have t: "t = bk_time (chain (unat i))" using r(3) by (metis chain_row_def db_block.select_convs(3))
  have i: "c \<le> i" using fl r by (auto simp: followable_def)
  have "followable c (lib D) chain h tb'"
    using fl i t by (auto simp: followable_def tp b chain_rows_def bf)
  moreover have "tight c h tb \<Longrightarrow> tight c h tb'" using r by (auto simp: tight_def tp b f)
  moreover have "all_served c (lib D) chain m tb'" if "B = M"
    unfolding all_served_def f p
  proof (intro allI impI)
    fix n assume n: "unat i \<le> n" "n < m"
    have top: "top_no h tb \<le> 2 ^ 62" using fl by (simp add: followable_def)
    show "present (lib D) chain tb n"
    proof (cases "t < B")
      case True
      with jn r n show ?thesis by (auto simp: joined_def)
    next
      case False
      have "t \<le> bk_time (chain n)" unfolding t using n m top by (intro time_law) auto
      with False that have "M \<le> bk_time (chain n)" by simp
      moreover have "unat c \<le> n" using i n(1) by (simp add: word_le_nat_alt)
      ultimately show ?thesis using sv n(2) by (simp add: served_def)
    qed
  qed
  ultimately show "kept_inv neat c h B M (B = M) Idle m tb'"
    using inv by (simp add: kept_between_def served_def p)
qed

end

context following
begin

text \<open>A step that leaves blocks, floor and progress alone.\<close>

definition quiet :: "u64 \<Rightarrow> follow_pc \<Rightarrow> tables \<Rightarrow> go_error + follow_pc \<Rightarrow> tables \<Rightarrow> bool" where
  "quiet h pc tb r tb' \<longleftrightarrow> same_blocks tb tb' \<and>
     follow_ok (lib D) chain (top_no h tb) (or_else Resuming r) \<and> reach (or_else Resuming r) (top_no h tb) \<le> reach pc (top_no h tb)"

lemma or_else_simps [simp]: "or_else pc (Inl e) = pc" "or_else pc (Inr pc') = pc'"
  by (simp_all add: or_else_def)

lemma tip_same_blocks: "same_blocks tb (upsert_state ChainTip i t tb)"
  by (simp add: same_blocks_def state_of_def)

lemma resume_quiet:
  assumes inv: "followable c (lib D) chain h (tabs (ext w))"
    and run: "follow_step D ci h Resuming w = (r, w')"
  shows "quiet h Resuming (tabs (ext w)) r (tabs (ext w'))"
proof -
  obtain r1 x1 where g: "ContinuousStartIndex (e_db ci) h (ext w) = (r1, x1)" by force
  have t: "top_no h (tabs (ext w)) \<le> 2 ^ 62" using inv by (simp add: followable_def)
  show ?thesis
  proof (cases r1)
    case (Inl e)
    have "tabs x1 = tabs (ext w)"
      using g GetState_tabs [of LastIndexed "ext w"]
      by (auto simp: ContinuousStartIndex_def bindE_def wrapE_def split: prod.splits sum.splits)
    with run g Inl show ?thesis by (auto simp: quiet_def bindE_def liftX_def)
  next
    case (Inr s)
    have "unat h < 18446744073709551615" "unat (Index (state_of (tabs (ext w)) LastIndexed)) < 18446744073709551615"
      using t by (auto simp: top_no_def)
    from ContinuousStartIndex_Inr [OF relational_store_axioms g [unfolded Inr] this]
    have "tabs x1 = tabs (ext w)" "unat s = top_no h (tabs (ext w))" by (auto simp: top_no_def)
    with run g Inr show ?thesis by (auto simp: quiet_def bindE_def liftX_def)
  qed
qed

lemma range_quiet:
  assumes ok: "follow_ok (lib D) chain (top_no h (tabs (ext w))) (Ranging s)"
    and run: "follow_step D ci h (Ranging s) w = (r, w')"
  shows "quiet h (Ranging s) (tabs (ext w)) r (tabs (ext w'))"
proof -
  obtain r1 x1 where g: "getIndexRange D ci s (ext w) = (r1, x1)" by force
  have "same_blocks (tabs (ext w)) (tabs x1)"
    using record_tip(1) [OF g [unfolded getIndexRange_def]] tip_same_blocks by auto
  with run g ok show ?thesis
    by (cases r1) (auto simp: quiet_def bindE_def liftX_def wrapE_def dest: getIndexRange_Inr)
qed

lemma following_quiet:
  assumes ok: "follow_ok (lib D) chain (top_no h (tabs (ext w))) (Following k rg)"
    and run: "follow_step D ci h (Following k rg) w = (r, w')"
  shows "quiet h (Following k rg) (tabs (ext w)) r (tabs (ext w'))"
proof -
  consider "StopIndex (params ci) < k" | "k \<le> StopIndex (params ci)" "r_end rg < k"
    | "k \<le> StopIndex (params ci)" "k \<le> r_end rg" by fastforce
  then show ?thesis
  proof cases
    case 1
    then have "\<not> k \<le> StopIndex (params ci)" by simp
    with run show ?thesis by (auto simp: quiet_def)
  next
    case 2
    obtain r1 x1 where u: "updateLastIndexContinuous D ci rg (ext w) = (r1, x1)" by force
    note u' = u [unfolded updateLastIndexContinuous_def]
    have "same_blocks (tabs (ext w)) (tabs x1)" using record_tip(1) [OF u'] tip_same_blocks by auto
    moreover have "r1 = Inr rg' \<Longrightarrow> unat (r_end rg') < 2 ^ 62" for rg' using record_tip(2) [OF u'] by auto
    ultimately show ?thesis using 2 run u ok by (cases r1) (auto simp: quiet_def bindE_def liftX_def)
  next
    case 3
    obtain r1 w1 where i: "iteration_data D ci k w = (r1, w1)" by force
    have "\<not> r_end rg < k" using 3 by simp
    moreover have "tabs (ext w1) = tabs (ext w)" using keepsD [OF iteration_data_keeps i] by simp
    ultimately show ?thesis
      using 3 run i ok iteration_data_Inr [of k w _ _ w1] by (cases r1) (auto simp: quiet_def bindE_def)
  qed
qed

lemma quiet_kept:
  assumes "quiet h pc tb r tb'" "kept_inv neat c h B M st dpc (reach pc (top_no h tb)) tb"
  shows "follow_ok (lib D) chain (top_no h tb') (or_else Resuming r) \<and>
    kept_inv neat c h B M st dpc (reach (or_else Resuming r) (top_no h tb')) tb'"
  using assms same_blocks_kept [of tb tb'] kept_between_less unfolding quiet_def by metis

lemma committing_kept:
  assumes ok: "follow_ok (lib D) chain (top_no h (tabs (ext w))) (Committing k rg data ts)"
    and inv: "kept_inv neat c h B M st dpc (top_no h (tabs (ext w))) (tabs (ext w))"
    and run: "follow_step D ci h (Committing k rg data ts) w = (r, w')"
  shows "follow_ok (lib D) chain (top_no h (tabs (ext w'))) (or_else Resuming r) \<and>
    kept_inv neat c h B M st dpc (reach (or_else Resuming r) (top_no h (tabs (ext w')))) (tabs (ext w'))"
proof -
  obtain r1 x1 where t: "s_transaction (e_db ci) (saveRows (e_db ci) data) (ext w) = (r1, x1)" by force
  have w': "tabs (ext w') = tabs x1" and r: "or_else Resuming r = (case r1 of Inl _ \<Rightarrow> Resuming | Inr _ \<Rightarrow> Covering k rg data ts)"
    using run t by (auto simp: bindE_def wrapE_def liftX_def split: sum.splits)
  have k: "unat k = top_no h (tabs (ext w))" "unat k < 2 ^ 62" using ok by (auto simp: word_le_nat_alt)
  have "tabs x1 = data_tables data (tabs (ext w)) \<or> tabs x1 = tabs (ext w) \<and> (\<exists>e. r1 = Inl e)"
    using transaction_law [OF t] saveRows_Inr by force
  then show ?thesis
  proof
    assume x1: "tabs x1 = data_tables data (tabs (ext w))"
    then have "tb_blocks (tabs x1) = tb_blocks (fold ins_block (batch_blocks (lib D) chain k 1) (tabs (ext w)))"
      "tb_states (tabs x1) = tb_states (tabs (ext w))" using ok by simp_all
    note c = commit_kept [OF inv k this]
    show ?thesis
      using c ok kept_between_less [OF c(2), of "top_no h (tabs (ext w))"] by (cases r1) (auto simp: w' r)
  qed (use w' r inv in \<open>auto split: sum.split\<close>)
qed

lemma covering_kept:
  assumes ok: "follow_ok (lib D) chain (top_no h (tabs (ext w))) (Covering k rg data ts)"
    and inv: "kept_inv neat c h B M st dpc (top_no h (tabs (ext w)) + 1) (tabs (ext w))"
    and run: "follow_step D ci h (Covering k rg data ts) w = (r, w')"
  shows "follow_ok (lib D) chain (top_no h (tabs (ext w'))) (or_else Resuming r) \<and>
    kept_inv neat c h B M st dpc (reach (or_else Resuming r) (top_no h (tabs (ext w')))) (tabs (ext w'))"
proof -
  have k: "unat k = top_no h (tabs (ext w))" "unat k < 2 ^ 62" "unat (r_end rg) < 2 ^ 62"
    using ok by (auto simp: word_le_nat_alt)
  have n: "unat k + 1 \<le> 18446744073709551616" using k(2) by simp
  let ?first = "chain_row (lib D) (chain (unat k))"
  have low: "lowestBlock (d_Blocks data) = Some ?first" using ok lowestBlock_batch [OF number n] by simp
  have first: "b_number ?first = k" using batch_block_number [OF number, of k 0] n by (simp add: word_eq_unat)
  obtain r1 x1 where t: "WriteCoverageStates (e_db ci) k ts k (b_timestamp ?first) (ext w) = (r1, x1)" by force
  have w': "tabs (ext w') = tabs x1" and r: "or_else Resuming r = (case r1 of Inl _ \<Rightarrow> Resuming | Inr _ \<Rightarrow> Following (k + 1) rg)"
    using run t by (auto simp: saveCoverage_def low first bindE_def wrapE_def liftX_def split: sum.splits)
  have "tabs x1 = coverage_tables k ts k (b_timestamp ?first) (tabs (ext w)) \<or> tabs x1 = tabs (ext w) \<and> (\<exists>e. r1 = Inl e)"
    by (rule writesD [OF WriteCoverageStates_writes t])
  then show ?thesis
  proof
    assume "tabs x1 = coverage_tables k ts k (b_timestamp ?first) (tabs (ext w))"
    then have "tabs x1 = coverage_tables k ts k (bk_time (chain (unat k))) (tabs (ext w))" by (simp add: chain_row_def)
    note c = cover_kept [OF inv k(1,2) this]
    have "unat (k + 1) = unat k + 1" using k(2) by (intro unat_Suc_below_max) simp
    with c k show ?thesis by (cases r1) (auto simp: w' r)
  next
    assume "tabs x1 = tabs (ext w) \<and> (\<exists>e. r1 = Inl e)"
    with kept_between_less [OF inv, of "top_no h (tabs (ext w))"] show ?thesis by (auto simp: w' r)
  qed
qed

lemma follow_step_kept:
  assumes ok: "follow_ok (lib D) chain (top_no h (tabs (ext w))) pc"
    and inv: "kept_inv neat c h B M st dpc (reach pc (top_no h (tabs (ext w)))) (tabs (ext w))"
    and run: "follow_step D ci h pc w = (r, w')"
  shows "follow_ok (lib D) chain (top_no h (tabs (ext w'))) (or_else Resuming r) \<and>
    kept_inv neat c h B M st dpc (reach (or_else Resuming r) (top_no h (tabs (ext w')))) (tabs (ext w'))"
proof -
  have fl: "followable c (lib D) chain h (tabs (ext w))" using inv by (simp add: kept_between_def)
  show ?thesis
  proof (cases pc)
    case Resuming
    with resume_quiet [OF fl] run have "quiet h pc (tabs (ext w)) r (tabs (ext w'))" by simp
    then show ?thesis using inv by (rule quiet_kept)
  next
    case (Ranging s)
    with range_quiet ok run have "quiet h pc (tabs (ext w)) r (tabs (ext w'))" by simp
    then show ?thesis using inv by (rule quiet_kept)
  next
    case (Following k rg)
    with following_quiet ok run have "quiet h pc (tabs (ext w)) r (tabs (ext w'))" by simp
    then show ?thesis using inv by (rule quiet_kept)
  next
    case Committing
    with committing_kept [OF ok [unfolded Committing] _ run [unfolded Committing]] inv show ?thesis by simp
  next
    case Covering
    with covering_kept [OF ok [unfolded Covering] _ run [unfolded Covering]] inv show ?thesis by simp
  next
    case Stopped
    with inv run show ?thesis by auto
  qed
qed

end


context following
begin

lemma kept_given_up: "kept_inv neat c h B M st pc m tb \<Longrightarrow> kept_inv neat c h B M False Idle m tb"
  by (simp add: kept_between_def)

lemma kept_moves: "kept_inv neat c h B M st pc m tb \<Longrightarrow> drop_ok (lib D) chain B m tb pc' \<Longrightarrow> kept_inv neat c h B M False pc' m tb"
  by (simp add: kept_between_def)

text \<open>The floor is as high as the boundary: nothing from the floor on was deleted.\<close>

lemma above_kept:
  assumes inv: "kept_inv neat c h B M st pc m tb" and m: "m \<le> top_no h tb + 1"
    and set0: "IsSet (state_of tb BlockFloor)" and above: "B \<le> BlockTimestamp (state_of tb BlockFloor)"
  shows "kept_inv neat c h B M (B = M) Idle m tb"
proof -
  have fl: "followable c (lib D) chain h tb" and sv: "served c (lib D) chain M m tb" using inv by (simp_all add: kept_between_def)
  obtain flr where flr: "tb_states tb BlockFloor = Some flr" "B \<le> BlockTimestamp flr"
    using set0 above by (auto simp: state_of_def IsSet_def zero_state_def split: option.splits)
  have date: "c \<le> Index flr" "BlockTimestamp flr = bk_time (chain (unat (Index flr)))"
    using fl flr(1) by (simp_all add: followable_def)
  have "present (lib D) chain tb n" if n: "B = M" "floor_no c tb \<le> n" "n < m" for n
  proof -
    have i: "unat (Index flr) \<le> n" using n(2) flr(1) by (simp add: floor_no_def)
    have "top_no h tb \<le> 2 ^ 62" using fl by (simp add: followable_def)
    then have "bk_time (chain (unat (Index flr))) \<le> bk_time (chain n)" using i n(3) m by (intro time_law) auto
    with flr(2) date(2) n(1) have "M \<le> bk_time (chain n)" by simp
    moreover have "unat c \<le> n" using date(1) i by (simp add: word_le_nat_alt)
    ultimately show ?thesis using sv n(3) by (simp add: served_def)
  qed
  with inv show ?thesis by (simp add: kept_between_def all_served_def)
qed

lemma reading_kept:
  assumes inv: "kept_inv neat c h B M st (ReadingFloor p) m (tabs x)" and m: "m \<le> top_no h (tabs x) + 1"
    and run: "drop_step (e_db ci) B (ReadingFloor p) x = (r, x')"
  shows "tabs x' = tabs x \<and> kept_inv neat c h B M (r = Inr Idle \<and> B = M) (or_else Idle r) m (tabs x)"
proof -
  obtain r1 x1 where g: "GetState (e_db ci) (pass_floor p) x = (r1, x1)" by force
  have t: "tabs x1 = tabs x" using GetState_tabs g by auto
  show ?thesis
  proof (cases r1)
    case (Inl e)
    with run g t kept_given_up [OF inv] show ?thesis by (auto simp: bindE_def wrapE_def)
  next
    case (Inr floor)
    then have fl: "floor = state_of (tabs x) (pass_floor p)" using GetState_Inr g by auto
    show ?thesis
    proof (cases p)
      case LogPass
      with run g t Inr kept_moves [OF inv] show ?thesis by (auto simp: bindE_def wrapE_def split: if_splits)
    next
      case BlockPass
      show ?thesis
      proof (cases "IsSet floor \<and> B \<le> BlockTimestamp floor")
        case True
        with run g t Inr BlockPass above_kept [OF inv m] fl show ?thesis by (auto simp: bindE_def wrapE_def)
      next
        case False
        with run g t Inr BlockPass fl inv show ?thesis
          by (auto simp: bindE_def wrapE_def kept_between_def split: if_splits)
      qed
    qed
  qed
qed

lemma finding_kept:
  assumes inv: "kept_inv neat c h B M st (FindingFirst p) m (tabs x)"
    and run: "drop_step (e_db ci) B (FindingFirst p) x = (r, x')"
  shows "tabs x' = tabs x \<and> kept_inv neat c h B M False (or_else Idle r) m (tabs x)"
proof -
  obtain r1 x1 where f: "pass_first p (e_db ci) x = (r1, x1)" by force
  have t: "tabs x1 = tabs x"
    using f readsD [OF firstSurvivingLog_reads, of x r1 x1] readsD [OF firstSurvivingBlock_reads, of x r1 x1]
    by (cases p) auto
  show ?thesis
  proof (cases r1)
    case (Inl e)
    with run f t kept_given_up [OF inv] show ?thesis by (cases p) (auto simp: kept_between_def split: if_splits)
  next
    case (Inr it)
    obtain i u where it: "it = (i, u)" by force
    show ?thesis
    proof (cases p)
      case LogPass
      with run f t Inr it kept_given_up [OF inv] show ?thesis by (auto simp: kept_between_def)
    next
      case BlockPass
      then have "first_block_pos (tabs x) = Some (i, u)"
        using reads_Inr [OF firstSurvivingBlock_reads, of x "(i, u)" x1] f Inr it by simp
      then have "\<exists>b \<in> set (tb_blocks (tabs x)). b_number b = i \<and> b_timestamp b = u"
        using first_block_of_Some by (fastforce simp: first_block_pos_def)
      with BlockPass run f t Inr it inv show ?thesis by (auto simp: kept_between_def)
    qed
  qed
qed

lemma raising_kept:
  assumes inv: "kept_inv neat c h B M st (Raising p i t) m (tabs x)" and m: "m \<le> top_no h (tabs x) + 1"
    and run: "drop_step (e_db ci) B (Raising p i t) x = (r, x')"
  shows "top_no h (tabs x') = top_no h (tabs x) \<and> kept_inv neat c h B M (r = Inr Idle \<and> B = M) (or_else Idle r) m (tabs x')"
proof -
  obtain r1 x1 where u: "UpdateState (e_db ci) (pass_floor p) i t x = (r1, x1)" by force
  from run u have x': "x' = x1" "or_else Idle r = or_else Idle (case r1 of Inl e \<Rightarrow> Inl e | Inr _ \<Rightarrow> Inr (after_pass p))"
    "r = Inr Idle \<longleftrightarrow> r1 = Inr () \<and> p = BlockPass" "\<forall>e. r1 = Inl e \<longrightarrow> r = Inl e"
    by (cases r1; cases p; auto simp: bindE_def)+
  consider "tabs x1 = tabs x" "\<exists>e. r1 = Inl e" | "tabs x1 = upsert_state (pass_floor p) i t (tabs x)"
    using writesD [OF UpdateState_writes u] by blast
  then show ?thesis
  proof cases
    case 1
    with kept_given_up [OF inv] x' show ?thesis by auto
  next
    case 2
    show ?thesis
    proof (cases p)
      case LogPass
      then have "same_blocks (tabs x) (tabs x1)" using 2 by (simp add: same_blocks_def state_of_def)
      note s = same_blocks_kept [OF this]
      have "kept_inv neat c h B M False pc' m (tabs x1)" if "pc' = Idle \<or> pc' = Deleting TransactionEntity" for pc'
        using kept_moves [OF inv] that s(2) by auto
      with s(1) x' LogPass show ?thesis by (cases r1) auto
    next
      case BlockPass
      with 2 raise_kept [OF inv [unfolded BlockPass] m] have "top_no h (tabs x1) = top_no h (tabs x)"
        "kept_inv neat c h B M (B = M) Idle m (tabs x1)" by auto
      with kept_given_up x' BlockPass show ?thesis by (cases r1) auto
    qed
  qed
qed

lemma deleting_kept:
  assumes inv: "kept_inv neat c h B M st (Deleting e) m (tabs x)" and BM: "B \<le> M"
    and run: "drop_step (e_db ci) B (Deleting e) x = (r, x')"
  shows "top_no h (tabs x') = top_no h (tabs x) \<and> kept_inv neat c h B M False (or_else Idle r) m (tabs x')"
proof -
  obtain r1 x1 where d: "s_delete (e_db ci) e deleteBatchSize B x = (r1, x1)" by force
  from run d have x': "x' = x1"
    "or_else Idle r = (case r1 of Inl _ \<Rightarrow> Idle | Inr k \<Rightarrow> if k = 0 then after_delete e else Deleting e)"
    by (cases r1; auto simp: bindE_def wrapE_def)+
  consider n where "delete_step e deleteBatchSize B (tabs x) n (tabs x1)" "\<forall>v. r1 = Inr v \<longrightarrow> v = n"
    | "tabs x1 = tabs x" "\<exists>er. r1 = Inl er"
    using delete_law [OF d] by blast
  then show ?thesis
  proof cases
    case 1
    have "or_else Idle r = Deleting e \<or> or_else Idle r = Idle \<or> n = 0 \<and> or_else Idle r = after_delete e"
      using 1(2) x'(2) by (cases r1) auto
    from delete_kept [OF inv BM 1(1) _ this] x'(1) show ?thesis by (simp add: deleteBatchSize_def)
  next
    case 2
    with kept_given_up [OF inv] x' show ?thesis by auto
  qed
qed

lemma drop_step_kept:
  assumes inv: "kept_inv neat c h B M st pc m (tabs x)" and BM: "B \<le> M" and m: "m \<le> top_no h (tabs x) + 1" and pc: "pc \<noteq> Idle"
    and run: "drop_step (e_db ci) B pc x = (r, x')"
  shows "top_no h (tabs x') = top_no h (tabs x) \<and>
    kept_inv neat c h B M (r = Inr Idle \<and> pc \<noteq> FindingFirst BlockPass \<and> B = M) (or_else Idle r) m (tabs x')"
proof (cases pc)
  case (Deleting e)
  then have "r \<noteq> Inr Idle" using run by (cases e) (auto simp: bindE_Inr_iff split: if_splits)
  with deleting_kept [OF inv [unfolded Deleting] BM] run Deleting show ?thesis by simp
next
  case (ReadingFloor p)
  with reading_kept [OF inv [unfolded ReadingFloor] m] run show ?thesis by auto
next
  case (FindingFirst p)
  have "r = Inr Idle \<Longrightarrow> p = BlockPass"
    using run FindingFirst by (cases p) (auto split: prod.splits sum.splits if_splits)
  then have flag: "(r = Inr Idle \<and> pc \<noteq> FindingFirst BlockPass \<and> B = M) = False" using FindingFirst by auto
  show ?thesis unfolding flag using finding_kept [OF inv [unfolded FindingFirst] run [unfolded FindingFirst]] by auto
next
  case (Raising p i t)
  with raising_kept [OF inv [unfolded Raising] m] run show ?thesis by auto
qed (use pc in simp)

lemma reach_bounds: "t \<le> reach pc t" "reach pc t \<le> t + 1"
  by (cases pc; simp)+

lemma live_step_inv:
  assumes "live_step D ci h boundaryFn s s'" "live_inv neat c (lib D) chain h tabs s"
  shows "live_inv neat c (lib D) chain h tabs s'"
  using assms
proof cases
  case (follow r w')
  with follow_step_kept assms(2) show ?thesis by (auto simp: live_inv_def Let_def)
next
  case (abandon k rg)
  with assms(2) show ?thesis by (simp add: live_inv_def Let_def)
next
  case ready
  with assms(2) show ?thesis by (simp add: live_inv_def Let_def)
next
  case (no_boundary e x')
  have "tabs x' = l_tabs tabs s" using keepsD [OF boundary_law no_boundary(3)] by simp
  with no_boundary assms(2) show ?thesis by (simp add: live_inv_def)
next
  case (begin_drop B x')
  have "tabs x' = l_tabs tabs s" using keepsD [OF boundary_law begin_drop(3)] by simp
  moreover have "served c (lib D) chain M m tb \<Longrightarrow> served c (lib D) chain (max M B) m tb" for M m tb
    unfolding served_def by (meson max.cobounded1 order.trans)
  ultimately show ?thesis using begin_drop(1) assms(2) by (auto simp: live_inv_def Let_def kept_between_def)
next
  case (drop r x')
  from assms(2) have "follow_ok (lib D) chain (top_no h (l_tabs tabs s)) (l_follow s)" "l_boundary s \<le> l_highest s"
    and inv: "kept_inv neat c h (l_boundary s) (l_highest s) (l_settled s) (l_drop s)
      (reach (l_follow s) (top_no h (l_tabs tabs s))) (l_tabs tabs s)"
    by (auto simp: live_inv_def Let_def)
  with drop_step_kept [OF inv _ reach_bounds(2) drop(2,3)] drop(1) show ?thesis
    by (auto simp: live_inv_def Let_def)
qed

text \<open>Where the two goroutines start: everything from \<open>c\<close> on is stored.\<close>

lemma started_inv:
  assumes "followable c (lib D) chain h (tabs (ext w))" "served c (lib D) chain 0 (top_no h (tabs (ext w))) (tabs (ext w))"
    and "neat \<longrightarrow> tight c h (tabs (ext w))"
  shows "live_inv neat c (lib D) chain h tabs (both_started w)"
proof -
  have "unat c \<le> floor_no c (tabs (ext w))"
    using assms(1) by (auto simp: floor_no_def followable_def word_le_nat_alt split: option.split)
  then have "all_served c (lib D) chain (top_no h (tabs (ext w))) (tabs (ext w))"
    using assms(2) by (auto simp: served_def all_served_def)
  with assms show ?thesis by (simp add: live_inv_def both_started_def kept_between_def)
qed

lemma live_reachable_inv:
  assumes "(live_step D ci h boundaryFn)\<^sup>*\<^sup>* s0 s" "live_inv neat c (lib D) chain h tabs s0"
  shows "live_inv neat c (lib D) chain h tabs s"
  using assms by (induction rule: rtranclp_induct) (auto intro: live_step_inv)

end


context indexing
begin

lemma TipAgeBoundary_keeps: "keeps (\<lambda>x. tabs x = v) (TipAgeBoundary (retry_block D) me (e_client ci) i)"
  unfolding TipAgeBoundary_def getBlockTimestamp_def
  by (auto intro!: keeps_bind keeps_wrap rb.RetryWithMaxElapsed_triple client_keeps_view triple_liftR triple_ret
      split: prod.split)

end

text \<open>In full mode the boundary is the age below the tip.\<close>

lemma full_mode_following:
  assumes "indexing D ci chain logs_at receipt_of tabs"
    and "\<And>j k. j \<le> k \<Longrightarrow> k \<le> 2 ^ 62 \<Longrightarrow> bk_time (chain j) \<le> bk_time (chain k)"
  shows "following D ci chain logs_at receipt_of tabs (TipAgeBoundary (retry_block D) (max_elapsed D) (e_client ci) interval)"
  by (intro following.intro following_axioms.intro indexing.TipAgeBoundary_keeps [OF assms(1)] assms)

text \<open>In FSP mode it is the retention boundary that the contract's epochs give.\<close>

lemma fsp_mode_following:
  assumes "indexing D ci chain logs_at receipt_of tabs"
    and "\<And>j k. j \<le> k \<Longrightarrow> k \<le> 2 ^ 62 \<Longrightarrow> bk_time (chain j) \<le> bk_time (chain k)"
    and "fsm_reader fsm tabs" and "retrier backoff"
  shows "following D ci chain logs_at receipt_of tabs
    (RetryWithMaxElapsed backoff (max_elapsed D) (fspRetentionBoundary n fsm historyEpochs))"
proof -
  have "keeps (\<lambda>x. tabs x = v) (fspRetentionBoundary n fsm historyEpochs)" for v
    unfolding fspRetentionBoundary_def fspCurrentEpochID_def
    by (auto intro!: keeps_bind keeps_wrap fsm_reader.fspEventAnchor_keeps [OF assms(3)] fsm_reader.fsm_keeps [OF assms(3)]
        triple_ret triple_liftR triple_throw split: option.splits)
  with assms(1,2,4) show ?thesis
    by (intro following.intro following_axioms.intro retrier.RetryWithMaxElapsed_triple) auto
qed

lemma all_served_covers:
  assumes "all_served c L chain (top_no h tb) tb" and num: "\<And>k. bk_number (chain k) = int k"
  shows "covers tb"
proof (rule coversI)
  fix n fl li assume "tb_states tb BlockFloor = Some fl" "tb_states tb LastIndexed = Some li" "Index fl \<le> n" "n \<le> Index li"
  then have "floor_no c tb \<le> unat n" "unat n < top_no h tb"
    by (auto simp: floor_no_def top_no_def state_of_def word_le_nat_alt)
  with assms(1) have "chain_row L (chain (unat n)) \<in> set (tb_blocks tb)" by (simp add: all_served_def present_def)
  moreover have "b_number (chain_row L (chain (unat n))) = n"
    using batch_block_number [OF num, of n 0 L] unat_u64_bound [of n] by (simp add: word_eq_unat)
  ultimately show "n \<in> b_number ` set (tb_blocks tb)" by (metis imageI)
qed

subsection \<open>From the history pass on\<close>

text \<open>What a history pass that ended at \<open>h\<close> leaves is what the two goroutines start from.\<close>

lemma resumable_followable:
  assumes tb: "resumable c L chain tb" and h: "unat h < 2 ^ 62" "unat c \<le> unat h + 1"
    and rows: "rows_present L chain (unat c) (unat h + 1) tb"
  shows "followable c L chain h tb" "served c L chain 0 (top_no h tb) tb"
proof -
  let ?li = "Index (state_of tb LastIndexed)"
  have li: "unat ?li < 2 ^ 62"
    using tb by (auto simp: resumable_def tip_low_def state_of_def zero_state_def split: option.split)
  have floor: "c \<le> Index fl \<and> BlockTimestamp fl = bk_time (chain (unat (Index fl)))"
    if fl: "tb_states tb BlockFloor = Some fl" for fl
  proof -
    obtain b where b: "b \<in> set (tb_blocks tb)" "b_number b = Index fl" "b_timestamp b = BlockTimestamp fl"
      using tb fl by (auto simp: resumable_def floor_row_def)
    then have "b = chain_row L (chain (unat (Index fl)))" "c \<le> b_number b"
      using tb by (auto simp: resumable_def chain_rows_def)
    with b(2,3) show ?thesis by (metis chain_row_def db_block.select_convs(3))
  qed
  show "followable c L chain h tb"
    using tb h li floor by (auto simp: followable_def resumable_def top_no_def)
  have "rows_present L chain (unat c) (unat ?li + 1) tb" if "unat h < unat ?li"
    using that indexed_stored [OF tb] by (auto simp: state_of_def zero_state_def split: option.splits)
  then have "rows_present L chain (unat c) (top_no h tb) tb"
    using rows by (cases "unat h < unat ?li") (auto simp: top_no_def max_def)
  then show "served c L chain 0 (top_no h tb) tb" by (simp add: served_def rows_present_def present_def)
qed


text \<open>
  C19: the steps are those of the code: whatever an iteration of the history drop, or an attempt
  of continuous indexing, does when it runs alone, its steps do one after the other.
\<close>

theorem goroutine_steps_exact:
  assumes "dropHistoryBelow fuel db deleteStartTime x = (r, x')" "r \<noteq> Inl OutOfFuel"
    and "continuous_attempt D ci (e_db ci) historyLastIndex w = (q, w')" "q \<noteq> Inl OutOfFuel"
  shows "(\<exists>n. drop_run n db deleteStartTime (Deleting LogEntity) x = (r, x')) \<and>
    (\<exists>n. follow_run n D ci historyLastIndex Resuming w = (q, w'))"
  using dropHistoryBelow_steps [OF assms(1,2)] continuous_attempt_steps [OF assms(3,4)]
  unfolding drops_to_def follows_to_def by blast

subsection \<open>On the concrete world\<close>

text \<open>A scheduler: each turn is a step of continuous indexing (\<open>True\<close>) or of the history drop.\<close>

fun live_turn :: "'x deps \<Rightarrow> 'x engine \<Rightarrow> u64 \<Rightarrow> ('x, u64) io \<Rightarrow> bool \<Rightarrow> 'x live \<Rightarrow> 'x live" where
  "live_turn D ci h boundaryFn True s =
     (case follow_step D ci h (l_follow s) (l_world s) of (r, w') \<Rightarrow>
        s\<lparr>l_world := w', l_follow := or_else Resuming r\<rparr>)"
| "live_turn D ci h boundaryFn False s =
     (if l_drop s = Idle then
        (case boundaryFn (ext (l_world s)) of
           (Inl e, x') \<Rightarrow> s\<lparr>l_world := (l_world s)\<lparr>ext := x'\<rparr>\<rparr>
         | (Inr boundary, x') \<Rightarrow>
             s\<lparr>l_world := (l_world s)\<lparr>ext := x'\<rparr>, l_drop := Deleting LogEntity, l_boundary := boundary,
               l_highest := max (l_highest s) boundary, l_settled := False\<rparr>)
      else
        (case drop_step (e_db ci) (l_boundary s) (l_drop s) (ext (l_world s)) of (r, x') \<Rightarrow>
           s\<lparr>l_world := (l_world s)\<lparr>ext := x'\<rparr>, l_drop := or_else Idle r,
             l_settled := (r = Inr Idle \<and> l_drop s \<noteq> FindingFirst BlockPass \<and> l_boundary s = l_highest s)\<rparr>))"

lemma live_turn_step: "live_step D ci h boundaryFn s (live_turn D ci h boundaryFn turn s)"
  by (cases turn) (auto split: prod.split sum.split intro: live_step.intros)

lemma live_turns_reach: "(live_step D ci h boundaryFn)\<^sup>*\<^sup>* s (fold (live_turn D ci h boundaryFn) turns s)"
proof (induction turns arbitrary: s)
  case (Cons t ts)
  have "live_step D ci h boundaryFn s (live_turn D ci h boundaryFn t s)" by (rule live_turn_step)
  also have "(live_step D ci h boundaryFn)\<^sup>*\<^sup>* \<dots> (fold (live_turn D ci h boundaryFn) ts (live_turn D ci h boundaryFn t s))"
    by (rule Cons)
  finally show ?case by simp
qed simp

text \<open>
  Blocks a second apart, the tip at 5: the history pass indexes the blocks 1 to 5, then the blocks older than two
  seconds are dropped while the chain is followed.
\<close>

definition seconds :: "nat \<Rightarrow> ext_block" where
  "seconds = make_chain of_nat (\<lambda>_. [])"

definition second_config :: Config where
  "second_config = defaultConfig\<lparr>Indexer := (Indexer defaultConfig)\<lparr>BatchSize := 2, Confirmations := 0, StopIndex := 100, StartIndex := 1\<rparr>\<rparr>"

definition second_engine :: "mem engine" where
  "second_engine = mem_engine (applyIndexerDefaults (Indexer second_config)) (\<lambda>_. None) of_nat (\<lambda>_. []) (\<lambda>_. []) (\<lambda>_. \<lparr>rc_status = 1, rc_logs = []\<rparr>)"

definition second_boundary :: "(mem, u64) io" where
  "second_boundary = TipAgeBoundary (retry_block (mem_deps 1 5)) (max_elapsed (mem_deps 1 5)) (e_client second_engine) 2"

definition second_history :: "(mem world, u64) io" where
  "second_history = Retry (h_retry_history mem_host) (IndexHistory (mem_deps 1 5) second_engine 1)"

definition alternate :: "bool list" where
  "alternate = concat (replicate 10 [True, False])"

definition second_end :: "mem live" where
  "second_end = fold (live_turn (mem_deps 1 5) second_engine 5 second_boundary) alternate (both_started (snd (second_history (fresh_world 5))))"

definition l_summary :: "mem live \<Rightarrow> u64 list \<times> u64 \<times> u64 \<times> u64 \<times> bool \<times> drop_pc" where
  "l_summary s = (let tb = m_tabs (ext (l_world s)) in
     (map b_number (tb_blocks tb), Index (state_of tb BlockFloor), Index (state_of tb LastIndexed), l_highest s, l_settled s, l_drop s))"

definition history_summary :: "mem world \<Rightarrow> bool \<times> u64 list \<times> u64 \<times> u64" where
  "history_summary w = (case second_history w of (r, w') \<Rightarrow> let tb = m_tabs (ext w') in
     (r = Inr 5, map b_number (tb_blocks tb), Index (the (tb_states tb BlockFloor)), Index (state_of tb LastIndexed)))"

lemma second_history_run: "history_summary (fresh_world 5) = (True, [1, 2, 3, 4, 5], 1, 5)"
  by code_simp

lemma second_end_settled: "l_summary second_end = ([3, 4, 5], 3, 5, 3, True, Idle)"
  by code_simp

lemma second_indexing:
  assumes "e_db ci = mem_store" "e_client ci = e_client second_engine"
  shows "indexing (mem_deps k n) ci seconds (make_logs (\<lambda>_. [])) (\<lambda>_. \<lparr>rc_status = 1, rc_logs = []\<rparr>) m_tabs"
proof -
  have "ci = mem_engine (params ci) (e_transactions ci) of_nat (\<lambda>_. []) (\<lambda>_. []) (\<lambda>_. \<lparr>rc_status = 1, rc_logs = []\<rparr>)"
    using assms by (simp add: mem_engine_def second_engine_def)
  then show ?thesis unfolding seconds_def by (metis mem_indexing.indexing_axioms)
qed

interpretation second_live:
  following "mem_deps 1 5" second_engine seconds "make_logs (\<lambda>_. [])" "\<lambda>_. \<lparr>rc_status = 1, rc_logs = []\<rparr>" m_tabs second_boundary
  unfolding second_boundary_def
proof (rule full_mode_following)
  show "indexing (mem_deps 1 5) second_engine seconds (make_logs (\<lambda>_. [])) (\<lambda>_. \<lparr>rc_status = 1, rc_logs = []\<rparr>) m_tabs"
    by (rule second_indexing) (simp_all add: second_engine_def)
  show "bk_time (seconds j) \<le> bk_time (seconds k)" if "j \<le> k" "k \<le> 2 ^ 62" for j k
    using that by (simp add: seconds_def make_chain_def word_le_nat_alt unat_of_nat)
qed

interpretation second_mode:
  full_mode mem_host "mem_deps 1 5" second_config mem_store "e_client second_engine" seconds "make_logs (\<lambda>_. [])"
    "\<lambda>_. \<lparr>rc_status = 1, rc_logs = []\<rparr>" m_tabs 1
  by (rule full_mode.intro) (simp_all add: second_indexing mem_host_def bounded.retrier_axioms second_config_def)


theorem goroutine_steps_exact_witness:
  "(\<exists>n. drop_run n mem_store 25 (Deleting LogEntity) (small_world []) = dropHistoryBelow 3 mem_store 25 (small_world [])) \<and>
   (\<exists>n. follow_run n (mem_deps 1 5) (run_engine 1) 0 Resuming (fresh_world 2) =
      continuous_attempt (mem_deps 1 5) (run_engine 1) mem_store 0 (fresh_world 2))"
proof -
  obtain r x' where d: "dropHistoryBelow 3 mem_store 25 (small_world []) = (r, x')" by force
  obtain q w' where c: "continuous_attempt (mem_deps 1 5) (run_engine 1) mem_store 0 (fresh_world 2) = (q, w')" by force
  have "fst (after_drop (r, x'))" using small_drop d by simp
  then have r: "r \<noteq> Inl OutOfFuel" by (auto simp: after_drop_def)
  have "fst (continuous_attempt (mem_deps 1 5) (run_engine 1) mem_store 0 (fresh_world 2)) \<noteq> Inl OutOfFuel" by code_simp
  then have q: "q \<noteq> Inl OutOfFuel" using c by simp
  have "e_db (run_engine 1) = mem_store" by (simp add: run_engine_def)
  with goroutine_steps_exact [OF d r _ q, of "mem_deps 1 5" "run_engine 1" 0 "fresh_world 2" w'] c d show ?thesis by simp
qed

end
