(* ===== verification/Retention.thy ===== *)
theory Retention
  imports Live
begin

text \<open>
  Restarts of the process in full mode with the history drop enabled: what the database keeps over
  any number of lives, each of them killed anywhere, also while a drop is at work.
\<close>

subsection \<open>What the lives of the process keep\<close>

text \<open>The blocks up to the indexed one or to a stored one.\<close>

definition reached :: "tables \<Rightarrow> nat \<Rightarrow> bool" where
  "reached tb n \<longleftrightarrow>
     (\<exists>li. tb_states tb LastIndexed = Some li \<and> n \<le> unat (Index li)) \<or> (\<exists>b \<in> set (tb_blocks tb). n \<le> unat (b_number b))"

definition dated_floor :: "(nat \<Rightarrow> ext_block) \<Rightarrow> tables \<Rightarrow> bool" where
  "dated_floor chain tb \<longleftrightarrow>
     (\<forall>fl. tb_states tb BlockFloor = Some fl \<longrightarrow> BlockTimestamp fl = bk_time (chain (unat (Index fl))))"

text \<open>Every block reached is stored, unless it is older than \<open>M\<close>.\<close>

definition retained :: "common_lib \<Rightarrow> (nat \<Rightarrow> ext_block) \<Rightarrow> u64 \<Rightarrow> tables \<Rightarrow> bool" where
  "retained L chain M tb \<longleftrightarrow>
     chain_rows L chain tb \<and> dated_floor chain tb \<and> tip_low tb \<and> (\<forall>b \<in> set (tb_blocks tb). unat (b_number b) < 2 ^ 62) \<and>
     (\<forall>n. reached tb n \<longrightarrow> M \<le> bk_time (chain n) \<longrightarrow> present L chain tb n)"

lemma empty_retained: "retained L chain M empty_tables"
  by (simp add: retained_def empty_tables_def chain_rows_def dated_floor_def tip_low_def reached_def)

lemma tip_retained [simp]:
  "retained L chain M (upsert_state ChainTip k t tb) \<longleftrightarrow> retained L chain M tb"
  "served c L chain M m (upsert_state ChainTip k t tb) \<longleftrightarrow> served c L chain M m tb"
  by (auto simp: retained_def dated_floor_def tip_low_def reached_def present_def served_def)

lemma served_mono:
  "served c L chain M m tb \<Longrightarrow> set (tb_blocks tb) \<subseteq> set (tb_blocks tb') \<Longrightarrow> served c L chain M m tb'"
  unfolding served_def present_def by blast

lemma served_weaken: "served c L chain M m tb \<Longrightarrow> M \<le> M' \<Longrightarrow> m' \<le> m \<Longrightarrow> served c L chain M' m' tb"
  unfolding served_def by (meson less_le_trans order.trans)

lemma retained_weaken: "retained L chain M tb \<Longrightarrow> M \<le> M' \<Longrightarrow> retained L chain M' tb"
  unfolding retained_def by (meson order.trans)

text \<open>A pass may begin right above a stored block, and continuous indexing above the indexed one.\<close>

lemma retained_served:
  assumes "retained L chain M tb" "\<And>n. n < m \<Longrightarrow> reached tb n"
  shows "served 0 L chain M m tb"
  using assms by (auto simp: retained_def served_def)

subsection \<open>The history pass\<close>

context indexing
begin

lemma saved_retained:
  assumes st: "retained (lib D) chain M tb" "served 0 (lib D) chain M (unat i) tb"
    and n: "0 < n" "unat l + 1 = unat i + n" "unat l < 2 ^ 62"
    and blocks: "tb_blocks tb' = tb_blocks (fold ins_block (batch_blocks (lib D) chain i n) tb)"
    and li: "tb_states tb' LastIndexed = tb_states tb LastIndexed \<or> (\<exists>lt. tb_states tb' LastIndexed = Some \<lparr>Index = l, BlockTimestamp = lt\<rparr>)"
    and fl: "dated_floor chain tb'"
  shows "retained (lib D) chain M tb' \<and> served 0 (lib D) chain M (unat l + 1) tb'"
proof -
  have rows: "chain_rows (lib D) chain tb" using st(1) by (simp add: retained_def)
  have n': "unat i + n \<le> 18446744073709551616" using n(2) unat_u64_bound [of l] by linarith
  have mono: "set (tb_blocks tb) \<subseteq> set (tb_blocks tb')" by (simp add: blocks fold_ins_block_mono)
  have new: "present (lib D) chain tb' m" if "unat i \<le> m" "m \<le> unat l" for m
  proof -
    have u: "unat (of_nat m :: u64) = m" using that(2) unat_u64_bound [of l] by (simp add: unat_of_nat)
    then show ?thesis
      using batch_block_present [OF rows number hash_law distinct_law n', of "of_nat m"] that n(2)
      by (simp add: present_def blocks)
  qed
  have served: "served 0 (lib D) chain M (unat l + 1) tb'"
    unfolding served_def
  proof (intro allI impI)
    fix m assume m: "m < unat l + 1" "M \<le> bk_time (chain m)"
    show "present (lib D) chain tb' m"
    proof (cases "unat i \<le> m")
      case False
      with served_mono [OF st(2) mono] m show ?thesis by (simp add: served_def)
    qed (use new m in simp)
  qed
  have origin: "b \<in> set (tb_blocks tb) \<or> unat (b_number b) \<le> unat l" if "b \<in> set (tb_blocks tb')" for b
  proof -
    have "b \<in> set (tb_blocks tb) \<or> b \<in> set (batch_blocks (lib D) chain i n)"
      using that fold_ins_block_origin by (fastforce simp: blocks)
    moreover have "unat (b_number (chain_row (lib D) (chain (unat i + k)))) \<le> unat l" if "k < n" for k
      using batch_block_number [OF number, of i k "lib D"] n(2) n' that by simp
    ultimately show ?thesis by (auto simp: batch_blocks_def)
  qed
  have "n \<le> unat l \<or> reached tb n" if "reached tb' n" for n
    using that li origin unfolding reached_def by (fastforce intro: order.trans)
  then have "present (lib D) chain tb' n" if "reached tb' n" "M \<le> bk_time (chain n)" for n
    using that served st(1) mono unfolding served_def retained_def present_def by fastforce
  moreover have "chain_rows (lib D) chain tb'"
    using fold_ins_block_chain [OF rows number n'] by (simp add: chain_rows_def blocks)
  moreover have "tip_low tb'" using st(1) li n(3) by (auto simp: retained_def tip_low_def)
  ultimately show ?thesis using served fl st(1) origin n(3) by (fastforce simp: retained_def)
qed

lemma save_retained:
  assumes st: "retained (lib D) chain M (tabs x)" "served 0 (lib D) chain M (unat i) (tabs x)"
    and n: "0 < n" "unat l + 1 = unat i + n" "unat l < 2 ^ 62"
    and data: "d_Blocks data = batch_blocks (lib D) chain i n" and run: "saveData (e_db ci) data l ts x = (r, x')"
  shows "retained (lib D) chain M (tabs x') \<and> (tabs x' = tabs x \<and> r \<noteq> Inr () \<or> served 0 (lib D) chain M (unat l + 1) (tabs x'))"
proof -
  have n': "unat i + n \<le> 18446744073709551616" using n(2) unat_u64_bound [of l] by linarith
  have low: "lowestBlock (d_Blocks data) = Some (chain_row (lib D) (chain (unat i)))"
    by (simp add: data lowestBlock_batch [OF number n' n(1)])
  note low = low low [unfolded data]
  have first: "b_number (chain_row (lib D) (chain (unat i))) = i" "b_timestamp (chain_row (lib D) (chain (unat i))) = bk_time (chain (unat i))"
    using batch_block_number [OF number, of i 0] unat_u64_bound [of i] by (simp_all add: word_eq_unat chain_row_def)
  have fl: "dated_floor chain (tabs x)" using st(1) by (simp add: retained_def)
  let ?d = "data_tables data (tabs x)" and ?s = "saved_tables data l ts (tabs x)"
  have "dated_floor chain ?s"
    using fl by (auto simp: dated_floor_def saved_tables_def low first lowered_def split: option.splits)
  then have "retained (lib D) chain M ?s \<and> served 0 (lib D) chain M (unat l + 1) ?s"
    by (intro saved_retained [OF st n]) (simp_all add: saved_tables_def low data)
  moreover have "retained (lib D) chain M ?d \<and> served 0 (lib D) chain M (unat l + 1) ?d"
    using fl by (intro saved_retained [OF st n]) (simp_all add: data dated_floor_def)
  ultimately show ?thesis using saveData_outcomes [OF run] st(1) by auto
qed

lemma history_retained:
  assumes B: "0 < BatchSize (params ci)" "unat (BatchSize (params ci)) \<le> 2 ^ 62"
    and st: "retained (lib D) chain M (tabs (ext w))" "served 0 (lib D) chain M (unat s) (tabs (ext w))"
    and run: "IndexHistory D ci s w = (r, w')"
  shows "retained (lib D) chain M (tabs (ext w')) \<and> served 0 (lib D) chain M (unat s) (tabs (ext w')) \<and>
    (\<forall>e. r = Inr e \<longrightarrow> unat e < 2 ^ 62 \<and> served 0 (lib D) chain M (unat e + 1) (tabs (ext w')))"
proof -
  let ?m = "\<lambda>(i::u64) (e::u64). min (unat i) (unat e + 1)"
  define Q where "Q = (\<lambda>tb. retained (lib D) chain M tb \<and> served 0 (lib D) chain M (unat s) tb)"
  define P where "P = (\<lambda>i e tb. Q tb \<and> s \<le> i \<and> served 0 (lib D) chain M (?m i e) tb)"
  have "Q (tabs (ext w')) \<and> (\<forall>e. r = Inr e \<longrightarrow> unat e < 2 ^ 62 \<and> (\<exists>i'. e < i' \<and> P i' e (tabs (ext w'))))"
  proof (rule IndexHistory_rule [of P Q, OF _ _ _ _ _ run])
    show "P i e tb \<Longrightarrow> Q tb" for i e tb by (simp add: P_def)
    show "P i e tb \<Longrightarrow> P i e (upsert_state ChainTip k t tb)" for i e k t tb by (simp add: P_def Q_def)
    show "P s e (tabs (ext w))" for e
      using st served_weaken [OF st(2) order.refl, of "?m s e"] by (simp add: P_def Q_def)
    show "P i e' tb" if "P i e tb" "i \<le> e" "e \<le> e'" for i e e' tb
    proof -
      have "?m i e = unat i" "?m i e' = unat i" using that(2,3) by (auto simp: word_le_nat_alt)
      with that(1) show ?thesis by (simp add: P_def)
    qed
  next
    fix i rg w r w'
    assume P: "P i (r_end rg) (tabs (ext w))" and e62: "unat (r_end rg) < 2 ^ 62" and i: "i \<le> r_end rg"
      and b: "indexBatch D ci i rg w = (r, w')"
    let ?l = "min (i + BatchSize (params ci) - 1) (r_end rg)"
    note last = batch_last [OF B e62 i]
    have le: "unat i \<le> unat ?l" "unat ?l < 2 ^ 62" using last(1,2) e62 by (auto simp: word_le_nat_alt)
    have si: "unat s \<le> unat ?l + 1" using P le(1) by (simp add: P_def word_le_nat_alt)
    have "?m i (r_end rg) = unat i" using i by (simp add: word_le_nat_alt)
    then have pre: "retained (lib D) chain M (tabs (ext w))" "served 0 (lib D) chain M (unat i) (tabs (ext w))"
      "served 0 (lib D) chain M (unat s) (tabs (ext w))" "s \<le> i"
      using P by (simp_all add: P_def Q_def)
    have out: "retained (lib D) chain M (tabs (ext w')) \<and>
        (tabs (ext w') = tabs (ext w) \<and> r \<noteq> Inr () \<or> served 0 (lib D) chain M (unat ?l + 1) (tabs (ext w')))"
      using indexBatch_cases [OF B e62 i b]
    proof (elim disjE exE conjE)
      fix x data ts r2 x'
      assume x: "tabs x = tabs (ext w)" and data: "d_Blocks data = batch_blocks (lib D) chain i (Suc (unat ?l) - unat i)"
        and save: "saveData (e_db ci) data ?l ts x = (r2, x')" and x': "tabs x' = tabs (ext w')" "r2 = Inr () \<longleftrightarrow> r = Inr ()"
      from save_retained [OF _ _ _ _ le(2) data save, of M] pre(1,2) le(1) x x' show ?thesis by simp
    qed (use pre(1) in simp)
    moreover have "s \<le> i + BatchSize (params ci)" using pre(4) last(4) by (simp add: word_le_nat_alt)
    moreover have "?m (i + BatchSize (params ci)) (r_end rg) = unat ?l + 1" using last(3,4) by simp
    moreover have "served 0 (lib D) chain M (unat ?l + 1) tb \<Longrightarrow> served 0 (lib D) chain M (unat s) tb" for tb
      using served_weaken [OF _ order.refl si] .
    ultimately show "Q (tabs (ext w')) \<and> (r = Inr () \<longrightarrow> P (i + BatchSize (params ci)) (r_end rg) (tabs (ext w')))"
      using pre(3) by (auto simp: P_def Q_def)
  qed
  moreover have "?m i' e = unat e + 1" if "e < i'" for i' e :: u64 using that by (simp add: word_less_nat_alt)
  ultimately show ?thesis by (auto simp: P_def Q_def)
qed

end


subsection \<open>The two goroutines\<close>

text \<open>
  A later life: the drops before it have marked \<open>M\<close>; the block rows that it finds may lie above the
  block that continuous indexing begins with.
\<close>

definition resumed :: "u64 \<Rightarrow> 'x world \<Rightarrow> 'x live" where
  "resumed M w = (both_started w)\<lparr>l_highest := M, l_settled := False\<rparr>"

lemma resumed_fields [simp]:
  "l_world (resumed M w) = w" "l_follow (resumed M w) = Resuming" "l_drop (resumed M w) = Idle"
  "l_boundary (resumed M w) = 0" "l_highest (resumed M w) = M" "\<not> l_settled (resumed M w)"
  by (simp_all add: resumed_def both_started_def)

context following
begin

lemma resumed_inv:
  assumes tb: "retained (lib D) chain M (tabs (ext w))" and e: "unat e < 2 ^ 62"
    and sv: "served 0 (lib D) chain M (unat e + 1) (tabs (ext w))"
  shows "live_inv (tight 0 e (tabs (ext w))) 0 (lib D) chain e tabs (resumed M w)"
proof -
  let ?tb = "tabs (ext w)"
  have li: "unat (Index (state_of ?tb LastIndexed)) < 2 ^ 62"
    using tb by (auto simp: retained_def tip_low_def state_of_def zero_state_def split: option.split)
  have "n \<le> unat e \<or> reached ?tb n" if "n < top_no e ?tb" for n
    using that by (auto simp: top_no_def reached_def state_of_def zero_state_def max_def split: option.splits if_splits)
  then have "served 0 (lib D) chain M (top_no e ?tb) ?tb"
    using sv tb by (auto simp: served_def retained_def less_Suc_eq_le)
  moreover have "followable 0 (lib D) chain e ?tb"
    using tb e li by (simp add: followable_def retained_def dated_floor_def top_no_def)
  ultimately show ?thesis by (simp add: live_inv_def kept_between_def)
qed

text \<open>A step adds the block that is next, and takes no row from the highest boundary on.\<close>

definition advances :: "u64 \<Rightarrow> u64 \<Rightarrow> tables \<Rightarrow> tables \<Rightarrow> bool" where
  "advances h M tb tb' \<longleftrightarrow>
     (\<forall>b \<in> set (tb_blocks tb'). b \<in> set (tb_blocks tb) \<or> unat (b_number b) = top_no h tb \<and> unat (b_number b) < 2 ^ 62) \<and>
     (\<forall>b \<in> set (tb_blocks tb). M \<le> b_timestamp b \<longrightarrow> b \<in> set (tb_blocks tb')) \<and> top_no h tb \<le> top_no h tb'"

lemma same_advances: "same_blocks tb tb' \<Longrightarrow> advances h M tb tb'"
  by (simp add: advances_def same_blocks_def top_no_def state_of_def)

lemma follow_advances:
  assumes ok: "follow_ok (lib D) chain (top_no h (tabs (ext w))) pc" and fl: "followable c (lib D) chain h (tabs (ext w))"
    and run: "follow_step D ci h pc w = (r, w')"
  shows "advances h M (tabs (ext w)) (tabs (ext w'))"
proof (cases pc)
  case Resuming
  with resume_quiet [OF fl] run show ?thesis by (auto simp: quiet_def intro: same_advances)
next
  case (Ranging s)
  with range_quiet ok run show ?thesis by (auto simp: quiet_def intro: same_advances)
next
  case (Following k rg)
  with following_quiet ok run show ?thesis by (auto simp: quiet_def intro: same_advances)
next
  case (Committing k rg data ts)
  obtain r1 x1 where t: "s_transaction (e_db ci) (saveRows (e_db ci) data) (ext w) = (r1, x1)" by force
  have w': "tabs (ext w') = tabs x1"
    using run t Committing by (auto simp: bindE_def wrapE_def liftX_def split: sum.splits)
  have k: "unat k = top_no h (tabs (ext w))" "unat k < 2 ^ 62" and data: "d_Blocks data = batch_blocks (lib D) chain k 1"
    using ok Committing by (auto simp: word_le_nat_alt)
  have "b \<in> set (tb_blocks (tabs (ext w))) \<or> unat (b_number b) = unat k"
    if "b \<in> set (tb_blocks (data_tables data (tabs (ext w))))" for b
  proof -
    from that have "b \<in> set (tb_blocks (tabs (ext w))) \<or> b \<in> set (batch_blocks (lib D) chain k 1)"
      using fold_ins_block_origin by (fastforce simp: data)
    then show ?thesis using batch_block_number [OF number, of k 0 "lib D"] k(2) by (auto simp: batch_blocks_def)
  qed
  then have "advances h M (tabs (ext w)) (data_tables data (tabs (ext w)))"
    using k fold_ins_block_mono [of "tabs (ext w)" "d_Blocks data"] by (fastforce simp: advances_def top_no_def state_of_def)
  moreover have "tabs x1 = data_tables data (tabs (ext w)) \<or> tabs x1 = tabs (ext w)"
    using transaction_law [OF t] saveRows_Inr by force
  ultimately show ?thesis using same_advances [OF same_blocks_refl] w' by auto
next
  case (Covering k rg data ts)
  have k: "unat k = top_no h (tabs (ext w))" "unat k < 2 ^ 62" and data: "d_Blocks data = batch_blocks (lib D) chain k 1"
    using ok Covering by (auto simp: word_le_nat_alt)
  have n: "unat k + 1 \<le> 18446744073709551616" using k(2) by simp
  obtain first where low: "lowestBlock (d_Blocks data) = Some first" using data lowestBlock_batch [OF number n] by simp
  obtain r1 x1 where t: "WriteCoverageStates (e_db ci) k ts (b_number first) (b_timestamp first) (ext w) = (r1, x1)" by force
  have w': "tabs (ext w') = tabs x1"
    using run t Covering by (auto simp: saveCoverage_def low bindE_def wrapE_def liftX_def split: sum.splits)
  have "tabs x1 = coverage_tables k ts (b_number first) (b_timestamp first) (tabs (ext w)) \<or> tabs x1 = tabs (ext w)"
    using writesD [OF WriteCoverageStates_writes t] by blast
  moreover have "advances h M (tabs (ext w)) (coverage_tables k ts i t (tabs (ext w)))" for i t
    using k(1) by (auto simp: advances_def top_no_def state_of_def max_def split: option.splits)
  ultimately show ?thesis using same_advances [OF same_blocks_refl] w' by auto
next
  case Stopped
  with run same_advances show ?thesis by auto
qed

lemma drop_step_rows:
  assumes "drop_step (e_db ci) B pc x = (r, x')"
  shows "set (tb_blocks (tabs x')) \<subseteq> set (tb_blocks (tabs x)) \<and>
    (\<forall>b \<in> set (tb_blocks (tabs x)). B \<le> b_timestamp b \<longrightarrow> b \<in> set (tb_blocks (tabs x')))"
proof (cases pc)
  case Idle
  with assms show ?thesis by simp
next
  case (Deleting e)
  obtain r1 x1 where d: "s_delete (e_db ci) e deleteBatchSize B x = (r1, x1)" by force
  have x': "x' = x1" using assms d Deleting by (cases r1) (auto simp: bindE_def wrapE_def)
  consider n where "delete_step e deleteBatchSize B (tabs x) n (tabs x1)" | "tabs x1 = tabs x"
    using delete_law [OF d] by blast
  then show ?thesis
  proof cases
    case 1
    then show ?thesis using x' by (cases e) (auto dest: deletes_in deletes_keeps_young simp: not_less)
  qed (simp add: x')
next
  case (ReadingFloor p)
  obtain r1 x1 where "GetState (e_db ci) (pass_floor p) x = (r1, x1)" by force
  with assms ReadingFloor GetState_tabs [of "pass_floor p" x] show ?thesis
    by (cases r1) (auto simp: bindE_def wrapE_def)
next
  case (FindingFirst p)
  obtain r1 x1 where f: "pass_first p (e_db ci) x = (r1, x1)" by force
  have "tabs x1 = tabs x"
    using f readsD [OF firstSurvivingLog_reads, of x r1 x1] readsD [OF firstSurvivingBlock_reads, of x r1 x1] by (cases p) auto
  moreover have "x' = x1" using assms f FindingFirst by (cases r1) (auto split: if_splits)
  ultimately show ?thesis by simp
next
  case (Raising p i t)
  obtain r1 x1 where u: "UpdateState (e_db ci) (pass_floor p) i t x = (r1, x1)" by force
  have "x' = x1" using assms u Raising by (cases r1) (auto simp: bindE_def)
  then show ?thesis using writesD [OF UpdateState_writes u] by auto
qed

lemma live_step_advances:
  assumes step: "live_step D ci h boundaryFn s s'" and inv: "live_inv neat c (lib D) chain h tabs s"
  shows "advances h (l_highest s') (l_tabs tabs s) (l_tabs tabs s') \<and> l_highest s \<le> l_highest s'"
  using step
proof cases
  case (follow r w')
  have "follow_ok (lib D) chain (top_no h (l_tabs tabs s)) (l_follow s)" "followable c (lib D) chain h (l_tabs tabs s)"
    using inv by (simp_all add: live_inv_def Let_def kept_between_def)
  with follow follow_advances show ?thesis by simp
next
  case (abandon k rg)
  then show ?thesis by (simp add: same_advances)
next
  case ready
  then show ?thesis by (simp add: same_advances)
next
  case (no_boundary e x')
  have "tabs x' = l_tabs tabs s" using keepsD [OF boundary_law no_boundary(3)] by simp
  with no_boundary(1) show ?thesis by (simp add: same_advances)
next
  case (begin_drop B x')
  have "tabs x' = l_tabs tabs s" using keepsD [OF boundary_law begin_drop(3)] by simp
  with begin_drop(1) show ?thesis by (simp add: same_advances)
next
  case (drop r x')
  have kept: "kept_inv neat c h (l_boundary s) (l_highest s) (l_settled s) (l_drop s)
      (reach (l_follow s) (top_no h (l_tabs tabs s))) (l_tabs tabs s)" and B: "l_boundary s \<le> l_highest s"
    using inv by (auto simp: live_inv_def Let_def)
  have top: "top_no h (tabs x') = top_no h (l_tabs tabs s)"
    using drop_step_kept [OF kept B reach_bounds(2) drop(2,3)] by simp
  show ?thesis using drop_step_rows [OF drop(3)] B top drop(1) by (auto simp: advances_def)
qed

lemma live_step_retained:
  assumes step: "live_step D ci h boundaryFn s s'" and inv: "live_inv neat 0 (lib D) chain h tabs s"
    and tb: "retained (lib D) chain (l_highest s) (l_tabs tabs s)"
  shows "retained (lib D) chain (l_highest s') (l_tabs tabs s')"
proof -
  let ?tb = "l_tabs tabs s" and ?tb' = "l_tabs tabs s'"
  have "live_inv neat 0 (lib D) chain h tabs s'" by (rule live_step_inv [OF step inv])
  then have fl: "followable 0 (lib D) chain h ?tb'" and sv: "served 0 (lib D) chain (l_highest s') (top_no h ?tb') ?tb'"
    using reach_bounds(1) served_weaken [OF _ order.refl] by (auto simp: live_inv_def Let_def kept_between_def)
  note adv = live_step_advances [OF step inv, unfolded advances_def]
  have rows: "chain_rows (lib D) chain ?tb'" using fl by (simp add: followable_def)
  have reached: "n < top_no h ?tb' \<or> reached ?tb n \<or> present (lib D) chain ?tb' n" if "reached ?tb' n" for n
    using that [unfolded reached_def]
  proof (elim disjE exE bexE conjE)
    fix li assume "tb_states ?tb' LastIndexed = Some li" "n \<le> unat (Index li)"
    then show ?thesis by (auto simp: top_no_def state_of_def max_def)
  next
    fix b assume b: "b \<in> set (tb_blocks ?tb')" "n \<le> unat (b_number b)"
    show ?thesis
    proof (cases "n = unat (b_number b) \<or> b \<in> set (tb_blocks ?tb)")
      case True
      then show ?thesis using b rows by (auto simp: present_def chain_rows_def reached_def)
    next
      case False
      with b adv show ?thesis by force
    qed
  qed
  have young: "present (lib D) chain ?tb' n" if "present (lib D) chain ?tb n" "l_highest s' \<le> bk_time (chain n)" for n
    using that adv unfolding present_def by (metis chain_row_def db_block.select_convs(3))
  have "present (lib D) chain ?tb' n" if n: "reached ?tb' n" "l_highest s' \<le> bk_time (chain n)" for n
    using reached [OF n(1)] young n(2) sv tb adv unfolding served_def retained_def by fastforce
  moreover have "tip_low ?tb'"
    using fl by (auto simp: followable_def top_no_def tip_low_def state_of_def)
  moreover have "\<forall>b \<in> set (tb_blocks ?tb'). unat (b_number b) < 2 ^ 62" using tb adv unfolding retained_def by blast
  ultimately show ?thesis using rows fl by (simp add: retained_def dated_floor_def followable_def)
qed

lemma live_reachable_retained:
  assumes "(live_step D ci e boundaryFn)\<^sup>*\<^sup>* (resumed M w) s"
    and tb: "retained (lib D) chain M (tabs (ext w))" "unat e < 2 ^ 62" "served 0 (lib D) chain M (unat e + 1) (tabs (ext w))"
  shows "live_inv (tight 0 e (tabs (ext w))) 0 (lib D) chain e tabs s \<and> retained (lib D) chain (l_highest s) (l_tabs tabs s)"
  using assms(1)
proof (induction rule: rtranclp_induct)
  case base
  show ?case using resumed_inv [OF tb(1-3)] tb(1) by simp
next
  case (step s s')
  then show ?case using live_step_inv live_step_retained by blast
qed

end


subsection \<open>Lives of the process\<close>

text \<open>
  The interface: the full mode from any block on, with a retrier for the start index, on a chain
  whose times do not decrease and are below the largest one.
\<close>

locale dropping_mode = full_mode H D cfg db ethClient chain logs_at receipt_of tabs 0
  for H :: "('x, 'u) host" and D :: "'x deps" and cfg db ethClient chain logs_at receipt_of and tabs :: "'x \<Rightarrow> tables" +
  assumes start_retrier: "retrier (h_retry_u64 H)"
    and time_law: "j \<le> k \<Longrightarrow> k \<le> 2 ^ 62 \<Longrightarrow> bk_time (chain j) \<le> bk_time (chain k)"
    and time_bound: "k < 18446744073709551615 \<Longrightarrow> bk_time (chain k) < 18446744073709551615"

text \<open>The configuration of a life: the operator may have changed \<^verbatim>\<open>start_index\<close>.\<close>

definition starting_at :: "Config \<Rightarrow> u64 \<Rightarrow> Config" where
  "starting_at cfg k = cfg\<lparr>Indexer := (Indexer cfg)\<lparr>StartIndex := k\<rparr>\<rparr>"

text \<open>A life that came to its history pass: from \<open>s\<close>, with the engine \<open>ci\<close>, in the world \<open>w1\<close>.\<close>

definition life_begins ::
  "('x, 'u) host \<Rightarrow> 'x deps \<Rightarrow> Config \<Rightarrow> 'x store \<Rightarrow> 'x client \<Rightarrow> 'x registry \<Rightarrow> u64 \<Rightarrow> 'x world \<Rightarrow> u64 \<Rightarrow> 'x engine \<Rightarrow> 'x world \<Rightarrow> bool" where
  "life_begins H D cfg db ethClient resolver historyDrop w s ci w1 \<longleftrightarrow>
     liftX (getStartIndex H D db ethClient cfg historyDrop) w = (Inr s, w1) \<and>
     NewEngine (lib D) (starting_at cfg s) db ethClient (Some resolver) = Inr ci"

text \<open>
  The mark below which nothing is promised: a life that finds no block row starts anew at \<open>s\<close>, and the
  blocks below \<open>s\<close> are older than the mark then.
\<close>

definition fresh_mark :: "(nat \<Rightarrow> ext_block) \<Rightarrow> u64 \<Rightarrow> u64" where
  "fresh_mark chain s = fold (\<lambda>n m. max m (bk_time (chain n) + 1)) [0..<unat s] 0"

definition mark_after :: "(nat \<Rightarrow> ext_block) \<Rightarrow> tables \<Rightarrow> u64 \<Rightarrow> u64 \<Rightarrow> u64" where
  "mark_after chain tb s M = (if tb_blocks tb = [] then max M (fresh_mark chain s) else M)"

text \<open>
  A life takes the tables and the mark to others: it ends in its history pass, or at any moment of
  the two goroutines; the drops raise the mark to the highest boundary.
\<close>

inductive full_life ::
  "('x, 'u) host \<Rightarrow> 'x deps \<Rightarrow> Config \<Rightarrow> 'x store \<Rightarrow> 'x client \<Rightarrow> (nat \<Rightarrow> ext_block) \<Rightarrow> ('x \<Rightarrow> tables) \<Rightarrow>
   tables \<times> u64 \<Rightarrow> tables \<times> u64 \<Rightarrow> bool"
  for H D cfg db ethClient chain tabs where
  history_cut:
    "life_begins H D (starting_at cfg k) db ethClient resolver historyDrop w s ci w1 \<Longrightarrow>
     Retry (h_retry_history H) (IndexHistory D ci s) w1 = (Inl er, w2) \<Longrightarrow>
     full_life H D cfg db ethClient chain tabs (tabs (ext w), M) (tabs (ext w2), mark_after chain (tabs (ext w)) s M)"
| live_cut:
    "life_begins H D (starting_at cfg k) db ethClient resolver historyDrop w s ci w1 \<Longrightarrow>
     Retry (h_retry_history H) (IndexHistory D ci s) w1 = (Inr e, w2) \<Longrightarrow>
     (live_step D ci e (TipAgeBoundary (retry_block D) (max_elapsed D) ethClient historyDrop))\<^sup>*\<^sup>*
       (resumed (mark_after chain (tabs (ext w)) s M) w2) l \<Longrightarrow>
     full_life H D cfg db ethClient chain tabs (tabs (ext w), M) (l_tabs tabs l, l_highest l)"

inductive_cases full_lifeE: "full_life H D cfg db ethClient chain tabs (tb, M) (tb', M')"

lemma fresh_mark_above:
  assumes "\<And>k. k < 18446744073709551615 \<Longrightarrow> bk_time (chain k) < 18446744073709551615" "n < unat s"
  shows "bk_time (chain n) < fresh_mark chain s"
proof -
  have le: "m \<le> fold (\<lambda>n m. max m (bk_time (chain n) + 1)) ns m" for m and ns :: "nat list"
    by (induction ns arbitrary: m) (auto intro: order.trans [OF max.cobounded1])
  have "bk_time (chain k) + 1 \<le> fold (\<lambda>n m. max m (bk_time (chain n) + 1)) ns m" if "k \<in> set ns" for k m and ns :: "nat list"
    using that by (induction ns arbitrary: m) (auto intro: order.trans [OF max.cobounded2 le])
  then have "bk_time (chain n) + 1 \<le> fresh_mark chain s" using assms(2) by (simp add: fresh_mark_def)
  moreover have "bk_time (chain n) < 18446744073709551615"
    using assms unat_u64_bound [of s] by simp
  then have "unat (bk_time (chain n) + 1) = unat (bk_time (chain n)) + 1"
    by (intro unat_Suc_below_max) (simp add: word_less_nat_alt)
  ultimately show ?thesis by (simp add: word_less_nat_alt word_le_nat_alt)
qed

lemma mark_after_retained:
  assumes bound: "\<And>k. k < 18446744073709551615 \<Longrightarrow> bk_time (chain k) < 18446744073709551615"
    and tb: "retained L chain M tb" "tb_blocks tb = [] \<or> (\<exists>b \<in> set (tb_blocks tb). s = b_number b + 1)"
  defines "M' \<equiv> mark_after chain tb s M"
  shows "retained L chain M' tb" "served 0 L chain M' (unat s) tb"
proof -
  have "M \<le> M'" by (simp add: M'_def mark_after_def)
  with tb(1) show tb': "retained L chain M' tb" by (rule retained_weaken)
  show "served 0 L chain M' (unat s) tb"
  proof (cases "tb_blocks tb = []")
    case True
    then have "bk_time (chain n) < M'" if "n < unat s" for n
      using fresh_mark_above [of chain, OF bound that] by (simp add: M'_def mark_after_def less_max_iff_disj)
    then show ?thesis by (auto simp: served_def not_le [symmetric])
  next
    case False
    then obtain b where b: "b \<in> set (tb_blocks tb)" "s = b_number b + 1" using tb(2) by blast
    then have "unat (b_number b) < 2 ^ 62" using tb(1) by (simp add: retained_def)
    then have "unat s = unat (b_number b) + 1" unfolding b(2) by (intro unat_Suc_below_max) simp
    with b(1) have "reached tb n" if "n < unat s" for n using that by (auto simp: reached_def less_Suc_eq_le)
    then show ?thesis by (rule retained_served [OF tb'])
  qed
qed

context indexer
begin

lemma GetStartBlock_keeps: "keeps (\<lambda>x. tabs x = v) (GetStartBlock (retry_block D) me i (e_client ci) k)"
  unfolding GetStartBlock_def getBlockTimestamp_def GetNearestBlockByTimestampFromChain_def blockTimestampByNumber_def
  by (auto intro!: keeps_bind keeps_wrap rb.RetryWithMaxElapsed_triple client_keeps_view triple_liftR triple_ret nearest_keeps
      split: prod.split)

end

context dropping_mode
begin

lemma any_start: "configured_engine L (starting_at cfg s) db ethClient ci \<Longrightarrow> indexing D ci chain logs_at receipt_of tabs"
  by (rule configured_indexing)

lemma any_following:
  "configured_engine L (starting_at cfg s) db ethClient ci \<Longrightarrow>
   following D ci chain logs_at receipt_of tabs (TipAgeBoundary (retry_block D) (max_elapsed D) ethClient i)"
  using full_mode_following [OF any_start time_law, of L s ci] by (simp add: configured_engine_def)

lemma getStartIndex_law:
  assumes run: "getStartIndex H D db ethClient cfg' historyDrop x = (r, x')"
  shows "tabs x' = tabs x \<and>
    (\<forall>s. r = Inr s \<longrightarrow> tb_blocks (tabs x) = [] \<or> (\<exists>b \<in> set (tb_blocks (tabs x)). s = b_number b + 1))"
proof -
  have law: "reads tabs (\<lambda>tb. last_row (tb_blocks tb)) (s_last_block db)"
    using db_law by (rule relational_store.last_block_law)
  have "indexing D \<lparr>e_db = db, params = Indexer cfg, e_transactions = (\<lambda>_. None), e_client = ethClient\<rparr> chain logs_at receipt_of tabs"
    by (rule engine_law) simp_all
  note ixr = indexing.axioms(1) [OF this]
  have keeps: "keeps (\<lambda>x. tabs x = v) (wrapE m (Retry (h_retry_u64 H) (GetStartBlock (retry_block D) me historyDrop ethClient k)))" for v m me k
    using indexer.GetStartBlock_keeps [OF ixr] by (auto intro!: keeps_wrap retrier.Retry_triple [OF start_retrier])
  obtain r1 x1 where l: "s_last_block db x = (r1, x1)" by force
  have t1: "tabs x1 = tabs x" using readsD [OF law l] by simp
  show ?thesis
  proof (cases r1)
    case (Inl e)
    have "tb_blocks (tabs x) = []" if "is_not_found e"
      using reads_not_found [OF law l [unfolded Inl] that] by (auto simp: last_row_def split: list.splits)
    with run l Inl t1 show ?thesis
      by (auto simp: getStartIndex_def split: if_splits dest!: keepsD [OF keeps [of "tabs x"]])
  next
    case (Inr b)
    with run l t1 reads_Inr [OF law l [unfolded Inr]] show ?thesis
      by (auto simp: getStartIndex_def dest: last_row_Some)
  qed
qed

lemma history_retried_retained:
  assumes ci: "configured_engine (lib D) (starting_at cfg s0) db ethClient ci"
    and st: "retained (lib D) chain M (tabs (ext w))" "served 0 (lib D) chain M (unat s) (tabs (ext w))"
    and run: "Retry (h_retry_history H) (IndexHistory D ci s) w = (r, w')"
  shows "retained (lib D) chain M (tabs (ext w')) \<and>
    (\<forall>e. r = Inr e \<longrightarrow> unat e < 2 ^ 62 \<and> served 0 (lib D) chain M (unat e + 1) (tabs (ext w')))"
proof -
  let ?I = "\<lambda>w. retained (lib D) chain M (tabs (ext w)) \<and> served 0 (lib D) chain M (unat s) (tabs (ext w))"
  let ?E = "\<lambda>e w. unat e < 2 ^ 62 \<and> retained (lib D) chain M (tabs (ext w)) \<and> served 0 (lib D) chain M (unat e + 1) (tabs (ext w))"
  have B: "0 < BatchSize (params ci)" "unat (BatchSize (params ci)) \<le> 2 ^ 62"
    using ci batch_law by (auto simp: configured_engine_def starting_at_def applyIndexerDefaults_def word_neq_0_conv)
  note attempt = indexing.history_retained [OF any_start [OF ci] B]
  have "triple ?I (Retry (h_retry_history H) (IndexHistory D ci s)) ?E (\<lambda>_. ?I)"
    by (rule retrier.Retry_triple [OF history_retrier], rule tripleI) (use attempt in \<open>blast+\<close>)
  from triple_Inr [OF this] triple_Inl [OF this] st run show ?thesis by (cases r) blast+
qed

text \<open>A life begins on what the lives before it kept.\<close>

lemma life_begins_retained:
  assumes tb: "retained (lib D) chain M (tabs (ext w))"
    and life: "life_begins H D (starting_at cfg k) db ethClient resolver historyDrop w s ci w1"
  defines "M' \<equiv> mark_after chain (tabs (ext w)) s M"
  shows "configured_engine (lib D) (starting_at cfg s) db ethClient ci"
    "retained (lib D) chain M' (tabs (ext w1))" "served 0 (lib D) chain M' (unat s) (tabs (ext w1))"
proof -
  obtain x1 where g: "getStartIndex H D db ethClient (starting_at cfg k) historyDrop (ext w) = (Inr s, x1)" "w1 = w\<lparr>ext := x1\<rparr>"
    using life by (auto simp: life_begins_def liftX_iff)
  have st: "tabs x1 = tabs (ext w)" "tb_blocks (tabs (ext w)) = [] \<or> (\<exists>b \<in> set (tb_blocks (tabs (ext w))). s = b_number b + 1)"
    using getStartIndex_law [OF g(1)] by auto
  from mark_after_retained [OF time_bound tb st(2)]
  show "retained (lib D) chain M' (tabs (ext w1))" "served 0 (lib D) chain M' (unat s) (tabs (ext w1))"
    by (simp_all add: g(2) st(1) M'_def)
  show "configured_engine (lib D) (starting_at cfg s) db ethClient ci"
    using life by (auto simp: life_begins_def starting_at_def intro: NewEngine_configured)
qed

lemma live_life_retained:
  assumes tb: "retained (lib D) chain M (tabs (ext w))"
    and life: "life_begins H D (starting_at cfg k) db ethClient resolver historyDrop w s ci w1"
    and history: "Retry (h_retry_history H) (IndexHistory D ci s) w1 = (Inr e, w2)"
    and run: "(live_step D ci e (TipAgeBoundary (retry_block D) (max_elapsed D) ethClient historyDrop))\<^sup>*\<^sup>*
      (resumed (mark_after chain (tabs (ext w)) s M) w2) l"
  shows "live_inv (tight 0 e (tabs (ext w2))) 0 (lib D) chain e tabs l \<and> retained (lib D) chain (l_highest l) (l_tabs tabs l)"
proof -
  note begun = life_begins_retained [OF tb life]
  from history_retried_retained [OF begun history] have "retained (lib D) chain (mark_after chain (tabs (ext w)) s M) (tabs (ext w2))"
    "unat e < 2 ^ 62" "served 0 (lib D) chain (mark_after chain (tabs (ext w)) s M) (unat e + 1) (tabs (ext w2))" by auto
  from following.live_reachable_retained [OF any_following [OF begun(1)] run this] show ?thesis .
qed

lemma full_life_retained:
  assumes "full_life H D cfg db ethClient chain tabs (tb, M) (tb', M')" "retained (lib D) chain M tb"
  shows "retained (lib D) chain M' tb'"
  using assms(1)
proof (rule full_lifeE)
  fix k resolver historyDrop w s ci w1 er w2
  assume "tb = tabs (ext w)" "tb' = tabs (ext w2)" "M' = mark_after chain (tabs (ext w)) s M"
    "life_begins H D (starting_at cfg k) db ethClient resolver historyDrop w s ci w1"
    "Retry (h_retry_history H) (IndexHistory D ci s) w1 = (Inl er, w2)"
  with history_retried_retained [OF life_begins_retained] assms(2) show ?thesis by simp
next
  fix k resolver historyDrop w s ci w1 e w2 l
  assume "tb = tabs (ext w)" "tb' = l_tabs tabs l" "M' = l_highest l"
    and life: "life_begins H D (starting_at cfg k) db ethClient resolver historyDrop w s ci w1"
    "Retry (h_retry_history H) (IndexHistory D ci s) w1 = (Inr e, w2)"
    "(live_step D ci e (TipAgeBoundary (retry_block D) (max_elapsed D) ethClient historyDrop))\<^sup>*\<^sup>*
       (resumed (mark_after chain (tabs (ext w)) s M) w2) l"
  with live_life_retained [OF _ life] assms(2) show ?thesis by simp
qed

end

end
