(* ===== verification/Full_Run.thy ===== *)
theory Full_Run
  imports Retention
begin

text \<open>
  The function that runs the full mode, \<^verbatim>\<open>runIndexer\<close> after \<^verbatim>\<open>getStartIndex\<close>, refines the lives of
  \<open>Retention\<close>: whatever one run of it does is one of the interleavings. So what the lives keep, the
  program keeps.
\<close>

subsection \<open>Where a run is\<close>

text \<open>The goroutines can reach the points \<open>fpc\<close> and \<open>dpc\<close> in the world \<open>w\<close>.\<close>

definition reaches ::
  "'x deps \<Rightarrow> 'x engine \<Rightarrow> u64 \<Rightarrow> ('x, u64) io \<Rightarrow> 'x live \<Rightarrow> follow_pc \<Rightarrow> drop_pc \<Rightarrow> u64 \<Rightarrow> 'x world \<Rightarrow> bool" where
  "reaches D ci h bf l0 fpc dpc B w \<longleftrightarrow>
     (\<exists>l. (live_step D ci h bf)\<^sup>*\<^sup>* l0 l \<and> l_world l = w \<and> l_follow l = fpc \<and> l_drop l = dpc \<and> (dpc \<noteq> Idle \<longrightarrow> l_boundary l = B))"

lemma reaches_step:
  assumes "reaches D ci h bf l0 fpc dpc B w"
    and "\<And>l. l_world l = w \<Longrightarrow> l_follow l = fpc \<Longrightarrow> l_drop l = dpc \<Longrightarrow> dpc \<noteq> Idle \<longrightarrow> l_boundary l = B \<Longrightarrow>
      \<exists>l'. live_step D ci h bf l l' \<and> l_world l' = w' \<and> l_follow l' = fpc' \<and> l_drop l' = dpc' \<and> (dpc' \<noteq> Idle \<longrightarrow> l_boundary l' = B')"
  shows "reaches D ci h bf l0 fpc' dpc' B' w'"
proof -
  from assms(1) obtain l where l: "(live_step D ci h bf)\<^sup>*\<^sup>* l0 l" "l_world l = w" "l_follow l = fpc" "l_drop l = dpc"
    "dpc \<noteq> Idle \<longrightarrow> l_boundary l = B" unfolding reaches_def by blast
  from assms(2) [OF l(2-5)] obtain l' where l': "live_step D ci h bf l l'" "l_world l' = w'" "l_follow l' = fpc'" "l_drop l' = dpc'"
    "dpc' \<noteq> Idle \<longrightarrow> l_boundary l' = B'" by blast
  have "(live_step D ci h bf)\<^sup>*\<^sup>* l0 l'" using l(1) l'(1) by (rule rtranclp.rtrancl_into_rtrancl)
  with l'(2-5) show ?thesis unfolding reaches_def by blast
qed

lemma follow_reaches:
  assumes "reaches D ci h bf l0 fpc dpc B w" "follow_step D ci h fpc w = (r, w')"
  shows "reaches D ci h bf l0 (or_else Resuming r) dpc B w'"
  using assms(1)
proof (rule reaches_step)
  fix l :: "_ live" assume l: "l_world l = w" "l_follow l = fpc" "l_drop l = dpc" "dpc \<noteq> Idle \<longrightarrow> l_boundary l = B"
  let ?l' = "l\<lparr>l_world := w', l_follow := or_else Resuming r\<rparr>"
  have "live_step D ci h bf l ?l'" using l assms(2) by (intro live_step.follow) simp
  with l show "\<exists>l'. live_step D ci h bf l l' \<and> l_world l' = w' \<and> l_follow l' = or_else Resuming r \<and> l_drop l' = dpc \<and>
      (dpc \<noteq> Idle \<longrightarrow> l_boundary l' = B)" by (intro exI [of _ ?l']) simp
qed

lemma abandon_reaches:
  assumes "reaches D ci h bf l0 (Following k rg) dpc B w"
  shows "reaches D ci h bf l0 Resuming dpc B w"
  using assms
proof (rule reaches_step)
  fix l :: "_ live" assume l: "l_world l = w" "l_follow l = Following k rg" "l_drop l = dpc" "dpc \<noteq> Idle \<longrightarrow> l_boundary l = B"
  show "\<exists>l'. live_step D ci h bf l l' \<and> l_world l' = w \<and> l_follow l' = Resuming \<and> l_drop l' = dpc \<and> (dpc \<noteq> Idle \<longrightarrow> l_boundary l' = B)"
    using l live_step.abandon [of l k rg] by (intro exI [of _ "l\<lparr>l_follow := Resuming\<rparr>"]) simp
qed

lemma ready_reaches:
  assumes "reaches D ci h bf l0 Resuming dpc B w"
  shows "reaches D ci h bf l0 Resuming dpc B (w\<lparr>synced := True\<rparr>)"
  using assms
proof (rule reaches_step)
  fix l :: "_ live" assume l: "l_world l = w" "l_follow l = Resuming" "l_drop l = dpc" "dpc \<noteq> Idle \<longrightarrow> l_boundary l = B"
  let ?l' = "l\<lparr>l_world := (l_world l)\<lparr>synced := True\<rparr>\<rparr>"
  show "\<exists>l'. live_step D ci h bf l l' \<and> l_world l' = w\<lparr>synced := True\<rparr> \<and> l_follow l' = Resuming \<and> l_drop l' = dpc \<and>
      (dpc \<noteq> Idle \<longrightarrow> l_boundary l' = B)"
    using l live_step.ready [of l] by (intro exI [of _ ?l']) simp
qed

text \<open>A stage of the code that is a step of the interleaving, as a triple.\<close>

abbreviation following_at :: "'x deps \<Rightarrow> 'x engine \<Rightarrow> u64 \<Rightarrow> ('x, u64) io \<Rightarrow> 'x live \<Rightarrow> follow_pc \<Rightarrow> 'x world \<Rightarrow> bool" where
  "following_at D ci h bf l0 fpc w \<equiv> \<exists>dpc B. reaches D ci h bf l0 fpc dpc B w"

lemma follow_triple:
  assumes "follow_step D ci h fpc = bindE m (\<lambda>y. ret (g y))"
  shows "triple (following_at D ci h bf l0 fpc) m (\<lambda>y. following_at D ci h bf l0 (g y)) (\<lambda>_. following_at D ci h bf l0 Resuming)"
proof (rule tripleI)
  fix w y w' assume at: "following_at D ci h bf l0 fpc w" and m: "m w = (Inr y, w')"
  have "follow_step D ci h fpc w = (Inr (g y), w')" unfolding assms by (simp add: bindE_def m)
  with at follow_reaches show "following_at D ci h bf l0 (g y) w'" by (fastforce simp: or_else_def)
next
  fix w e w' assume at: "following_at D ci h bf l0 fpc w" and m: "m w = (Inl e, w')"
  have "follow_step D ci h fpc w = (Inl e, w')" unfolding assms by (simp add: bindE_def m)
  with at follow_reaches show "following_at D ci h bf l0 Resuming w'" by (fastforce simp: or_else_def)
qed

subsection \<open>Continuous indexing\<close>

lemma IndexContinuous_from_reaches:
  "triple (following_at D ci h bf l0 (Following k rg)) (IndexContinuous_from n D ci k rg)
     (\<lambda>_ w. \<exists>pc. following_at D ci h bf l0 pc w) (\<lambda>_. following_at D ci h bf l0 Resuming)"
proof (induction n arbitrary: k rg)
  case 0
  show ?case unfolding IndexContinuous_from.simps by (rule triple_throw) (blast intro: abandon_reaches)
next
  case (Suc n)
  let ?F = "following_at D ci h bf l0"
  consider "StopIndex (params ci) < k" | "k \<le> StopIndex (params ci)" "r_end rg < k"
    | "k \<le> StopIndex (params ci)" "\<not> r_end rg < k" by fastforce
  then show ?case
  proof cases
    case 1
    then show ?thesis by (simp add: triple_def not_le [symmetric]) blast
  next
    case 2
    then have "follow_step D ci h (Following k rg) = bindE (liftX (updateLastIndexContinuous D ci rg)) (\<lambda>rg. ret (Following k rg))"
      by simp
    from triple_bind [OF follow_triple [OF this] Suc.IH] 2 show ?thesis by simp
  next
    case 3
    then have data: "follow_step D ci h (Following k rg) = bindE (iteration_data D ci k) (\<lambda>y. ret (Committing k rg (fst y) (snd y)))"
      by (simp add: case_prod_unfold)
    have "triple (?F (Following k rg)) (indexContinuousIteration D ci k) (\<lambda>_. ?F (Following (k + 1) rg)) (\<lambda>_. ?F Resuming)"
      unfolding indexContinuousIteration_stages saveData_stages liftX_bind wrapE_bind case_prod_unfold
      by (intro triple_bind [OF follow_triple [OF data]] triple_bind [OF follow_triple [OF follow_step.simps(4)]]
          follow_triple [OF follow_step.simps(5)])
    from triple_bind [OF this Suc.IH] 3 show ?thesis by simp
  qed
qed

lemma continuous_attempt_reaches:
  "triple (following_at D ci h bf l0 Resuming) (continuous_attempt D ci (e_db ci) h)
     (\<lambda>_ w. \<exists>pc. following_at D ci h bf l0 pc w) (\<lambda>_. following_at D ci h bf l0 Resuming)"
proof -
  have range: "follow_step D ci h (Ranging s) =
      bindE (wrapE ''ci.getIndexRange'' (liftX (getIndexRange D ci s))) (\<lambda>rg. ret (Following (r_start rg) rg))" for s by simp
  have "triple (following_at D ci h bf l0 (Ranging s)) (IndexContinuous D ci s)
      (\<lambda>_ w. \<exists>pc. following_at D ci h bf l0 pc w) (\<lambda>_. following_at D ci h bf l0 Resuming)" for s
    unfolding IndexContinuous_def by (rule triple_bind [OF follow_triple [OF range] IndexContinuous_from_reaches])
  from triple_bind [OF follow_triple [OF follow_step.simps(1)] this] show ?thesis by (simp add: continuous_attempt_def)
qed

subsection \<open>The history drop\<close>

text \<open>The drop runs before the first attempt: it changes the outside state of the world \<open>W\<close>.\<close>

abbreviation dropping_at :: "'x deps \<Rightarrow> 'x engine \<Rightarrow> u64 \<Rightarrow> ('x, u64) io \<Rightarrow> 'x live \<Rightarrow> 'x world \<Rightarrow> u64 \<Rightarrow> drop_pc \<Rightarrow> 'x \<Rightarrow> bool" where
  "dropping_at D ci h bf l0 W B dpc x \<equiv> reaches D ci h bf l0 Resuming dpc B (W\<lparr>ext := x\<rparr>)"

text \<open>Where an iteration may stop: given up, or in the middle when its fuel is spent.\<close>

definition drop_stops :: "'x deps \<Rightarrow> 'x engine \<Rightarrow> u64 \<Rightarrow> ('x, u64) io \<Rightarrow> 'x live \<Rightarrow> 'x world \<Rightarrow> u64 \<Rightarrow> go_error \<Rightarrow> 'x \<Rightarrow> bool" where
  "drop_stops D ci h bf l0 W B er x \<longleftrightarrow>
     (if er = OutOfFuel then \<exists>pc. dropping_at D ci h bf l0 W B pc x else dropping_at D ci h bf l0 W B Idle x)"

lemma idle_stops: "dropping_at D ci h bf l0 W B Idle x \<Longrightarrow> drop_stops D ci h bf l0 W B er x"
  by (auto simp: drop_stops_def)

lemma drop_reaches:
  assumes "dropping_at D ci h bf l0 W B dpc x" "dpc \<noteq> Idle" "drop_step (e_db ci) B dpc x = (r, x')"
  shows "dropping_at D ci h bf l0 W B (or_else Idle r) x'"
  using assms(1)
proof (rule reaches_step)
  fix l :: "_ live" assume l: "l_world l = W\<lparr>ext := x\<rparr>" "l_follow l = Resuming" "l_drop l = dpc" "dpc \<noteq> Idle \<longrightarrow> l_boundary l = B"
  let ?l' = "l\<lparr>l_world := (l_world l)\<lparr>ext := x'\<rparr>, l_drop := or_else Idle r,
          l_settled := (r = Inr Idle \<and> l_drop l \<noteq> FindingFirst BlockPass \<and> l_boundary l = l_highest l)\<rparr>"
  have "live_step D ci h bf l ?l'" by (rule live_step.drop) (use l assms(2,3) in simp_all)
  with l assms(2) show "\<exists>l'. live_step D ci h bf l l' \<and> l_world l' = W\<lparr>ext := x'\<rparr> \<and> l_follow l' = Resuming \<and> l_drop l' = or_else Idle r \<and>
      (or_else Idle r \<noteq> Idle \<longrightarrow> l_boundary l' = B)" by (intro exI [of _ ?l']) simp
qed

lemma drop_triple:
  assumes "drop_step (e_db ci) B dpc = bindE m (\<lambda>y. ret (g y))" "dpc \<noteq> Idle"
  shows "triple (dropping_at D ci h bf l0 W B dpc) m (\<lambda>y. dropping_at D ci h bf l0 W B (g y)) (drop_stops D ci h bf l0 W B)"
proof (rule tripleI)
  fix x y x' assume at: "dropping_at D ci h bf l0 W B dpc x" and m: "m x = (Inr y, x')"
  have "drop_step (e_db ci) B dpc x = (Inr (g y), x')" unfolding assms(1) by (simp add: bindE_def m)
  from drop_reaches [OF at assms(2) this] show "dropping_at D ci h bf l0 W B (g y) x'" by (simp add: or_else_def)
next
  fix x e x' assume at: "dropping_at D ci h bf l0 W B dpc x" and m: "m x = (Inl e, x')"
  have "drop_step (e_db ci) B dpc x = (Inl e, x')" unfolding assms(1) by (simp add: bindE_def m)
  from drop_reaches [OF at assms(2) this] show "drop_stops D ci h bf l0 W B e x'" by (simp add: or_else_def idle_stops)
qed

lemma DeleteInBatches_reaches:
  "triple (dropping_at D ci h bf l0 W B (Deleting e)) (DeleteInBatches fuel (e_db ci) B e)
     (\<lambda>_. dropping_at D ci h bf l0 W B (after_delete e)) (drop_stops D ci h bf l0 W B)"
proof (induction fuel)
  case 0
  show ?case unfolding DeleteInBatches.simps by (rule triple_throw) (auto simp: drop_stops_def)
next
  case (Suc fuel)
  have step: "triple (dropping_at D ci h bf l0 W B (Deleting e))
      (wrapE ''Failed to delete historic data in the DB'' (s_delete (e_db ci) e deleteBatchSize B))
      (\<lambda>k. dropping_at D ci h bf l0 W B (if k = 0 then after_delete e else Deleting e)) (drop_stops D ci h bf l0 W B)"
    by (rule drop_triple) simp_all
  show ?case unfolding DeleteInBatches.simps by (rule triple_bind [OF step]) (auto intro: triple_ret Suc.IH)
qed

lemma raiseFloor_reaches:
  "triple (dropping_at D ci h bf l0 W B (ReadingFloor p)) (raiseFloor (e_db ci) B (pass_floor p) (pass_first p))
     (\<lambda>_. dropping_at D ci h bf l0 W B (after_pass p)) (drop_stops D ci h bf l0 W B)"
proof -
  let ?S = "dropping_at D ci h bf l0 W B" and ?R = "drop_stops D ci h bf l0 W B"
  have read: "triple (?S (ReadingFloor p)) (wrapE ''read floor state'' (GetState (e_db ci) (pass_floor p)))
      (\<lambda>floor. ?S (if IsSet floor \<and> B \<le> BlockTimestamp floor then after_pass p else FindingFirst p)) ?R"
    by (rule drop_triple) simp_all
  have raise: "triple (?S (Raising p i t)) (UpdateState (e_db ci) (pass_floor p) i t) (\<lambda>_. ?S (after_pass p)) ?R" for i t
    by (rule drop_triple) simp_all
  let ?find = "\<lambda>x. case pass_first p (e_db ci) x of
      (Inr (index, timestamp), x') \<Rightarrow> UpdateState (e_db ci) (pass_floor p) index timestamp x'
    | (Inl e, x') \<Rightarrow> if is_not_found e then (Inr (), x') else (Inl (Wrapped ''find first surviving row'' e), x')"
  have find: "triple (?S (FindingFirst p)) ?find (\<lambda>_. ?S (after_pass p)) ?R"
    unfolding triple_def
  proof (intro allI impI)
    fix x r' x'' assume at: "?S (FindingFirst p) x" and run: "?find x = (r', x'')"
    obtain r x1 where f: "pass_first p (e_db ci) x = (r, x1)" by force
    have "case ?find x of (Inr y, x') \<Rightarrow> ?S (after_pass p) x' | (Inl e, x') \<Rightarrow> ?R e x'"
    proof (cases r)
      case (Inl e)
      have "drop_step (e_db ci) B (FindingFirst p) x =
          (if is_not_found e then Inr (after_pass p) else Inl (Wrapped ''find first surviving row'' e), x1)"
        by (simp add: f Inl)
      from drop_reaches [OF at _ this] show ?thesis by (auto simp: f Inl or_else_def idle_stops split: if_splits)
    next
      case (Inr it)
      obtain i t where it: "it = (i, t)" by force
      have "drop_step (e_db ci) B (FindingFirst p) x = (Inr (Raising p i t), x1)" by (simp add: f Inr it)
      from drop_reaches [OF at _ this] have "?S (Raising p i t) x1" by (simp add: or_else_def)
      with triple_Inr [OF raise this] triple_Inl [OF raise this] show ?thesis
        by (simp add: f Inr it split: prod.split sum.split)
    qed
    then show "case r' of Inl e \<Rightarrow> ?R e x'' | Inr _ \<Rightarrow> ?S (after_pass p) x''"
      unfolding run by (simp split: sum.splits)
  qed
  show ?thesis unfolding raiseFloor_def by (rule triple_bind [OF read]) (auto intro: triple_ret find)
qed

lemma dropHistoryBelow_reaches:
  "triple (dropping_at D ci h bf l0 W B (Deleting LogEntity)) (dropHistoryBelow fuel (e_db ci) B)
     (\<lambda>_. dropping_at D ci h bf l0 W B Idle) (drop_stops D ci h bf l0 W B)"
proof -
  let ?T = "\<lambda>a m b. triple (dropping_at D ci h bf l0 W B a) m (\<lambda>_. dropping_at D ci h bf l0 W B b) (drop_stops D ci h bf l0 W B)"
  have delete: "?T (Deleting LogEntity) (DeleteInBatches fuel (e_db ci) B LogEntity) (ReadingFloor LogPass)"
    "?T (Deleting TransactionEntity) (DeleteInBatches fuel (e_db ci) B TransactionEntity) (Deleting BlockEntity)"
    "?T (Deleting BlockEntity) (DeleteInBatches fuel (e_db ci) B BlockEntity) (ReadingFloor BlockPass)"
    using DeleteInBatches_reaches [where e = LogEntity] DeleteInBatches_reaches [where e = TransactionEntity]
      DeleteInBatches_reaches [where e = BlockEntity] by simp_all
  have raise: "?T (ReadingFloor LogPass) (raiseFloor (e_db ci) B LogFloor firstSurvivingLog) (Deleting TransactionEntity)"
    "?T (ReadingFloor BlockPass) (raiseFloor (e_db ci) B BlockFloor firstSurvivingBlock) Idle"
    using raiseFloor_reaches [where p = LogPass] raiseFloor_reaches [where p = BlockPass] by simp_all
  have "dropHistoryBelow fuel (e_db ci) B = bindE (DeleteInBatches fuel (e_db ci) B LogEntity) (\<lambda>_.
      bindE (raiseFloor (e_db ci) B LogFloor firstSurvivingLog) (\<lambda>_.
      bindE (DeleteInBatches fuel (e_db ci) B TransactionEntity) (\<lambda>_.
      bindE (DeleteInBatches fuel (e_db ci) B BlockEntity) (\<lambda>_.
        raiseFloor (e_db ci) B BlockFloor firstSurvivingBlock))))"
    by (simp add: dropHistoryBelow_def dropAndRaiseFloor_def bindE_assoc bindE_unit)
  then show ?thesis
    by (simp only:) (rule triple_bind [OF delete(1)] triple_bind [OF raise(1)] triple_bind [OF delete(2)]
        triple_bind [OF delete(3)] raise(2))+
qed

lemma dropHistoryIteration_reaches:
  assumes at: "dropping_at D ci h bf l0 W B Idle x" and run: "dropHistoryIteration fuel (e_db ci) bf x = (r, x')"
  shows "\<exists>B'. (r \<noteq> Inl OutOfFuel \<longrightarrow> dropping_at D ci h bf l0 W B' Idle x') \<and> (\<exists>pc. dropping_at D ci h bf l0 W B' pc x')"
proof -
  obtain r1 x1 where b: "bf x = (r1, x1)" by force
  show ?thesis
  proof (cases r1)
    case (Inl e)
    then have "x' = x1" using run b by (auto simp: dropHistoryIteration_def bindE_def wrapE_def)
    moreover have "dropping_at D ci h bf l0 W B Idle x1"
      using at
    proof (rule reaches_step)
      fix l :: "_ live" assume l: "l_world l = W\<lparr>ext := x\<rparr>" "l_follow l = Resuming" "l_drop l = Idle"
      let ?l' = "l\<lparr>l_world := (l_world l)\<lparr>ext := x1\<rparr>\<rparr>"
      have "live_step D ci h bf l ?l'" by (rule live_step.no_boundary [of l bf e x1]) (use l b Inl in simp_all)
      with l show "\<exists>l'. live_step D ci h bf l l' \<and> l_world l' = W\<lparr>ext := x1\<rparr> \<and> l_follow l' = Resuming \<and> l_drop l' = Idle \<and>
          (Idle \<noteq> Idle \<longrightarrow> l_boundary l' = B)" by (intro exI [of _ ?l']) simp
    qed
    ultimately show ?thesis by blast
  next
    case (Inr B')
    then have rest: "dropHistoryBelow fuel (e_db ci) B' x1 = (r, x')"
      using run b by (simp add: dropHistoryIteration_def bindE_def wrapE_def)
    have "dropping_at D ci h bf l0 W B' (Deleting LogEntity) x1"
      using at
    proof (rule reaches_step)
      fix l :: "_ live" assume l: "l_world l = W\<lparr>ext := x\<rparr>" "l_follow l = Resuming" "l_drop l = Idle"
      let ?l' = "l\<lparr>l_world := (l_world l)\<lparr>ext := x1\<rparr>, l_drop := Deleting LogEntity, l_boundary := B',
          l_highest := max (l_highest l) B', l_settled := False\<rparr>"
      have "live_step D ci h bf l ?l'" by (rule live_step.begin_drop) (use l b Inr in simp_all)
      with l show "\<exists>l'. live_step D ci h bf l l' \<and> l_world l' = W\<lparr>ext := x1\<rparr> \<and> l_follow l' = Resuming \<and> l_drop l' = Deleting LogEntity \<and>
          (Deleting LogEntity \<noteq> Idle \<longrightarrow> l_boundary l' = B')" by (intro exI [of _ ?l']) simp
    qed
    note at' = this
    show ?thesis
    proof (cases r)
      case (Inl e)
      with triple_Inl [OF dropHistoryBelow_reaches at', of fuel e x'] rest have "drop_stops D ci h bf l0 W B' e x'" by simp
      then show ?thesis unfolding drop_stops_def Inl by (cases "e = OutOfFuel") auto
    next
      case (Inr u)
      with triple_Inr [OF dropHistoryBelow_reaches at', of fuel u x'] rest show ?thesis by auto
    qed
  qed
qed

lemma DropHistory_reaches:
  "dropping_at D ci h bf l0 W B Idle x \<Longrightarrow> \<exists>pc B'. dropping_at D ci h bf l0 W B' pc (DropHistory n fuel (e_db ci) bf x)"
proof (induction n arbitrary: x B)
  case (Suc n)
  obtain r x' where run: "dropHistoryIteration fuel (e_db ci) bf x = (r, x')" by force
  from dropHistoryIteration_reaches [OF Suc.prems run] Suc.IH run show ?case by auto
qed auto


subsection \<open>The end of a run\<close>

text \<open>What both modes do after their history: the drop is started, the process is ready, and follows.\<close>

definition run_tail :: "('x, 'u) host \<Rightarrow> 'x deps \<Rightarrow> 'x engine \<Rightarrow> ('x, u64) io \<Rightarrow> bool \<Rightarrow> string \<Rightarrow> u64 \<Rightarrow> ('x world, unit) io" where
  "run_tail H D ci bf drops msg historyLastIndex =
     bindE (if drops then go_DropHistory H (e_db ci) bf else ret ()) (\<lambda>_.
     bindE (SetSynced True) (\<lambda>_.
     bindE (wrapE msg (RetryNoReturn (h_retry_continuous H) (continuous_attempt D ci (e_db ci) historyLastIndex))) (\<lambda>_.
       ret ())))"

lemma run_tail_reaches:
  assumes retr: "retrier (h_retry_continuous H)" and run: "run_tail H D ci bf drops msg h w = (r, w')"
  shows "\<exists>pc. following_at D ci h bf (resumed M w) pc w'"
proof -
  let ?F = "following_at D ci h bf (resumed M w)"
  have start: "reaches D ci h bf (resumed M w) Resuming Idle 0 w"
    unfolding reaches_def by (intro exI [of _ "resumed M w"]) simp
  have "triple (reaches D ci h bf (resumed M w) Resuming Idle 0) (go_DropHistory H (e_db ci) bf) (\<lambda>_. ?F Resuming) (\<lambda>_. ?F Resuming)"
  proof (rule tripleI)
    fix v y v' assume at: "reaches D ci h bf (resumed M w) Resuming Idle 0 v" and go: "go_DropHistory H (e_db ci) bf v = (Inr y, v')"
    have "dropping_at D ci h bf (resumed M w) v 0 Idle (ext v)" using at by simp
    from DropHistory_reaches [OF this] go show "?F Resuming v'" by (auto simp: go_DropHistory_def)
  qed (simp add: go_DropHistory_def)
  then have go: "triple (reaches D ci h bf (resumed M w) Resuming Idle 0)
      (if drops then go_DropHistory H (e_db ci) bf else ret ()) (\<lambda>_. ?F Resuming) (\<lambda>_. ?F Resuming)"
    by (cases drops) (simp_all add: triple_def, blast)
  have ready: "triple (?F Resuming) (SetSynced True) (\<lambda>_. ?F Resuming) (\<lambda>_. ?F Resuming)"
    using ready_reaches by (fastforce simp: triple_def SetSynced_def)
  have "triple (?F Resuming) (bindE (continuous_attempt D ci (e_db ci) h) (\<lambda>_. ret ())) (\<lambda>_ w. \<exists>pc. ?F pc w) (\<lambda>_. ?F Resuming)"
    by (rule triple_bind [OF continuous_attempt_reaches triple_ret])
  from retrier.Retry_triple [OF retr this]
  have follow: "triple (?F Resuming) (RetryNoReturn (h_retry_continuous H) (continuous_attempt D ci (e_db ci) h))
      (\<lambda>_ w. \<exists>pc. ?F pc w) (\<lambda>_. ?F Resuming)"
    unfolding RetryNoReturn_def by (rule triple_bind [OF _ triple_ret])
  have "triple (reaches D ci h bf (resumed M w) Resuming Idle 0) (run_tail H D ci bf drops msg h) (\<lambda>_ w. \<exists>pc. ?F pc w) (\<lambda>_. ?F Resuming)"
    unfolding run_tail_def
    by (rule triple_bind [OF go] triple_bind [OF ready] triple_bind [OF triple_wrap [OF follow]] triple_ret)+
  from triple_Inr [OF this start] triple_Inl [OF this start] run show ?thesis by (cases r) blast+
qed

lemma highest_grows: "(live_step D ci h bf)\<^sup>*\<^sup>* l0 l \<Longrightarrow> l_highest l0 \<le> l_highest l"
  by (induction rule: rtranclp_induct) (auto elim!: live_step.cases intro: max.coboundedI1)

text \<open>The mark is the one of the beginning, or the boundary of a drop.\<close>

lemma highest_origin:
  "(live_step D ci h bf)\<^sup>*\<^sup>* l0 l \<Longrightarrow> l_highest l = l_highest l0 \<or> (\<exists>x x'. bf x = (Inr (l_highest l), x'))"
  by (induction rule: rtranclp_induct) (auto elim!: live_step.cases simp: max_def)

context dropping_mode
begin

lemma full_run_life:
  assumes run: "index_full H D (starting_at cfg k) db ethClient resolver historyDrop w = (r, w')"
  shows "\<exists>M'. M \<le> M' \<and> (full_life H D cfg db ethClient chain tabs)\<^sup>*\<^sup>* (tabs (ext w), M) (tabs (ext w'), M')"
proof -
  obtain r1 x1 where g: "getStartIndex H D db ethClient (starting_at cfg k) historyDrop (ext w) = (r1, x1)" by force
  have t1: "tabs x1 = tabs (ext w)" using getStartIndex_law [OF g] by simp
  let ?w1 = "w\<lparr>ext := x1\<rparr>"
  show ?thesis
  proof (cases r1)
    case (Inl e)
    with run g have "w' = ?w1" by (auto simp: index_full_def bindE_def wrapE_def liftX_def)
    with t1 show ?thesis by auto
  next
    case (Inr s)
    let ?cfg = "starting_at cfg s" and ?M = "mark_after chain (tabs (ext w)) s M"
    have M: "M \<le> ?M" by (simp add: mark_after_def)
    have run1: "runIndexer H D ?cfg db ethClient resolver historyDrop ?w1 = (r, w')"
      using run g Inr by (simp add: index_full_def bindE_def wrapE_def liftX_def starting_at_def)
    show ?thesis
    proof (cases "NewEngine (lib D) ?cfg db ethClient (Some resolver)")
      case (Inl e)
      with run1 have "w' = ?w1" by (auto simp: runIndexer_def bindE_def)
      with t1 show ?thesis by auto
    next
      case ci: (Inr ci)
      have life: "life_begins H D (starting_at cfg k) db ethClient resolver historyDrop w s ci ?w1"
        using g Inr ci by (simp add: life_begins_def liftX_iff starting_at_def)
      have fields: "e_db ci = db" using NewEngine_configured [OF ci] by (simp add: configured_engine_def)
      obtain r2 w2 where h: "Retry (h_retry_history H) (IndexHistory D ci s) ?w1 = (r2, w2)" by force
      have s: "StartIndex (Indexer ?cfg) = s" by (simp add: starting_at_def)
      show ?thesis
      proof (cases r2)
        case (Inl er)
        with run1 ci h s have "w' = w2" by (auto simp: runIndexer_def bindE_def wrapE_def)
        with full_life.history_cut [OF life h [unfolded Inl]] M show ?thesis by blast
      next
        case e: (Inr e)
        let ?bf = "TipAgeBoundary (retry_block D) (max_elapsed D) ethClient historyDrop"
        have "run_tail H D ci ?bf (0 < historyDrop) ''Index continuous fatal error'' e w2 = (r, w')"
          using run1 ci h e s by (cases "0 < historyDrop") (simp_all add: runIndexer_def run_tail_def fields bindE_def wrapE_def)
        from run_tail_reaches [OF continuous_retrier this, of ?M]
        obtain l where l: "(live_step D ci e ?bf)\<^sup>*\<^sup>* (resumed ?M w2) l" "l_world l = w'" unfolding reaches_def by blast
        from full_life.live_cut [where chain = chain and tabs = tabs, OF life h [unfolded e] l(1)] l(2)
        have "full_life H D cfg db ethClient chain tabs (tabs (ext w), M) (tabs (ext w'), l_highest l)" by simp
        moreover have "M \<le> l_highest l" using highest_grows [OF l(1)] M by simp
        ultimately show ?thesis by blast
      qed
    qed
  qed
qed

end

end
