(* ===== verification/Fsp_Lives.thy ===== *)
theory Fsp_Lives
  imports Full_Run
begin

text \<open>
  The lives of the process in FSP mode, on the same database and with the same mark as those in full
  mode: the operator may switch between the modes from one life to the next.
\<close>

subsection \<open>Startup\<close>

text \<open>Startup continues the stored range, or starts over at the first block of the full window.\<close>

definition startup_mark :: "(nat \<Rightarrow> ext_block) \<Rightarrow> (state_name \<Rightarrow> state_row option) \<Rightarrow> u64 \<Rightarrow> u64 \<Rightarrow> u64" where
  "startup_mark chain states full M = (if catchup_from states full = full then max M (fresh_mark chain full) else M)"

lemma startup_mark_above: "M \<le> startup_mark chain states full M"
  by (simp add: startup_mark_def)

lemma same_blocks_trans: "same_blocks a b \<Longrightarrow> same_blocks b c \<Longrightarrow> same_blocks a c"
  by (simp add: same_blocks_def)

lemma retained_same:
  assumes "same_blocks tb tb'"
  shows "retained L chain M tb' \<longleftrightarrow> retained L chain M tb" "served c L chain M m tb' \<longleftrightarrow> served c L chain M m tb"
  using assms
  by (auto simp: same_blocks_def retained_def chain_rows_def dated_floor_def tip_low_def reached_def present_def served_def)

lemma keeps_any:
  assumes "\<And>v. keeps (\<lambda>x. f x = v) m"
  shows "keeps (\<lambda>x. P (f x)) m"
proof (rule keepsI)
  fix x r x' assume "P (f x)" and run: "m x = (r, x')"
  with keepsD [OF assms [of "f x"] run] show "P (f x')" by simp
qed

context fsp_host
begin

lemma startup_plan_keeps: "keeps (\<lambda>w. tabs (ext w) = v) (startup_plan D ci registry new_fsm)"
proof -
  have get: "keeps (\<lambda>x. tabs x = v) (GetStates (e_db ci) ns)" for ns by (rule keepsI) (simp add: GetStates_tabs)
  have fsm: "keeps (\<lambda>w. tabs (ext w) = v) (liftX (resolveFullStartBlock D ci fsm n t))"
    "keeps (\<lambda>w. tabs (ext w) = v) (liftX (fspEventBackfillAnchor (loop_fuel D) fsm e))"
    if "new_fsm a (e_client ci) = Inr fsm" for a fsm n t e
    using resolveFullStartBlock_keeps [OF binding_keeps [OF that]] fspEventBackfillAnchor_keeps [OF binding_keeps [OF that]]
    by (auto intro: liftX_keeps)
  have bound: "keeps (\<lambda>w. tabs (ext w) = v) (bindE (wrapE m (liftR (new_fsm a (e_client ci)))) f)"
    if "\<And>fsm. new_fsm a (e_client ci) = Inr fsm \<Longrightarrow> keeps (\<lambda>w. tabs (ext w) = v) (f fsm)" for a m f
  proof (cases "new_fsm a (e_client ci)")
    case (Inl e)
    then show ?thesis by (auto simp: triple_def bindE_def wrapE_def)
  next
    case (Inr fsm)
    then have "bindE (wrapE m (liftR (new_fsm a (e_client ci)))) f = f fsm" by (auto simp: fun_eq_iff bindE_def wrapE_def)
    with that Inr show ?thesis by simp
  qed
  show ?thesis
    unfolding startup_plan_def FetchLastBlockIndex_def
    by (intro keeps_bind keeps_wrap liftX_keeps fetchLastBlockIndex_keeps ResolveByName_keeps)
      (auto intro!: keeps_bind keeps_wrap liftX_keeps fetchLastBlockIndex_keeps ResolveByName_keeps bound fsm get triple_ret
        split: prod.split)
qed

lemma startup_plan_read:
  assumes "startup_plan D ci registry new_fsm w = (Inr (tip, full, anchor, states), w1)"
  shows "tabs (ext w1) = tabs (ext w)" "unat tip < 2 ^ 62"
    "\<forall>n \<in> {BlockFloor, LastIndexed, LogFloor}. states n = tb_states (tabs (ext w)) n"
proof -
  show same: "tabs (ext w1) = tabs (ext w)" using keepsD [OF startup_plan_keeps assms] by blast
  from assms obtain t wa wf where
    l: "liftX (fetchLastBlockIndex D ci) w = (Inr (tip, t), wa)"
      "liftX (GetStates (e_db ci) [BlockFloor, LastIndexed, LogFloor]) wf = (Inr states, w1)"
    unfolding startup_plan_def FetchLastBlockIndex_def bindE_Inr_iff wrapE_Inr_iff by (clarsimp simp: bindE_Inr_iff wrapE_Inr_iff)
  from l have "fetchLastBlockIndex D ci (ext w) = (Inr (tip, t), ext wa)"
    "GetStates (e_db ci) [BlockFloor, LastIndexed, LogFloor] (ext wf) = (Inr states, ext w1)" by (auto simp: liftX_iff)
  note read = fetchLastBlockIndex_Inr [OF this(1)] GetStates_Inr [OF this(2)]
  then show "unat tip < 2 ^ 62" by simp
  from read same
  show "\<forall>n \<in> {BlockFloor, LastIndexed, LogFloor}. states n = tb_states (tabs (ext w)) n" by simp
qed

text \<open>The backfill of events touches neither blocks nor their coverage.\<close>

lemma backfill_same_blocks:
  "keeps (\<lambda>w. same_blocks tb (tabs (ext w))) (backfill_events D ci registry defaults ev full)"
proof -
  let ?P = "\<lambda>x. same_blocks tb (tabs x)"
  have save: "keeps ?P (saveLogs ci ls)" for ls
  proof (rule keepsI)
    fix x r x' assume "?P x" and run: "saveLogs ci ls x = (r, x')"
    moreover have "same_blocks (tabs x) (tabs x')"
      using writesD [OF saveLogs_writes run] fold_ins_log_only [of "tabs x" ls] by (auto simp: same_blocks_def only_logs_added_def)
    ultimately show "?P x'" by (blast intro: same_blocks_trans)
  qed
  have chunk: "keeps ?P (backfill_chunk D ci a b as ts)" for a b as ts
    unfolding backfill_chunk_def
    by (intro keeps_bind triple_if triple_ret save keeps_any [OF fetchEventRangeLogsChunk_keeps] keeps_any [OF buildDBLogs_keeps])
  have loop: "keeps ?P (backfillFspEventLogs_from n D ci R a b as ts)" for n R a b as ts
    by (induction n arbitrary: a) (auto simp: Let_def intro!: triple_if keeps_bind chunk triple_ret triple_throw)
  have floor: "keeps ?P (UpdateState (e_db ci) LogFloor i t)" for i t
  proof (rule keepsI)
    fix x r x' assume "?P x" and run: "UpdateState (e_db ci) LogFloor i t x = (r, x')"
    moreover have "same_blocks (tabs x) (tabs x')"
      using writesD [OF UpdateState_writes run] by (auto simp: same_blocks_def state_of_def)
    ultimately show "?P x'" by (blast intro: same_blocks_trans)
  qed
  have lift: "keeps (\<lambda>w. ?P (ext w)) (liftX m)" if "keeps ?P m" for m :: "('x, 'b) io" using liftX_triple [OF that] .
  show ?thesis
    unfolding backfill_events_def backfillFspEventLogs_def FetchBlockTimestamp_def
    by (auto simp: Let_def intro!: keeps_bind keeps_wrap keeps_any [OF resolveFspContractAddresses_keeps] lift loop floor
        keeps_any [OF fetchBlockTimestamp_keeps])
qed

lemma startup_retained:
  assumes B: "0 < BatchSize (params ci)" "unat (BatchSize (params ci)) \<le> 2 ^ 62"
    and bound: "\<And>k. k < 18446744073709551615 \<Longrightarrow> bk_time (chain k) < 18446744073709551615"
    and tb: "retained (lib D) chain M (tabs (ext w))"
    and plan: "startup_plan D ci registry new_fsm w = (Inr (tip, full, anchor, states), w1)"
    and run: "IndexStartup D ci registry new_fsm defaults w = (r, w')"
  defines "M' \<equiv> startup_mark chain states full M"
  shows "retained (lib D) chain M' (tabs (ext w')) \<and>
    (\<forall>e. r = Inr e \<longrightarrow> unat e < 2 ^ 62 \<and> served 0 (lib D) chain M' (unat e + 1) (tabs (ext w')))"
proof -
  note p = startup_plan_read [OF plan]
  define i where "i = catchup_from states full"
  have tb': "retained (lib D) chain M' (tabs (ext w))"
    using retained_weaken [OF tb startup_mark_above] by (simp add: M'_def)
  have sv: "served 0 (lib D) chain M' (unat i) (tabs (ext w))"
  proof (cases "i = full")
    case True
    then have "fresh_mark chain full \<le> M'" by (simp add: M'_def startup_mark_def i_def [symmetric])
    then have "bk_time (chain n) < M'" if "n < unat full" for n
      using fresh_mark_above [of chain, OF bound that] by simp
    then show ?thesis using True by (auto simp: served_def not_le [symmetric])
  next
    case False
    then obtain li where li: "tb_states (tabs (ext w)) LastIndexed = Some li" and i: "i = Index li + 1"
      using p(3) by (auto simp: i_def catchup_from_def Let_def state_in_def IsSet_def zero_state_def split: if_splits option.splits)
    then have "unat (Index li) < 2 ^ 62" using tb by (simp add: retained_def tip_low_def)
    then have "unat i = unat (Index li) + 1" unfolding i by (intro unat_Suc_below_max) simp
    then have "reached (tabs (ext w)) n" if "n < unat i" for n using that li by (auto simp: reached_def)
    then show ?thesis by (rule retained_served [OF tb'])
  qed
  obtain r2 w2 where b: "(case backfill_from states anchor full of None \<Rightarrow> ret ()
       | Some ev \<Rightarrow> backfill_events D ci registry defaults ev full) w1 = (r2, w2)" by force
  have "same_blocks (tabs (ext w)) (tabs (ext w2))"
    using b p(1) keepsD [OF backfill_same_blocks, of defaults _ full w1 r2 w2 "tabs (ext w)"]
    by (cases "backfill_from states anchor full") auto
  then have st2: "retained (lib D) chain M' (tabs (ext w2))" "served 0 (lib D) chain M' (unat i) (tabs (ext w2))"
    using retained_same tb' sv by blast+
  show ?thesis
  proof (cases r2)
    case (Inl e)
    with run plan b have "w' = w2" "\<forall>e. r \<noteq> Inr e"
      by (auto simp: IndexStartup_def bindE_run_Inr Let_def bindE_run_Inl)
    with st2 show ?thesis by simp
  next
    case (Inr u)
    with run plan b have rest: "(if i \<le> tip then wrapE ''backfill FSP catchup range'' (IndexHistory D ci i)
        else ret tip) w2 = (r, w')"
      by (auto simp: IndexStartup_def bindE_run_Inr Let_def i_def split: if_splits)
    show ?thesis
    proof (cases "i \<le> tip")
      case True
      with rest obtain r3 where h: "IndexHistory D ci i w2 = (r3, w')" and r: "r = wrapR ''backfill FSP catchup range'' r3"
        by (auto simp: wrapE_def split: prod.splits)
      from history_retained [OF B st2 h] r show ?thesis by (cases r3) auto
    next
      case False
      then have "unat tip + 1 \<le> unat i" by (simp add: word_le_nat_alt)
      moreover from rest False have "w' = w2" "r = Inr tip" by auto
      ultimately show ?thesis using st2 p(2) served_weaken [OF st2(2) order.refl] by auto
    qed
  qed
qed

end


subsection \<open>Lives in FSP mode\<close>

text \<open>The interface: the full mode's, with a registry and a binding that leave the tables alone.\<close>

locale fsp_mode = dropping_mode H D cfg db ethClient chain logs_at receipt_of tabs
  for H :: "('x, 'u) host" and D :: "'x deps" and cfg db ethClient chain logs_at receipt_of and tabs :: "'x \<Rightarrow> tables" +
  fixes registry :: "'x registry"
  assumes host_law: "e_db ci = db \<Longrightarrow> e_client ci = ethClient \<Longrightarrow> fsp_host D ci chain logs_at receipt_of tabs registry (h_new_fsm H)"

definition fsp_boundary :: "('x, 'u) host \<Rightarrow> 'x deps \<Rightarrow> Config \<Rightarrow> 'x fsmReader \<Rightarrow> ('x, u64) io" where
  "fsp_boundary H D cfg fsm =
     RetryWithMaxElapsed (h_retry_u64 H) (max_elapsed D) (fspRetentionBoundary (loop_fuel D) fsm (HistoryEpochs (Indexer cfg)))"

text \<open>
  A life ends in an attempt of startup that made its plan (a failed attempt that is retried counts as a life too:
  each makes its own plan), or at any moment of the two goroutines.
\<close>

inductive fsp_life ::
  "('x, 'u) host \<Rightarrow> 'x deps \<Rightarrow> Config \<Rightarrow> 'x store \<Rightarrow> 'x client \<Rightarrow> (nat \<Rightarrow> ext_block) \<Rightarrow> ('x \<Rightarrow> tables) \<Rightarrow> 'x registry \<Rightarrow>
   tables \<times> u64 \<Rightarrow> tables \<times> u64 \<Rightarrow> bool"
  for H D cfg db ethClient chain tabs registry where
  startup_cut:
    "NewEngine (lib D) cfg db ethClient (Some registry) = Inr ci \<Longrightarrow>
     startup_plan D ci registry (h_new_fsm H) w = (Inr (tip, full, anchor, states), w1) \<Longrightarrow>
     IndexStartup D ci registry (h_new_fsm H) (h_reward_logs H) w = (r, w2) \<Longrightarrow>
     fsp_life H D cfg db ethClient chain tabs registry (tabs (ext w), M) (tabs (ext w2), startup_mark chain states full M)"
| following_cut:
    "NewEngine (lib D) cfg db ethClient (Some registry) = Inr ci \<Longrightarrow>
     startup_plan D ci registry (h_new_fsm H) w = (Inr (tip, full, anchor, states), w1) \<Longrightarrow>
     IndexStartup D ci registry (h_new_fsm H) (h_reward_logs H) w = (Inr e, w2) \<Longrightarrow>
     ResolveByName registry fspFsmContractName w2 = (Inr a, w3) \<Longrightarrow> h_new_fsm H a ethClient = Inr fsm \<Longrightarrow>
     (live_step D ci e (fsp_boundary H D cfg fsm))\<^sup>*\<^sup>* (resumed (startup_mark chain states full M) w3) l \<Longrightarrow>
     fsp_life H D cfg db ethClient chain tabs registry (tabs (ext w), M) (l_tabs tabs l, l_highest l)"

inductive_cases fsp_lifeE: "fsp_life H D cfg db ethClient chain tabs registry (tb, M) (tb', M')"

context fsp_mode
begin

lemma new_engine:
  assumes "NewEngine (lib D) cfg db ethClient (Some registry) = Inr ci"
  shows "e_db ci = db" "e_client ci = ethClient" "0 < BatchSize (params ci)" "unat (BatchSize (params ci)) \<le> 2 ^ 62"
    "fsp_host D ci chain logs_at receipt_of tabs registry (h_new_fsm H)"
  using NewEngine_configured [OF assms] batch_law host_law
  by (auto simp: configured_engine_def applyIndexerDefaults_def word_neq_0_conv)

lemma fsp_following:
  assumes ci: "NewEngine (lib D) cfg db ethClient (Some registry) = Inr ci" and fsm: "h_new_fsm H a ethClient = Inr fsm"
  shows "following D ci chain logs_at receipt_of tabs (fsp_boundary H D cfg fsm)"
  unfolding fsp_boundary_def
  by (rule fsp_mode_following [OF fsp_host.axioms(1) [OF new_engine(5) [OF ci]] time_law fsp_host.binding_keeps [OF new_engine(5) [OF ci] fsm] start_retrier])

lemma fsp_life_retained:
  assumes "fsp_life H D cfg db ethClient chain tabs registry (tb, M) (tb', M')" "retained (lib D) chain M tb"
  shows "retained (lib D) chain M' tb'"
  using assms(1)
proof (rule fsp_lifeE)
  fix ci w tip full anchor states w1 r w2
  assume "tb = tabs (ext w)" "tb' = tabs (ext w2)" "M' = startup_mark chain states full M"
    and life: "NewEngine (lib D) cfg db ethClient (Some registry) = Inr ci"
    "startup_plan D ci registry (h_new_fsm H) w = (Inr (tip, full, anchor, states), w1)"
    "IndexStartup D ci registry (h_new_fsm H) (h_reward_logs H) w = (r, w2)"
  with fsp_host.startup_retained [OF new_engine(5,3,4) [OF life(1)] time_bound _ life(2,3)] assms(2) show ?thesis by simp
next
  fix ci w tip full anchor states w1 e w2 a w3 fsm l
  assume w: "tb = tabs (ext w)" "tb' = l_tabs tabs l" "M' = l_highest l"
    and life: "NewEngine (lib D) cfg db ethClient (Some registry) = Inr ci"
    "startup_plan D ci registry (h_new_fsm H) w = (Inr (tip, full, anchor, states), w1)"
    "IndexStartup D ci registry (h_new_fsm H) (h_reward_logs H) w = (Inr e, w2)"
    and a: "ResolveByName registry fspFsmContractName w2 = (Inr a, w3)" "h_new_fsm H a ethClient = Inr fsm"
    and l: "(live_step D ci e (fsp_boundary H D cfg fsm))\<^sup>*\<^sup>* (resumed (startup_mark chain states full M) w3) l"
  have same: "tabs (ext w3) = tabs (ext w2)"
    using keepsD [OF fsp_host.ResolveByName_keeps [OF new_engine(5) [OF life(1)]] a(1)] by blast
  have "retained (lib D) chain (startup_mark chain states full M) (tabs (ext w3)) \<and> unat e < 2 ^ 62 \<and>
      served 0 (lib D) chain (startup_mark chain states full M) (unat e + 1) (tabs (ext w3))"
    using fsp_host.startup_retained [OF new_engine(5,3,4) [OF life(1)] time_bound _ life(2,3)] assms(2) w(1)
    by (simp add: same)
  with following.live_reachable_retained [OF fsp_following [OF life(1) a(2)] l] w(2,3) show ?thesis by blast
qed

text \<open>Lives in either mode.\<close>

abbreviation life :: "tables \<times> u64 \<Rightarrow> tables \<times> u64 \<Rightarrow> bool" where
  "life \<equiv> sup (full_life H D cfg db ethClient chain tabs) (fsp_life H D cfg db ethClient chain tabs registry)"

lemma lives_retained:
  assumes "life\<^sup>*\<^sup>* (empty_tables, 0) (tb, M)"
  shows "retained (lib D) chain M tb"
  using assms
proof (induction rule: rtranclp_induct2)
  case refl
  show ?case by (rule empty_retained)
next
  case step
  then show ?case using full_life_retained fsp_life_retained by (auto elim!: sup2E)
qed

text \<open>A run of the FSP mode is a number of such lives.\<close>

lemma startup_run_life:
  assumes ci: "NewEngine (lib D) cfg db ethClient (Some registry) = Inr ci"
    and run: "Retry (h_retry_history H) (IndexStartup D ci registry (h_new_fsm H) (h_reward_logs H)) w = (r, w2)"
  defines "Life \<equiv> fsp_life H D cfg db ethClient chain tabs registry"
  shows "\<exists>M1 v. M \<le> M1 \<and> Life\<^sup>*\<^sup>* (tabs (ext w), M) (tabs (ext v), M1) \<and>
    (\<forall>e. r = Inr e \<longrightarrow> (\<exists>tip full anchor states v1. startup_plan D ci registry (h_new_fsm H) v = (Inr (tip, full, anchor, states), v1) \<and>
       IndexStartup D ci registry (h_new_fsm H) (h_reward_logs H) v = (Inr e, w2))) \<and>
    (\<forall>er. r = Inl er \<longrightarrow> tabs (ext v) = tabs (ext w2))"
proof -
  let ?start = "IndexStartup D ci registry (h_new_fsm H) (h_reward_logs H)"
  define I where "I = (\<lambda>v :: 'x world. \<exists>M1 \<ge> M. Life\<^sup>*\<^sup>* (tabs (ext w), M) (tabs (ext v), M1))"
  define Q where "Q = (\<lambda>e (v2 :: 'x world). \<exists>M1 v tip full anchor states v1. M \<le> M1 \<and> Life\<^sup>*\<^sup>* (tabs (ext w), M) (tabs (ext v), M1) \<and>
      startup_plan D ci registry (h_new_fsm H) v = (Inr (tip, full, anchor, states), v1) \<and> ?start v = (Inr e, v2))"
  have planned: "(\<exists>tip full anchor states v1. startup_plan D ci registry (h_new_fsm H) v = (Inr (tip, full, anchor, states), v1)) \<or>
      (\<exists>er. q = Inl er) \<and> tabs (ext v2) = tabs (ext v)" if "?start v = (q, v2)" for v q v2
  proof -
    obtain p v1 where p: "startup_plan D ci registry (h_new_fsm H) v = (p, v1)" by force
    show ?thesis
    proof (cases p)
      case (Inl e)
      have "tabs (ext v1) = tabs (ext v)" using keepsD [OF fsp_host.startup_plan_keeps [OF new_engine(5) [OF ci]] p] by blast
      with that p Inl show ?thesis by (auto simp: IndexStartup_def bindE_def)
    qed (use p in \<open>auto simp: split_paired_all\<close>)
  qed
  have retried: "triple I (Retry (h_retry_history H) ?start) Q (\<lambda>_. I)"
  proof (rule retrier.Retry_triple [OF history_retrier], rule tripleI)
    fix v e v2 assume "I v" and run: "?start v = (Inr e, v2)"
    with planned [OF run] show "Q e v2" unfolding I_def Q_def by blast
  next
    fix v er v2 assume "I v" and run: "?start v = (Inl er, v2)"
    then obtain M1 where M1: "M \<le> M1" "Life\<^sup>*\<^sup>* (tabs (ext w), M) (tabs (ext v), M1)" unfolding I_def by blast
    from planned [OF run] show "I v2"
    proof (elim disjE exE)
      fix tip full anchor states v1
      assume "startup_plan D ci registry (h_new_fsm H) v = (Inr (tip, full, anchor, states), v1)"
      from fsp_life.startup_cut [OF ci this run]
      have "Life (tabs (ext v), M1) (tabs (ext v2), startup_mark chain states full M1)" by (simp add: Life_def)
      with M1 startup_mark_above [of M1 chain states full] show ?thesis
        unfolding I_def by (meson order.trans rtranclp.rtrancl_into_rtrancl)
    qed (use M1 in \<open>auto simp: I_def\<close>)
  qed
  have start: "I w" unfolding I_def by blast
  show ?thesis
  proof (cases r)
    case (Inl er)
    with triple_Inl [OF retried start] run obtain M1 where "M \<le> M1" "Life\<^sup>*\<^sup>* (tabs (ext w), M) (tabs (ext w2), M1)"
      unfolding I_def by blast
    with Inl show ?thesis by (intro exI [of _ M1] exI [of _ w2]) simp
  next
    case (Inr e)
    with triple_Inr [OF retried start] run have "Q e w2" by blast
    with Inr show ?thesis unfolding Q_def by auto
  qed
qed

lemma fsp_run_life:
  assumes run: "RunIndexer H D cfg db ethClient registry w = (r, w')"
  shows "\<exists>M'. M \<le> M' \<and> (fsp_life H D cfg db ethClient chain tabs registry)\<^sup>*\<^sup>* (tabs (ext w), M) (tabs (ext w'), M')"
proof -
  let ?Life = "fsp_life H D cfg db ethClient chain tabs registry"
  show ?thesis
  proof (cases "NewEngine (lib D) cfg db ethClient (Some registry)")
    case (Inl e)
    with run have "w' = w" by (auto simp: RunIndexer_def bindE_def)
    then show ?thesis by blast
  next
    case ci: (Inr ci)
    let ?start = "IndexStartup D ci registry (h_new_fsm H) (h_reward_logs H)" and ?w = "w\<lparr>synced := False\<rparr>"
    obtain r2 w2 where h: "Retry (h_retry_history H) ?start ?w = (r2, w2)" by force
    from startup_run_life [OF ci h, of M] obtain M1 v where v: "M \<le> M1" "?Life\<^sup>*\<^sup>* (tabs (ext w), M) (tabs (ext v), M1)"
      "\<And>e. r2 = Inr e \<Longrightarrow> \<exists>tip full anchor states v1. startup_plan D ci registry (h_new_fsm H) v = (Inr (tip, full, anchor, states), v1) \<and>
         ?start v = (Inr e, w2)"
      "\<And>er. r2 = Inl er \<Longrightarrow> tabs (ext v) = tabs (ext w2)" by auto
    show ?thesis
    proof (cases r2)
      case (Inl er)
      with run ci h have "w' = w2" by (auto simp: RunIndexer_def SetSynced_def bindE_def wrapE_def)
      with v Inl show ?thesis by auto
    next
      case e: (Inr e)
      from v(3) [OF e] obtain tip full anchor states v1 where plan: "startup_plan D ci registry (h_new_fsm H) v = (Inr (tip, full, anchor, states), v1)"
        and start: "?start v = (Inr e, w2)" by blast
      let ?M = "startup_mark chain states full M1"
      have M: "M \<le> ?M" using v(1) startup_mark_above order.trans by blast
      have cut: "?Life\<^sup>*\<^sup>* (tabs (ext w), M) (tabs (ext w2), ?M)"
        using v(2) fsp_life.startup_cut [OF ci plan start] by (rule rtranclp.rtrancl_into_rtrancl)
      obtain ra w3 where a: "ResolveByName registry fspFsmContractName w2 = (ra, w3)" by force
      have same: "tabs (ext w3) = tabs (ext w2)" using keepsD [OF fsp_host.ResolveByName_keeps [OF new_engine(5) [OF ci]] a] by blast
      show ?thesis
      proof (cases "\<exists>addr fsm. ra = Inr addr \<and> h_new_fsm H addr ethClient = Inr fsm")
        case False
        then have "w' = w3"
          using run ci h e a new_engine(2) [OF ci]
          by (cases ra; cases "h_new_fsm H (projr ra) ethClient") (auto simp: RunIndexer_def SetSynced_def bindE_def wrapE_def)
        with cut same M show ?thesis by auto
      next
        case True
        then obtain addr fsm where addr: "ra = Inr addr" "h_new_fsm H addr ethClient = Inr fsm" by blast
        have "run_tail H D ci (fsp_boundary H D cfg fsm) True ''FSP Index continuous fatal error'' e w3 = (r, w')"
          using run ci h e a addr new_engine(1,2) [OF ci]
          by (simp add: RunIndexer_def run_tail_def fsp_boundary_def SetSynced_def bindE_def wrapE_def)
        from run_tail_reaches [OF continuous_retrier this, of ?M]
        obtain l where l: "(live_step D ci e (fsp_boundary H D cfg fsm))\<^sup>*\<^sup>* (resumed ?M w3) l" "l_world l = w'" unfolding reaches_def by blast
        from fsp_life.following_cut [where chain = chain and tabs = tabs, OF ci plan start a [unfolded addr(1)] addr(2) l(1)] l(2)
        have "?Life (tabs (ext v), M1) (tabs (ext w'), l_highest l)" by simp
        with v(2) have "?Life\<^sup>*\<^sup>* (tabs (ext w), M) (tabs (ext w'), l_highest l)" by (rule rtranclp.rtrancl_into_rtrancl)
        moreover have "M \<le> l_highest l" using highest_grows [OF l(1)] M by simp
        ultimately show ?thesis by blast
      qed
    qed
  qed
qed

end


subsection \<open>Properties of the lives\<close>

text \<open>The lives of a database, in either mode, from the empty one on.\<close>

definition lived ::
  "('x, 'u) host \<Rightarrow> 'x deps \<Rightarrow> Config \<Rightarrow> 'x store \<Rightarrow> 'x client \<Rightarrow> (nat \<Rightarrow> ext_block) \<Rightarrow> ('x \<Rightarrow> tables) \<Rightarrow> 'x registry \<Rightarrow>
   tables \<Rightarrow> u64 \<Rightarrow> bool" where
  "lived H D cfg db ethClient chain tabs registry tb M \<longleftrightarrow>
     (sup (full_life H D cfg db ethClient chain tabs) (fsp_life H D cfg db ethClient chain tabs registry))\<^sup>*\<^sup>* (empty_tables, 0) (tb, M)"

lemma lived_retained:
  "fsp_mode H D cfg db ethClient chain logs_at receipt_of tabs registry \<Longrightarrow>
   lived H D cfg db ethClient chain tabs registry tb M \<Longrightarrow> retained (lib D) chain M tb"
  unfolding lived_def by (rule fsp_mode.lives_retained)

lemma lived_further:
  assumes "lived H D cfg db ethClient chain tabs registry tb M"
    and "(full_life H D cfg db ethClient chain tabs)\<^sup>*\<^sup>* (tb, M) (tb', M') \<or>
         (fsp_life H D cfg db ethClient chain tabs registry)\<^sup>*\<^sup>* (tb, M) (tb', M')"
  shows "lived H D cfg db ethClient chain tabs registry tb' M'"
proof -
  have "(sup (full_life H D cfg db ethClient chain tabs) (fsp_life H D cfg db ethClient chain tabs registry))\<^sup>*\<^sup>* (tb, M) (tb', M')"
    using assms(2) rtranclp_mono [of "full_life H D cfg db ethClient chain tabs"] rtranclp_mono [of "fsp_life H D cfg db ethClient chain tabs registry"]
    by (meson inf_sup_ord(3,4) predicate2D)
  with assms(1) show ?thesis unfolding lived_def by (rule rtranclp_trans)
qed

text \<open>What a mark can be: nothing yet, the time above the blocks below a start block, or the boundary of a drop.\<close>

definition marked :: "('x, 'u) host \<Rightarrow> 'x deps \<Rightarrow> Config \<Rightarrow> 'x client \<Rightarrow> (nat \<Rightarrow> ext_block) \<Rightarrow> u64 \<Rightarrow> bool" where
  "marked H D cfg ethClient chain M \<longleftrightarrow>
     M = 0 \<or> (\<exists>s. M = fresh_mark chain s) \<or>
     (\<exists>historyDrop x x'. TipAgeBoundary (retry_block D) (max_elapsed D) ethClient historyDrop x = (Inr M, x')) \<or>
     (\<exists>fsm x x'. fsp_boundary H D cfg fsm x = (Inr M, x'))"

lemma mark_after_marked: "marked H D cfg ethClient chain M \<Longrightarrow> marked H D cfg ethClient chain (mark_after chain tb s M)"
  by (auto simp: mark_after_def max_def marked_def)

lemma startup_mark_marked: "marked H D cfg ethClient chain M \<Longrightarrow> marked H D cfg ethClient chain (startup_mark chain states full M)"
  by (auto simp: startup_mark_def max_def marked_def)

lemma live_marked:
  assumes "(live_step D' ci e bf)\<^sup>*\<^sup>* (resumed M w) l" "marked H D cfg ethClient chain M"
    and "\<And>x b x'. bf x = (Inr b, x') \<Longrightarrow> marked H D cfg ethClient chain b"
  shows "marked H D cfg ethClient chain (l_highest l)"
  using highest_origin [OF assms(1)] assms(2,3) by auto

lemma lived_marked:
  assumes "lived H D cfg db ethClient chain tabs registry tb M"
  shows "marked H D cfg ethClient chain M"
  using assms unfolding lived_def
proof (induction rule: rtranclp_induct2)
  case refl
  show ?case by (simp add: marked_def)
next
  case (step tb M tb' M')
  note mark = step.IH
  from step.hyps(2) show ?case
  proof (elim sup2E full_lifeE fsp_lifeE)
    fix s and w :: "'a world"
    assume "M' = mark_after chain (tabs (ext w)) s M"
    with mark show ?thesis by (simp add: mark_after_marked)
  next
    fix historyDrop s ci w e w2 l
    assume "M' = l_highest l" "(live_step D ci e (TipAgeBoundary (retry_block D) (max_elapsed D) ethClient historyDrop))\<^sup>*\<^sup>*
      (resumed (mark_after chain (tabs (ext w)) s M) w2) l"
    with live_marked [OF _ mark_after_marked [OF mark]] show ?thesis by (metis marked_def)
  next
    fix states full
    assume "M' = startup_mark chain states full M"
    with mark show ?thesis by (simp add: startup_mark_marked)
  next
    fix ci e fsm states full w3 l
    assume "M' = l_highest l" "(live_step D ci e (fsp_boundary H D cfg fsm))\<^sup>*\<^sup>* (resumed (startup_mark chain states full M) w3) l"
    with live_marked [OF _ startup_mark_marked [OF mark]] show ?thesis by (metis marked_def)
  qed
qed

text \<open>
  C3: the history drop survives restarts. From the empty database on, over any number of lives of the
  process, in full mode with any history drop and start index or in FSP mode, each killed in its history pass or
  startup or at any moment of the two goroutines: every row is the chain's block, and every block up to the
  indexed one, and up to the highest stored one, is stored, unless it is older than the mark. The mark is the
  highest boundary of a drop so far, or the time at which a life started anew, above what is stored: it is 0, the time
  above the blocks below a start block, or a boundary that a drop computed.
\<close>

theorem lives_with_drop_safe:
  assumes mode: "fsp_mode H D cfg db ethClient chain logs_at receipt_of tabs registry"
    and lives: "lived H D cfg db ethClient chain tabs registry tb M"
  shows "chain_rows (lib D) chain tb \<and> (\<forall>n. reached tb n \<longrightarrow> M \<le> bk_time (chain n) \<longrightarrow> present (lib D) chain tb n) \<and>
    marked H D cfg ethClient chain M"
  using lived_retained [OF mode lives] lived_marked [OF lives] by (simp add: retained_def)

text \<open>
  The program's two modes are such lives: whatever a run of \<^verbatim>\<open>runIndexer\<close> (after \<^verbatim>\<open>getStartIndex\<close>) or of
  \<^verbatim>\<open>fsp.RunIndexer\<close> does on a database that lives left, with the drop's completed iterations,
  failed and retried attempts and an error anywhere, the database that it leaves is again one that lives leave, with
  a mark that has not fallen; so what it has reached and is not older than this mark is stored.
\<close>

theorem runs_are_lives:
  assumes mode: "fsp_mode H D cfg db ethClient chain logs_at receipt_of tabs registry"
    and lives: "lived H D cfg db ethClient chain tabs registry (tabs (ext w)) M"
    and run: "index_full H D (starting_at cfg k) db ethClient resolver historyDrop w = (r, w') \<or>
      RunIndexer H D cfg db ethClient registry w = (r, w')"
  shows "\<exists>M'. M \<le> M' \<and> lived H D cfg db ethClient chain tabs registry (tabs (ext w')) M' \<and>
    (\<forall>n. reached (tabs (ext w')) n \<longrightarrow> M' \<le> bk_time (chain n) \<longrightarrow> present (lib D) chain (tabs (ext w')) n)"
proof -
  obtain M' where M': "M \<le> M'" "(full_life H D cfg db ethClient chain tabs)\<^sup>*\<^sup>* (tabs (ext w), M) (tabs (ext w'), M') \<or>
      (fsp_life H D cfg db ethClient chain tabs registry)\<^sup>*\<^sup>* (tabs (ext w), M) (tabs (ext w'), M')"
    using run dropping_mode.full_run_life [OF fsp_mode.axioms(1) [OF mode]] fsp_mode.fsp_run_life [OF mode] by blast
  note lived = lived_further [OF lives M'(2)]
  with M'(1) lived_retained [OF mode lived] show ?thesis unfolding retained_def by blast
qed



subsection \<open>On the concrete world\<close>

text \<open>
  Blocks a second apart, and a contract that has recorded an epoch. The first life indexes the blocks 1 to 5 and is
  killed; in the second, at head 9, blocks older than two seconds are dropped, and it is killed after the
  deletion and before the floor is raised; the third ends the drop.
\<close>

definition life_host :: "(mem, string) host" where
  "life_host = mem_host\<lparr>h_new_fsm := mem_binding third_epoch third_random 3\<rparr>"

definition life_engine :: "u64 \<Rightarrow> mem engine" where
  "life_engine s =
     (case NewEngine plain_lib (starting_at second_config s) mem_store (e_client second_engine) (Some (mem_registry (\<lambda>_. 5))) of
        Inr ci \<Rightarrow> ci | Inl _ \<Rightarrow> second_engine)"

definition life_start :: "u64 \<Rightarrow> mem world \<Rightarrow> (go_error + u64) \<times> mem world" where
  "life_start dropped = liftX (getStartIndex life_host (mem_deps 1 5) mem_store (e_client second_engine) (starting_at second_config 1) dropped)"

definition life_history :: "u64 \<Rightarrow> mem world \<Rightarrow> (go_error + u64) \<times> mem world" where
  "life_history s = Retry (h_retry_history life_host) (IndexHistory (mem_deps 1 5) (life_engine s) s)"

text \<open>The tables a life finds, when the head is at 9.\<close>

definition head_nine :: "mem world \<Rightarrow> mem world" where
  "head_nine w = (fresh_world 9)\<lparr>ext := (ext (fresh_world 9))\<lparr>m_tabs := m_tabs (ext w)\<rparr>\<rparr>"

definition first_life :: "mem world" where
  "first_life = snd (life_history 1 (snd (life_start 0 (fresh_world 5))))"

definition second_start :: "mem world" where
  "second_start = snd (life_history 6 (snd (life_start 2 (head_nine first_life))))"

definition second_life :: "bool list \<Rightarrow> mem live" where
  "second_life turns = fold (live_turn (mem_deps 1 5) (life_engine 6) 9 second_boundary) turns (resumed 1 second_start)"

lemma engines: "NewEngine plain_lib (starting_at second_config s) mem_store (e_client second_engine) (Some (mem_registry (\<lambda>_. 5))) = Inr (life_engine s)"
  by (simp add: life_engine_def NewEngine_def starting_at_def second_config_def defaultConfig_def buildTransactionPolicies_def
      validateCollectLogs_def bindR_def)

lemma first_run:
  "(fst (life_start 0 (fresh_world 5)), fst (life_history 1 (snd (life_start 0 (fresh_world 5)))),
    map b_number (tb_blocks (m_tabs (ext first_life)))) = (Inr 1, Inr 5, [1, 2, 3, 4, 5])"
  by code_simp

lemma second_run:
  "(fst (life_start 2 (head_nine first_life)), fst (life_history 6 (snd (life_start 2 (head_nine first_life)))),
    map b_number (tb_blocks (m_tabs (ext second_start))), map_option Index (tb_states (m_tabs (ext second_start)) BlockFloor)) =
   (Inr 6, Inr 9, [1, 2, 3, 4, 5, 6, 7, 8, 9], Some 1)"
  by code_simp

lemma cut_run: "l_summary (second_life (take 14 alternate)) = ([7, 8, 9], 1, 9, 7, False, ReadingFloor BlockPass)"
  by code_simp

lemma settled_run: "l_summary (second_life alternate) = ([7, 8, 9], 7, 9, 7, True, Idle)"
  by code_simp

interpretation life_mode:
  fsp_mode life_host "mem_deps 1 5" second_config mem_store "e_client second_engine" seconds "make_logs (\<lambda>_. [])"
    "\<lambda>_. \<lparr>rc_status = 1, rc_logs = []\<rparr>" m_tabs "mem_registry (\<lambda>_. 5)"
proof (intro fsp_mode.intro fsp_mode_axioms.intro dropping_mode.intro dropping_mode_axioms.intro)
  show "full_mode life_host (mem_deps 1 5) second_config mem_store (e_client second_engine) seconds (make_logs (\<lambda>_. []))
      (\<lambda>_. \<lparr>rc_status = 1, rc_logs = []\<rparr>) m_tabs 0"
    by (rule full_mode.intro) (simp_all add: second_indexing life_host_def mem_host_def bounded.retrier_axioms second_config_def)
  show "retrier (h_retry_u64 life_host)" by (simp add: life_host_def mem_host_def bounded.retrier_axioms)
  show "bk_time (seconds j) \<le> bk_time (seconds k)" if "j \<le> k" "k \<le> 2 ^ 62" for j k
    using that by (simp add: seconds_def make_chain_def word_le_nat_alt unat_of_nat)
  show "bk_time (seconds k) < 18446744073709551615" if "k < 18446744073709551615" for k
    using that by (simp add: seconds_def make_chain_def word_less_nat_alt unat_of_nat)
  show "fsp_host (mem_deps 1 5) ci seconds (make_logs (\<lambda>_. [])) (\<lambda>_. \<lparr>rc_status = 1, rc_logs = []\<rparr>) m_tabs
      (mem_registry (\<lambda>_. 5)) (h_new_fsm life_host)" if "e_db ci = mem_store" "e_client ci = e_client second_engine" for ci
    by (intro fsp_host.intro fsp_host_axioms.intro second_indexing that)
      (auto simp: mem_registry_def [abs_def] life_host_def mem_binding_def mem_fsm.fsm_reader_axioms intro!: keeps_faulty)
qed

text \<open>The hypotheses of the properties on this world.\<close>

abbreviation seconds_lived :: "tables \<Rightarrow> u64 \<Rightarrow> bool" where
  "seconds_lived \<equiv> lived life_host (mem_deps 1 5) second_config mem_store (e_client second_engine) seconds m_tabs (mem_registry (\<lambda>_. 5))"

lemma lib_mem_deps: "lib (mem_deps k n) = plain_lib"
  by (simp add: mem_deps_def)

lemma life_beginsI:
  assumes "fst (life_start dropped w) = Inr s"
  shows "life_begins life_host (mem_deps 1 5) (starting_at second_config 1) mem_store (e_client second_engine) (mem_registry (\<lambda>_. 5)) dropped
     w s (life_engine s) (snd (life_start dropped w))"
proof -
  have "life_start dropped w = (Inr s, snd (life_start dropped w))" using assms by (simp add: prod_eq_iff)
  moreover have "starting_at (starting_at second_config 1) s = starting_at second_config s" by (simp add: starting_at_def)
  ultimately show ?thesis using engines [of s] by (simp only: life_begins_def life_start_def lib_mem_deps)
qed

lemma life_historyI:
  "fst (life_history s w) = Inr e \<Longrightarrow>
   Retry (h_retry_history life_host) (IndexHistory (mem_deps 1 5) (life_engine s) s) w = (Inr e, snd (life_history s w))"
  unfolding life_history_def by (simp only: prod_eq_iff fst_conv snd_conv)

lemma first_lived: "seconds_lived (m_tabs (ext first_life)) 1"
proof -
  let ?w = "fresh_world 5" and ?w1 = "snd (life_start 0 (fresh_world 5))"
  have ran: "fst (life_start 0 ?w) = Inr 1" "fst (life_history 1 ?w1) = Inr 5" using first_run by simp_all
  note starts = life_beginsI [OF ran(1)] and hist = life_historyI [OF ran(2), folded first_life_def]
  have mark: "mark_after seconds (m_tabs (ext ?w)) 1 0 = 1"
    by (simp add: empty_world empty_tables_def mark_after_def fresh_mark_def seconds_def make_chain_def)
  have "full_life life_host (mem_deps 1 5) second_config mem_store (e_client second_engine) seconds m_tabs
      (m_tabs (ext ?w), 0) (l_tabs m_tabs (resumed 1 first_life), l_highest (resumed 1 first_life))"
    by (rule full_life.live_cut [where tabs = m_tabs and chain = seconds and M = 0, OF starts hist]) (simp add: mark)
  then show ?thesis unfolding lived_def by (intro r_into_rtranclp sup2I1) (simp add: empty_world)
qed

lemma second_begins:
  "life_begins life_host (mem_deps 1 5) (starting_at second_config 1) mem_store (e_client second_engine) (mem_registry (\<lambda>_. 5)) 2
     (head_nine first_life) 6 (life_engine 6) (snd (life_start 2 (head_nine first_life)))"
  "Retry (h_retry_history life_host) (IndexHistory (mem_deps 1 5) (life_engine 6) 6) (snd (life_start 2 (head_nine first_life))) =
     (Inr 9, second_start)"
  "m_tabs (ext (head_nine first_life)) = m_tabs (ext first_life)"
  "mark_after seconds (m_tabs (ext (head_nine first_life))) 6 1 = 1"
proof -
  show same: "m_tabs (ext (head_nine first_life)) = m_tabs (ext first_life)" by (simp add: head_nine_def)
  have "tb_blocks (m_tabs (ext first_life)) \<noteq> []" using first_run by auto
  then show "mark_after seconds (m_tabs (ext (head_nine first_life))) 6 1 = 1" by (simp add: mark_after_def same)
  have ran: "fst (life_start 2 (head_nine first_life)) = Inr 6"
    "fst (life_history 6 (snd (life_start 2 (head_nine first_life)))) = Inr 9" using second_run by simp_all
  show "life_begins life_host (mem_deps 1 5) (starting_at second_config 1) mem_store (e_client second_engine) (mem_registry (\<lambda>_. 5)) 2
     (head_nine first_life) 6 (life_engine 6) (snd (life_start 2 (head_nine first_life)))"
    by (rule life_beginsI [OF ran(1)])
  show "Retry (h_retry_history life_host) (IndexHistory (mem_deps 1 5) (life_engine 6) 6) (snd (life_start 2 (head_nine first_life))) =
     (Inr 9, second_start)" unfolding second_start_def by (rule life_historyI [OF ran(2)])
qed

lemma second_turns:
  "(live_step (mem_deps 1 5) (life_engine 6) 9
      (TipAgeBoundary (retry_block (mem_deps 1 5)) (max_elapsed (mem_deps 1 5)) (e_client second_engine) 2))\<^sup>*\<^sup>*
     (resumed (mark_after seconds (m_tabs (ext (head_nine first_life))) 6 1) second_start) (second_life turns)"
  unfolding second_life_def second_begins(4) by (fold second_boundary_def) (rule live_turns_reach)

theorem lives_with_drop_safe_witness:
  "present plain_lib seconds (m_tabs (ext (l_world (second_life (take 14 alternate))))) 8"
proof -
  let ?l = "second_life (take 14 alternate)"
  have "full_life life_host (mem_deps 1 5) second_config mem_store (e_client second_engine) seconds m_tabs
      (m_tabs (ext (head_nine first_life)), 1) (l_tabs m_tabs ?l, l_highest ?l)"
    by (rule full_life.live_cut [where tabs = m_tabs and chain = seconds, OF second_begins(1,2) second_turns])
  then have lived: "seconds_lived (l_tabs m_tabs ?l) (l_highest ?l)"
    using lived_further [OF first_lived] by (simp add: second_begins(3) r_into_rtranclp)
  have l: "l_highest ?l = 7" "map b_number (tb_blocks (l_tabs m_tabs ?l)) = [7, 8, 9]"
    using cut_run by (simp_all add: l_summary_def Let_def)
  have "(9::u64) \<in> set (map b_number (tb_blocks (l_tabs m_tabs ?l)))" unfolding l(2) by simp
  then obtain b where "b \<in> set (tb_blocks (l_tabs m_tabs ?l))" "b_number b = 9" by auto
  then have "reached (l_tabs m_tabs ?l) 8" by (force simp: reached_def)
  then show ?thesis
    using lives_with_drop_safe [OF life_mode.fsp_mode_axioms lived] l(1) by (simp add: seconds_def make_chain_def)
qed

theorem runs_are_lives_witness:
  "\<exists>M'. 1 \<le> M' \<and> seconds_lived (m_tabs (ext (snd (RunIndexer life_host (mem_deps 1 5) second_config mem_store (e_client second_engine)
     (mem_registry (\<lambda>_. 5)) (head_nine first_life))))) M'"
proof -
  obtain r w' where run: "RunIndexer life_host (mem_deps 1 5) second_config mem_store (e_client second_engine)
      (mem_registry (\<lambda>_. 5)) (head_nine first_life) = (r, w')" by force
  have "seconds_lived (m_tabs (ext (head_nine first_life))) 1" using first_lived by (simp add: second_begins(3))
  from runs_are_lives [OF life_mode.fsp_mode_axioms this disjI2 [OF run]] run show ?thesis by auto
qed


end
