(* ===== verification/Program.thy ===== *)
theory Program
  imports Fsp_Lives
begin

text \<open>
  The whole program: \<^verbatim>\<open>run\<close> builds the configuration, dials the node, resolves names, connects to the
  database and starts a mode. Started any number of times, with any configurations of one database and one chain,
  it does nothing that the lives of \<open>Fsp_Lives\<close> do not.
\<close>

subsection \<open>The start of the program\<close>

type_synonym 'x started = "Config \<times> 'x deps \<times> 'x client \<times> 'x registry \<times> 'x store \<times> int"

text \<open>What \<^verbatim>\<open>run\<close> does before it starts a mode, and the mode.\<close>

definition run_setup :: "('x, 'u) host \<Rightarrow> ('x world, 'x started) io" where
  "run_setup H =
     bindE (liftR (BuildConfig (h_reward_logs H) (h_decode H) (h_env_order H) (h_env H))) (\<lambda>cfg.
     let D = configured_deps H cfg in
     bindE (wrapE ''Invalid node URL in config''
              (liftR (FullNodeURL (h_url_Parse H) (h_set_query H) (Chain cfg)))) (\<lambda>nodeURL.
     bindE (wrapE ''Could not connect to the RPC nodes''
              (liftR (DialRPCNode (h_avx_dial H) (h_eth_dial H) (h_nil_rpc H) (h_ctx_err H)
                        (h_url_String H nodeURL) (CfgChainType (Chain cfg)) (RpcConcurrency (Indexer cfg))))) (\<lambda>ethClient.
     bindE (wrapE ''Failed to initialize contract registry resolver''
              (NewContractResolver (lib D) (h_bind H) ethClient)) (\<lambda>resolver.
     bindE (wrapE ''Failed to resolve configured contract addresses''
              (ResolveContractAddresses (lib D) resolver cfg)) (\<lambda>cfg.
     bindE (wrapE ''Database connect and initialize errors''
              (ConnectAndInitialize (h_gorm_Open H) (DB cfg))) (\<lambda>db.
     bindE (SetSynced False) (\<lambda>_.
     bindE (wrapE ''failed to get chain ID'' (liftX (Client_ChainID ethClient))) (\<lambda>chainID.
       ret (cfg, D, ethClient, resolver, db, chainID)))))))))"

definition run_mode :: "('x, 'u) host \<Rightarrow> 'x started \<Rightarrow> ('x world, unit) io" where
  "run_mode H = (\<lambda>(cfg, D, ethClient, resolver, db, chainID).
     if IsFspMode (Indexer cfg) then RunIndexer H D cfg db ethClient resolver
     else
       bindE (wrapE ''Failed to get history drop configuration'' (liftR (GetHistoryDrop (DB cfg) chainID))) (\<lambda>historyDrop.
         index_full H D cfg db ethClient resolver historyDrop))"

lemma run_split: "run H = bindE (run_setup H) (run_mode H)"
  unfolding run_def run_setup_def Let_def bindE_assoc bindE_ret run_mode_def prod.case ..

subsection \<open>The configuration\<close>

lemma envOverride_kept: "Indexer (envOverride e c v) = Indexer c \<and> DropTableAtStart (DB (envOverride e c v)) = DropTableAtStart (DB c)"
  by (cases e) (auto split: sum.split)

lemma applyEnvOverrides_kept:
  "Indexer (applyEnvOverrides order env c) = Indexer c \<and>
   DropTableAtStart (DB (applyEnvOverrides order env c)) = DropTableAtStart (DB c)"
  unfolding applyEnvOverrides_def
  by (induction order arbitrary: c) (auto simp: envOverride_kept split: option.split)

lemma BuildConfig_kept:
  assumes "BuildConfig rewardLogs decode order env = Inr cfg"
  shows "\<exists>c keys. decode defaultConfig = Inr (c, keys) \<and> DropTableAtStart (DB cfg) = DropTableAtStart (DB c) \<and>
    (BatchSize (Indexer cfg) = BatchSize (Indexer c) \<or> BatchSize (Indexer cfg) = defaultBatchSize)"
proof -
  from assms obtain c keys ind where c: "decode defaultConfig = Inr (c, keys)"
    and ind: "normalizeIndexerConfig rewardLogs (Indexer (applyEnvOverrides order env c)) = Inr ind"
    and cfg: "cfg = (applyEnvOverrides order env c)\<lparr>Indexer := ind\<rparr>"
    by (auto simp: BuildConfig_def Let_def parseConfigFile_def split: prod.splits if_splits)
  have "BatchSize ind = BatchSize (Indexer c) \<or> BatchSize ind = defaultBatchSize"
    using ind applyEnvOverrides_kept [of order env c]
    by (auto simp: normalizeIndexerConfig_def Let_def split: if_splits prod.splits)
  with c cfg applyEnvOverrides_kept [of order env c] show ?thesis by auto
qed

lemma ResolveContractAddresses_kept:
  "ResolveContractAddresses L registry cfg w = (Inr cfg', w') \<Longrightarrow>
   DB cfg' = DB cfg \<and> BatchSize (Indexer cfg') = BatchSize (Indexer cfg)"
  by (auto simp: ResolveContractAddresses_def Let_def bindE_Inr_iff)

lemma starting_where_configured: "starting_at cfg (StartIndex (Indexer cfg)) = cfg"
  by (simp add: starting_at_def)

subsection \<open>Starting the program\<close>

text \<open>
  The interface of a host: whatever node is dialed answers about one chain, whatever database is opened
  keeps the laws of the statements, the contracts leave the tables alone, and a retried call is a number
  of attempts. The configuration does not ask to drop the tables at the start.
\<close>

locale program = database_driver "h_gorm_Open H" tabs +
  rb: retrier "retry_block (h_deps H)" + rh: retrier "retry_header (h_deps H)" +
  rr: retrier "retry_receipt (h_deps H)" + rl: retrier "retry_logs (h_deps H)" +
  ru: retrier "h_retry_u64 H" + rs: retrier "h_retry_history H" + rc: retrier "h_retry_continuous H"
  for H :: "('x, 'u) host" and chain logs_at receipt_of and tabs :: "'x \<Rightarrow> tables" +
  assumes node_law:
      "DialRPCNode (h_avx_dial H) (h_eth_dial H) (h_nil_rpc H) (h_ctx_err H) url chainType slots = Inr client \<Longrightarrow>
       canonical_node client chain logs_at receipt_of tabs"
    and lib_law: "hash_hex_law (lib (h_deps H))"
    and schedule_law: "fair (h_deps H)"
    and distinct_law: "hashes_distinct chain"
    and decoded_law: "h_decode H c = Inr (cfg, keys) \<Longrightarrow>
      unat (BatchSize (Indexer cfg)) \<le> 2 ^ 62 \<and> \<not> DropTableAtStart (DB cfg)"
    and call_law: "keeps (\<lambda>x. tabs x = v) (NewBoundContract (h_bind H) a parsed client opts m args)"
    and fsm_law: "h_new_fsm H a client = Inr fsm \<Longrightarrow> fsm_reader fsm tabs"
    and time_law: "j \<le> k \<Longrightarrow> k \<le> 2 ^ 62 \<Longrightarrow> bk_time (chain j) \<le> bk_time (chain k)"
    and time_bound: "k < 18446744073709551615 \<Longrightarrow> bk_time (chain k) < 18446744073709551615"
begin

lemma deps_fields [simp]:
  "retry_block (configured_deps H cfg) = retry_block (h_deps H)" "retry_header (configured_deps H cfg) = retry_header (h_deps H)"
  "retry_receipt (configured_deps H cfg) = retry_receipt (h_deps H)" "retry_logs (configured_deps H cfg) = retry_logs (h_deps H)"
  "lib (configured_deps H cfg) = lib (h_deps H)" "fair (configured_deps H cfg) \<longleftrightarrow> fair (h_deps H)"
  by (simp_all add: configured_deps_def fair_def)

lemma dialed_mode:
  assumes client: "DialRPCNode (h_avx_dial H) (h_eth_dial H) (h_nil_rpc H) (h_ctx_err H) url chainType slots = Inr client"
    and db: "relational_store db tabs" and batch: "unat (BatchSize (Indexer cfg)) \<le> 2 ^ 62"
    and reg: "\<And>v name. keeps (\<lambda>x. tabs x = v) (registry name)"
  shows "fsp_mode H (configured_deps H cfg0) cfg db client chain logs_at receipt_of tabs registry"
proof -
  have ix: "indexing (configured_deps H cfg0) ci chain logs_at receipt_of tabs" if "e_db ci = db" "e_client ci = client" for ci
    using node_law [OF client] db that
    by (intro indexing.intro indexing_axioms.intro indexer.intro)
      (simp_all add: lib_law schedule_law distinct_law rb.retrier_axioms rh.retrier_axioms rr.retrier_axioms rl.retrier_axioms)
  have host: "fsp_host (configured_deps H cfg0) ci chain logs_at receipt_of tabs registry (h_new_fsm H)"
    if "e_db ci = db" "e_client ci = client" for ci
    by (intro fsp_host.intro fsp_host_axioms.intro ix that reg) (rule fsm_law)
  show ?thesis
    by (intro fsp_mode.intro fsp_mode_axioms.intro dropping_mode.intro dropping_mode_axioms.intro full_mode.intro host)
      (use batch in \<open>simp_all add: ix time_law time_bound ru.retrier_axioms rs.retrier_axioms rc.retrier_axioms\<close>)
qed

lemma resolver_keeps:
  assumes "NewContractResolver L (h_bind H) client w = (r, w')"
  shows "tabs (ext w') = tabs (ext w) \<and> (\<forall>registry v name. r = Inr registry \<longrightarrow> keeps (\<lambda>x. tabs x = v) (registry name))"
proof -
  have "keeps (\<lambda>x. tabs x = v) (GetContractAddressByName (h_bind H) \<lparr>crc_contract = NewBoundContract (h_bind H) a parsed client\<rparr> opts name)"
    for v a parsed opts name
    unfolding GetContractAddressByName_def ContractRegistryCaller.simps by (intro keeps_bind call_law triple_liftR) simp_all
  with assms show ?thesis
    by (auto simp: NewContractResolver_def NewContractRegistryCaller_def bindContractRegistry_def bindE_def wrapE_def
        split: sum.splits)
qed

lemma addresses_keep:
  assumes "\<And>v name. keeps (\<lambda>x. tabs x = v) (registry name)"
  shows "keeps (\<lambda>w. tabs (ext w) = v) (ResolveContractAddresses L registry cfg)"
  unfolding ResolveContractAddresses_def resolve_transaction_def resolve_log_def ResolveAllByName_def Let_def
  by (intro keeps_bind keeps_foldE triple_if triple_ret ResolveByName_keeps_tabs assms)

lemma connect_keeps:
  assumes drop: "\<not> DropTableAtStart cfg" and run: "ConnectAndInitialize (h_gorm_Open H) cfg w = (r, w')"
  shows "tabs (ext w') = tabs (ext w) \<and> (\<forall>db. r = Inr db \<longrightarrow> relational_store db tabs)"
proof -
  obtain r1 x1 where c: "connect (h_gorm_Open H) cfg (ext w) = (r1, x1)" by force
  have t1: "tabs x1 = tabs (ext w)"
    using c open_keeps [THEN keepsD] by (auto simp: connect_def Let_def bindE_def split: prod.splits sum.splits)
  show ?thesis
  proof (cases r1)
    case (Inl e)
    with run c t1 show ?thesis by (auto simp: ConnectAndInitialize_def bindE_def wrapE_def liftX_def)
  next
    case (Inr db)
    have db: "relational_store db tabs" using connect_Inr c Inr by blast
    have st: "keeps (\<lambda>w. tabs (ext w) = v) (storeTransactionID db)" for v
      using readsD [OF relational_store.last_tx_law [OF db]]
      by (auto simp: triple_def storeTransactionID_def liftX_def split: prod.splits sum.splits)
    have mig: "keeps (\<lambda>w. tabs (ext w) = v) (liftX (s_auto_migrate db))" for v
      by (rule liftX_triple) (auto simp: triple_def dest: relational_store.auto_migrate_law [OF db])
    have tail: "keeps (\<lambda>w. tabs (ext w) = v) (bindE (wrapE m (liftX (s_auto_migrate db))) (\<lambda>_. bindE (storeTransactionID db) (\<lambda>_. ret db)))" for v m
      by (intro keeps_bind keeps_wrap st mig triple_ret) simp_all
    have go: "bindE (wrapE ''ConnectAndInitialize: AutoMigrate'' (liftX (s_auto_migrate db))) (\<lambda>_. bindE (storeTransactionID db) (\<lambda>_. ret db))
        (w\<lparr>ext := x1\<rparr>) = (r, w')"
      using run c Inr drop by (simp add: ConnectAndInitialize_def bindE_def wrapE_def liftX_def)
    have "tabs (ext w') = tabs x1" using keepsD [OF tail go, of "tabs x1"] by simp
    moreover have "relational_store d tabs" if "r = Inr d" for d using go that db by (auto simp: bindE_Inr_iff)
    ultimately show ?thesis using t1 db by simp
  qed
qed

lemma setup_keeps:
  assumes run: "run_setup H w = (r, w')"
  shows "tabs (ext w') = tabs (ext w) \<and>
    (\<forall>cfg D client registry db chainID. r = Inr (cfg, D, client, registry, db, chainID) \<longrightarrow>
       fsp_mode H D cfg db client chain logs_at receipt_of tabs registry \<and> lib D = lib (h_deps H))"
proof -
  let ?build = "BuildConfig (h_reward_logs H) (h_decode H) (h_env_order H) (h_env H)"
  let ?url = "\<lambda>cfg. FullNodeURL (h_url_Parse H) (h_set_query H) (Chain cfg)"
  let ?dial = "\<lambda>cfg u. DialRPCNode (h_avx_dial H) (h_eth_dial H) (h_nil_rpc H) (h_ctx_err H) (h_url_String H u) (CfgChainType (Chain cfg))
    (RpcConcurrency (Indexer cfg))"
  show ?thesis
  proof (cases "\<exists>cfg u client. ?build = Inr cfg \<and> ?url cfg = Inr u \<and> ?dial cfg u = Inr client")
    case False
    then have "w' = w \<and> (\<exists>e. r = Inl e)"
      using run by (auto simp: run_setup_def Let_def bindE_def wrapE_def split: sum.splits)
    then show ?thesis by auto
  next
    case True
    then obtain cfg u client where pre: "?build = Inr cfg" "?url cfg = Inr u" "?dial cfg u = Inr client" by blast
    let ?D = "configured_deps H cfg"
    obtain r1 w1 where res: "NewContractResolver (lib (h_deps H)) (h_bind H) client w = (r1, w1)" by force
    note kept1 = resolver_keeps [OF res]
    show ?thesis
    proof (cases r1)
      case (Inl e)
      with run pre res kept1 show ?thesis by (auto simp: run_setup_def Let_def bindE_def wrapE_def)
    next
      case (Inr registry)
      note reg = kept1 [THEN conjunct2, rule_format, OF Inr]
      obtain r2 w2 where addr: "ResolveContractAddresses (lib (h_deps H)) registry cfg w1 = (r2, w2)" by force
      have kept2: "tabs (ext w2) = tabs (ext w)" using keepsD [OF addresses_keep [OF reg] addr] kept1 by blast
      show ?thesis
      proof (cases r2)
        case (Inl e)
        with run pre res \<open>r1 = Inr registry\<close> addr kept2 show ?thesis by (auto simp: run_setup_def Let_def bindE_def wrapE_def)
      next
        case (Inr cfg')
        note built = BuildConfig_kept [OF pre(1)] and same = ResolveContractAddresses_kept [OF addr [unfolded Inr]]
        have batch: "unat (BatchSize (Indexer cfg')) \<le> 2 ^ 62" and drop: "\<not> DropTableAtStart (DB cfg')"
          using built same decoded_law [of defaultConfig] by (auto simp: defaultBatchSize_def)
        obtain r3 w3 where con: "ConnectAndInitialize (h_gorm_Open H) (DB cfg') w2 = (r3, w3)" by force
        note kept3 = connect_keeps [OF drop con]
        have front: "run_setup H w = bindE (wrapE ''Database connect and initialize errors''
              (ConnectAndInitialize (h_gorm_Open H) (DB cfg'))) (\<lambda>db.
            bindE (SetSynced False) (\<lambda>_.
            bindE (wrapE ''failed to get chain ID'' (liftX (Client_ChainID client))) (\<lambda>chainID.
              ret (cfg', ?D, client, registry, db, chainID)))) w2"
          using pre res \<open>r1 = Inr registry\<close> addr Inr by (simp add: run_setup_def Let_def bindE_def wrapE_def)
        show ?thesis
        proof (cases r3)
          case (Inl e)
          with run front con kept2 kept3 show ?thesis by (auto simp: bindE_def wrapE_def)
        next
          case (Inr db)
          have id: "keeps (\<lambda>w. tabs (ext w) = v) (wrapE m (liftX (Client_ChainID client)))" for v m
            by (intro keeps_wrap liftX_triple) (use client_keeps [OF canonical_node.view_law [OF node_law [OF pre(3)]]] in blast)
          have tail: "bindE (wrapE ''failed to get chain ID'' (liftX (Client_ChainID client))) (\<lambda>chainID.
              ret (cfg', ?D, client, registry, db, chainID)) (w3\<lparr>synced := False\<rparr>) = (r, w')"
            using run front con Inr by (simp add: bindE_def wrapE_def SetSynced_def)
          then have "tabs (ext w') = tabs (ext w)"
            using keepsD [OF keeps_bind [OF id triple_ret] tail, of "tabs (ext w)"] kept2 kept3 by simp
          moreover have "x = (cfg', ?D, client, registry, db, snd (snd (snd (snd (snd x)))))" if "r = Inr x" for x
            using tail that by (auto simp: bindE_Inr_iff)
          ultimately show ?thesis
            using dialed_mode [OF pre(3) _ batch reg] kept3 Inr by auto
        qed
      qed
    qed
  qed
qed

end


subsection \<open>Lives of the program\<close>

text \<open>
  A start of the program on the tables and the mark that the starts before it left: it fails before it indexes, or
  lives in its mode, each life cut anywhere.
\<close>

inductive program_life ::
  "('x, 'u) host \<Rightarrow> (nat \<Rightarrow> ext_block) \<Rightarrow> ('x \<Rightarrow> tables) \<Rightarrow> tables \<times> u64 \<Rightarrow> tables \<times> u64 \<Rightarrow> bool" for H chain tabs where
  not_started:
    "run_setup H w = (Inl er, w1) \<Longrightarrow> program_life H chain tabs (tabs (ext w), M) (tabs (ext w1), M)"
| full_lives:
    "run_setup H w = (Inr (cfg, D, client, registry, db, chainID), w1) \<Longrightarrow> \<not> IsFspMode (Indexer cfg) \<Longrightarrow>
     (full_life H D cfg db client chain tabs)\<^sup>*\<^sup>* (tabs (ext w1), M) (tb', M') \<Longrightarrow>
     program_life H chain tabs (tabs (ext w), M) (tb', M')"
| fsp_lives:
    "run_setup H w = (Inr (cfg, D, client, registry, db, chainID), w1) \<Longrightarrow> IsFspMode (Indexer cfg) \<Longrightarrow>
     (fsp_life H D cfg db client chain tabs registry)\<^sup>*\<^sup>* (tabs (ext w1), M) (tb', M') \<Longrightarrow>
     program_life H chain tabs (tabs (ext w), M) (tb', M')"

inductive_cases program_lifeE: "program_life H chain tabs (tb, M) (tb', M')"

text \<open>Starts with the hosts of a set, which may differ in the configuration, the environment and the retrying.\<close>

definition started :: "('x, 'u) host set \<Rightarrow> (nat \<Rightarrow> ext_block) \<Rightarrow> ('x \<Rightarrow> tables) \<Rightarrow> tables \<Rightarrow> u64 \<Rightarrow> bool" where
  "started Hs chain tabs tb M \<longleftrightarrow> (\<lambda>s s'. \<exists>H \<in> Hs. program_life H chain tabs s s')\<^sup>*\<^sup>* (empty_tables, 0) (tb, M)"

context dropping_mode
begin

lemma full_lives_retained:
  "(full_life H D cfg db ethClient chain tabs)\<^sup>*\<^sup>* (tb, M) (tb', M') \<Longrightarrow> retained (lib D) chain M tb \<Longrightarrow> retained (lib D) chain M' tb'"
  by (induction rule: rtranclp_induct2) (auto dest: full_life_retained)

end

context fsp_mode
begin

lemma fsp_lives_retained:
  "(fsp_life H D cfg db ethClient chain tabs registry)\<^sup>*\<^sup>* (tb, M) (tb', M') \<Longrightarrow> retained (lib D) chain M tb \<Longrightarrow>
   retained (lib D) chain M' tb'"
  by (induction rule: rtranclp_induct2) (auto dest: fsp_life_retained)

end

context program
begin

lemma program_life_retained:
  assumes "program_life H chain tabs (tb, M) (tb', M')" and tb: "retained (lib (h_deps H)) chain M tb"
  shows "retained (lib (h_deps H)) chain M' tb'"
  using assms(1)
proof (rule program_lifeE)
  fix w er w1
  assume "run_setup H w = (Inl er, w1)" "tb = tabs (ext w)" "tb' = tabs (ext w1)" "M' = M"
  with setup_keeps tb show ?thesis by metis
next
  fix w cfg D client registry db chainID w1
  assume s: "run_setup H w = (Inr (cfg, D, client, registry, db, chainID), w1)" and w: "tb = tabs (ext w)"
    and l: "(full_life H D cfg db client chain tabs)\<^sup>*\<^sup>* (tabs (ext w1), M) (tb', M')"
  have mode: "fsp_mode H D cfg db client chain logs_at receipt_of tabs registry" and same: "lib D = lib (h_deps H)" "tabs (ext w1) = tb"
    using setup_keeps [OF s] w by auto
  from dropping_mode.full_lives_retained [OF fsp_mode.axioms(1) [OF mode] l] same tb show ?thesis by simp
next
  fix w cfg D client registry db chainID w1
  assume s: "run_setup H w = (Inr (cfg, D, client, registry, db, chainID), w1)" and w: "tb = tabs (ext w)"
    and l: "(fsp_life H D cfg db client chain tabs registry)\<^sup>*\<^sup>* (tabs (ext w1), M) (tb', M')"
  have mode: "fsp_mode H D cfg db client chain logs_at receipt_of tabs registry" and same: "lib D = lib (h_deps H)" "tabs (ext w1) = tb"
    using setup_keeps [OF s] w by auto
  from fsp_mode.fsp_lives_retained [OF mode l] same tb show ?thesis by simp
qed

lemma run_life:
  assumes run: "run H w = (r, w')"
  shows "\<exists>M' \<ge> M. program_life H chain tabs (tabs (ext w), M) (tabs (ext w'), M')"
proof -
  obtain r1 w1 where s: "run_setup H w = (r1, w1)" by force
  show ?thesis
  proof (cases r1)
    case (Inl er)
    with run s have "w' = w1" by (simp add: run_split bindE_run_Inl)
    with program_life.not_started [OF s [unfolded Inl]] show ?thesis by blast
  next
    case (Inr p)
    obtain cfg D client registry db chainID where p: "p = (cfg, D, client, registry, db, chainID)" by (cases p) auto
    note s = s [unfolded Inr p]
    have mode: "fsp_mode H D cfg db client chain logs_at receipt_of tabs registry" using setup_keeps [OF s] by blast
    have tail: "run_mode H p w1 = (r, w')" using run s p by (simp add: run_split bindE_run_Inr)
    show ?thesis
    proof (cases "IsFspMode (Indexer cfg)")
      case True
      with tail p have "RunIndexer H D cfg db client registry w1 = (r, w')" by (simp add: run_mode_def)
      from fsp_mode.fsp_run_life [OF mode this] program_life.fsp_lives [OF s True] show ?thesis by blast
    next
      case False
      show ?thesis
      proof (cases "GetHistoryDrop (DB cfg) chainID")
        case (Inl e)
        with tail p False have "w' = w1" by (simp add: run_mode_def bindE_def wrapE_def)
        with program_life.full_lives [OF s False rtranclp.rtrancl_refl] show ?thesis by blast
      next
        case (Inr historyDrop)
        with tail p False have "index_full H D (starting_at cfg (StartIndex (Indexer cfg))) db client registry historyDrop w1 = (r, w')"
          by (simp add: run_mode_def starting_where_configured bindE_def wrapE_def)
        from dropping_mode.full_run_life [OF fsp_mode.axioms(1) [OF mode] this] program_life.full_lives [OF s False] show ?thesis by blast
      qed
    qed
  qed
qed

end

text \<open>
  C1: the program keeps what it has reached. Over any number of starts of it on one database and one chain,
  with any configurations that do not ask to drop the tables, in either mode, killed or failing anywhere or returning: after one
  more run of \<^verbatim>\<open>run\<close>, whatever its outcome, every row is the chain's block, and every block up to the
  indexed one, and up to the highest stored one, is stored, unless it is older than the mark that the drops and
  fresh starts left; and the tables and the mark are again such as starts of the program leave.
\<close>

theorem program_retains:
  assumes hosts: "\<And>H. H \<in> Hs \<Longrightarrow> program H chain logs_at receipt_of tabs \<and> lib (h_deps H) = L"
    and past: "started Hs chain tabs (tabs (ext w)) M"
    and run: "H \<in> Hs" "run H w = (r, w')"
  shows "\<exists>M' \<ge> M. started Hs chain tabs (tabs (ext w')) M' \<and> chain_rows L chain (tabs (ext w')) \<and>
    (\<forall>n. reached (tabs (ext w')) n \<longrightarrow> M' \<le> bk_time (chain n) \<longrightarrow> present L chain (tabs (ext w')) n)"
proof -
  have "retained L chain M tb" if "started Hs chain tabs tb M" for tb M
    using that unfolding started_def
  proof (induction rule: rtranclp_induct2)
    case refl
    show ?case by (rule empty_retained)
  next
    case step
    then show ?case using hosts program.program_life_retained by metis
  qed
  moreover from run hosts obtain M' where M': "M \<le> M'" "program_life H chain tabs (tabs (ext w), M) (tabs (ext w'), M')"
    using program.run_life by metis
  then have "started Hs chain tabs (tabs (ext w')) M'"
    using past run(1) unfolding started_def by (blast intro: rtranclp.rtrancl_into_rtrancl)
  ultimately show ?thesis using M'(1) unfolding retained_def by blast
qed

subsection \<open>On the concrete world\<close>

text \<open>A host whose node serves blocks a second apart, with a contract for the FSP mode.\<close>

definition program_host :: "(mem, string) host" where
  "program_host = mem_host
     \<lparr>h_avx_dial := (\<lambda>_. Inr (mem_rpc seconds (make_logs (\<lambda>_. [])) (\<lambda>_. \<lparr>rc_status = 1, rc_logs = []\<rparr>))),
      h_nil_rpc := mem_rpc seconds (make_logs (\<lambda>_. [])) (\<lambda>_. \<lparr>rc_status = 1, rc_logs = []\<rparr>),
      h_new_fsm := mem_binding third_epoch third_random 3\<rparr>"

lemma canonical_same_rpc:
  "canonical_node c chain logs_at receipt_of v \<Longrightarrow> active_rpc c' = active_rpc c \<Longrightarrow> c_avx c' = c_avx c \<Longrightarrow> c_eth c' = c_eth c \<Longrightarrow>
   canonical_node c' chain logs_at receipt_of v"
  by (simp add: canonical_node_def)

interpretation mem_program: program program_host seconds "make_logs (\<lambda>_. [])" "\<lambda>_. \<lparr>rc_status = 1, rc_logs = []\<rparr>" m_tabs
proof (intro program.intro program_axioms.intro)
  show "database_driver (h_gorm_Open program_host) m_tabs"
    by (simp add: program_host_def mem_host_def mem_driver.database_driver_axioms)
  show "retrier (retry_block (h_deps program_host))" "retrier (retry_header (h_deps program_host))"
    "retrier (retry_receipt (h_deps program_host))" "retrier (retry_logs (h_deps program_host))"
    "retrier (h_retry_u64 program_host)" "retrier (h_retry_history program_host)" "retrier (h_retry_continuous program_host)"
    by (simp_all add: program_host_def mem_host_def mem_deps_def bounded.retrier_axioms)
  have ix: "indexing (mem_deps 1 6) second_engine seconds (make_logs (\<lambda>_. [])) (\<lambda>_. \<lparr>rc_status = 1, rc_logs = []\<rparr>) m_tabs"
    by (rule second_indexing) (simp_all add: second_engine_def mem_engine_def)
  show "hash_hex_law (lib (h_deps program_host))" "fair (h_deps program_host)" "hashes_distinct seconds"
    using indexing.hash_law [OF ix] indexing.schedule_law [OF ix] indexing.distinct_law [OF ix]
    by (simp_all add: program_host_def mem_host_def)
  show "canonical_node client seconds (make_logs (\<lambda>_. [])) (\<lambda>_. \<lparr>rc_status = 1, rc_logs = []\<rparr>) m_tabs"
    if "DialRPCNode (h_avx_dial program_host) (h_eth_dial program_host) (h_nil_rpc program_host) (h_ctx_err program_host) url ct n = Inr client"
    for url ct n client
  proof (rule canonical_same_rpc)
    show "canonical_node (e_client second_engine) seconds (make_logs (\<lambda>_. [])) (\<lambda>_. \<lparr>rc_status = 1, rc_logs = []\<rparr>) m_tabs"
      by (rule indexer.axioms(1) [OF indexing.axioms(1) [OF ix]])
  qed (use that in \<open>auto simp: DialRPCNode_def Let_def program_host_def mem_host_def second_engine_def mem_engine_def mem_client_def
      active_rpc_def seconds_def split: if_splits\<close>)
  show "unat (BatchSize (Indexer cfg)) \<le> 2 ^ 62 \<and> \<not> DropTableAtStart (DB cfg)" if "h_decode program_host c = Inr (cfg, keys)" for c cfg keys
    using that by (auto simp: program_host_def mem_host_def two_blocks_def defaultConfig_def)
  show "keeps (\<lambda>x. m_tabs x = v) (NewBoundContract (h_bind program_host) a parsed client opts m args)" for v a parsed client opts m args
    by (auto simp: program_host_def mem_host_def mem_bind_def intro!: keeps_faulty triple_throw split: list.split abi_value.split)
  show "fsm_reader fsm m_tabs" if "h_new_fsm program_host a client = Inr fsm" for a client fsm
    using that by (auto simp: program_host_def mem_binding_def mem_fsm.fsm_reader_axioms)
  show "bk_time (seconds j) \<le> bk_time (seconds k)" if "j \<le> k" "k \<le> 2 ^ 62" for j k
    using that by (simp add: seconds_def make_chain_def word_le_nat_alt unat_of_nat)
  show "bk_time (seconds k) < 18446744073709551615" if "k < 18446744073709551615" for k
    using that by (simp add: seconds_def make_chain_def word_less_nat_alt unat_of_nat)
qed

text \<open>The program is started on the empty database, and again when the head of the chain is at 9.\<close>

theorem program_retains_witness:
  "let w' = snd (run program_host (head_nine (snd (run program_host (fresh_world 2)))))
   in chain_rows plain_lib seconds (m_tabs (ext w')) \<and> (\<exists>M'. started {program_host} seconds m_tabs (m_tabs (ext w')) M')"
proof -
  have hosts: "program H seconds (make_logs (\<lambda>_. [])) (\<lambda>_. \<lparr>rc_status = 1, rc_logs = []\<rparr>) m_tabs \<and> lib (h_deps H) = plain_lib"
    if "H \<in> {program_host}" for H
    using that mem_program.program_axioms by (simp add: program_host_def mem_host_def mem_deps_def)
  have once: "\<exists>M'. started {program_host} seconds m_tabs (m_tabs (ext (snd (run program_host w)))) M' \<and>
      chain_rows plain_lib seconds (m_tabs (ext (snd (run program_host w))))"
    if "started {program_host} seconds m_tabs (m_tabs (ext w)) M" for w M
  proof -
    obtain r w' where run: "run program_host w = (r, w')" by force
    from program_retains [OF hosts that _ run] run show ?thesis by auto
  qed
  have "started {program_host} seconds m_tabs (m_tabs (ext (fresh_world 2))) 0" by (simp add: started_def empty_world)
  then obtain M where "started {program_host} seconds m_tabs (m_tabs (ext (snd (run program_host (fresh_world 2))))) M"
    using once by blast
  then have "started {program_host} seconds m_tabs (m_tabs (ext (head_nine (snd (run program_host (fresh_world 2)))))) M"
    by (simp add: head_nine_def)
  from once [OF this] show ?thesis by (auto simp: Let_def)
qed

end
