(* ===== verification/Collected.thy ===== *)
theory Collected
  imports Index_Loops
begin

text \<open>
  What the indexer is for: the transactions and logs that the configuration asks for are in the tables, for
  every block that a history pass has indexed.
\<close>

subsection \<open>What is asked for\<close>

text \<open>
  A transaction is chosen when an entry matches it, and its events are collected when such an entry asks
  for them. A log is requested when a collector's filter matches it.
\<close>

definition chosen :: "policies \<Rightarrow> ext_tx \<Rightarrow> bool" where
  "chosen ts t \<longleftrightarrow> (\<exists>a. tx_to t = Some a \<and> 4 \<le> length (tx_data t) \<and> fst (match_policy ts a (take 4 (tx_data t))))"

definition events_chosen :: "policies \<Rightarrow> ext_tx \<Rightarrow> bool" where
  "events_chosen ts t \<longleftrightarrow>
     chosen ts t \<and> collectEvents (snd (match_policy ts (the (tx_to t)) (take 4 (tx_data t))))"

definition tx_key :: "common_lib \<Rightarrow> ext_tx \<Rightarrow> string" where
  "tx_key L t = drop 2 (HashHex L (tx_hash t))"

definition ext_log_key :: "common_lib \<Rightarrow> ext_log \<Rightarrow> string \<times> u64" where
  "ext_log_key L l = (ToLower (drop 2 (HashHex L (lg_tx_hash l))), lg_index l)"

definition tx_stored :: "common_lib \<Rightarrow> ext_tx \<Rightarrow> tables \<Rightarrow> bool" where
  "tx_stored L t tb \<longleftrightarrow> tx_key L t \<in> t_hash ` set (tb_txs tb)"

definition log_stored :: "common_lib \<Rightarrow> ext_log \<Rightarrow> tables \<Rightarrow> bool" where
  "log_stored L l tb \<longleftrightarrow> ext_log_key L l \<in> log_key ` set (tb_logs tb)"

text \<open>Everything that is asked for of block \<open>n\<close> is stored.\<close>

definition collected ::
  "common_lib \<Rightarrow> policies \<Rightarrow> LogInfo list \<Rightarrow> (nat \<Rightarrow> ext_block) \<Rightarrow> (nat \<Rightarrow> ext_log list) \<Rightarrow> (hash \<Rightarrow> ext_receipt) \<Rightarrow>
   nat \<Rightarrow> tables \<Rightarrow> bool" where
  "collected L ts infos chain logs_at receipt_of n tb \<longleftrightarrow>
     (\<forall>t \<in> set (bk_txs (chain n)). chosen ts t \<longrightarrow> tx_stored L t tb) \<and>
     (\<forall>t \<in> set (bk_txs (chain n)). events_chosen ts t \<longrightarrow> (\<forall>l \<in> set (rc_logs (receipt_of (tx_hash t))). log_stored L l tb)) \<and>
     (\<forall>info \<in> set infos. \<forall>l \<in> set (logs_at n). log_filter L info l \<longrightarrow> log_stored L l tb)"

text \<open>The hash of a transaction identifies it on the chain.\<close>

definition txs_distinct :: "(nat \<Rightarrow> ext_block) \<Rightarrow> bool" where
  "txs_distinct chain \<longleftrightarrow>
     (\<forall>j k t u. t \<in> set (bk_txs (chain j)) \<longrightarrow> u \<in> set (bk_txs (chain k)) \<longrightarrow> tx_hash t = tx_hash u \<longrightarrow> t = u)"

text \<open>
  What the tables must satisfy, and keep: no stored transaction of the chain misses events that are asked for, and
  the counter is above every id. For a transaction that is stored already gets no second row, so the logs
  of its receipt, which refer to the id of a new row, would be skipped.
\<close>

definition events_kept ::
  "common_lib \<Rightarrow> policies \<Rightarrow> (nat \<Rightarrow> ext_block) \<Rightarrow> (hash \<Rightarrow> ext_receipt) \<Rightarrow> tables \<Rightarrow> bool" where
  "events_kept L ts chain receipt_of tb \<longleftrightarrow>
     (\<forall>n. \<forall>t \<in> set (bk_txs (chain n)). events_chosen ts t \<longrightarrow> tx_stored L t tb \<longrightarrow>
        (\<forall>l \<in> set (rc_logs (receipt_of (tx_hash t))). log_stored L l tb))"

definition ids_below :: "nat \<Rightarrow> tables \<Rightarrow> bool" where
  "ids_below m tb \<longleftrightarrow> (\<forall>t \<in> set (tb_txs tb). unat (t_id t) < m)"

subsection \<open>Inserting the rows\<close>

lemma ins_tx_rows: "set (tb_txs (ins_tx r tb)) \<subseteq> insert r (set (tb_txs tb))" "set (tb_txs tb) \<subseteq> set (tb_txs (ins_tx r tb))"
  "tb_logs (ins_tx r tb) = tb_logs tb"
  by (auto simp: ins_tx_def)

lemma fold_ins_tx_rows:
  "set (tb_txs tb) \<subseteq> set (tb_txs (fold ins_tx rs tb)) \<and> set (tb_txs (fold ins_tx rs tb)) \<subseteq> set (tb_txs tb) \<union> set rs \<and>
   tb_logs (fold ins_tx rs tb) = tb_logs tb"
proof (induction rs arbitrary: tb)
  case (Cons r rs)
  from Cons [of "ins_tx r tb"] ins_tx_rows [where r = r and tb = tb] show ?case by auto
qed simp

lemma fold_ins_block_others [simp]:
  "tb_txs (fold ins_block bs tb) = tb_txs tb" "tb_logs (fold ins_block bs tb) = tb_logs tb"
  by (induction bs arbitrary: tb) (simp_all add: ins_block_def)

text \<open>With fresh ids every hash is stored, and a hash that was not there is stored with an id of the batch.\<close>

lemma fold_ins_tx_fresh:
  assumes "ids_below (unat id0) tb" "map (unat \<circ> t_id) rs = [unat id0..<unat id0 + length rs]" "r \<in> set rs"
  shows "t_hash r \<in> t_hash ` set (tb_txs (fold ins_tx rs tb))"
    "t_hash r \<notin> t_hash ` set (tb_txs tb) \<Longrightarrow> \<exists>r' \<in> set rs. r' \<in> set (tb_txs (fold ins_tx rs tb)) \<and> t_hash r' = t_hash r"
proof -
  have "(\<forall>r \<in> set rs. t_hash r \<in> t_hash ` set (tb_txs (fold ins_tx rs tb)) \<and>
      (t_hash r \<notin> t_hash ` set (tb_txs tb) \<longrightarrow> (\<exists>r' \<in> set rs. r' \<in> set (tb_txs (fold ins_tx rs tb)) \<and> t_hash r' = t_hash r)))"
    if "ids_below m tb" "map (unat \<circ> t_id) rs = [m..<m + length rs]" for m tb rs
    using that
  proof (induction rs arbitrary: m tb)
    case (Cons r rs)
    have id: "unat (t_id r) = m" and rest: "map (unat \<circ> t_id) rs = [Suc m..<Suc m + length rs]"
      using Cons.prems(2) by (simp_all add: upt_conv_Cons comp_def del: upt_Suc)
    have below: "ids_below (Suc m) (ins_tx r tb)"
      using Cons.prems(1) id ins_tx_rows(1) [where r = r and tb = tb] by (fastforce simp: ids_below_def)
    have "t_id r \<notin> t_id ` set (tb_txs tb)" using Cons.prems(1) id by (force simp: ids_below_def)
    then have one: "t_hash r \<in> t_hash ` set (tb_txs (ins_tx r tb))"
      "t_hash r \<notin> t_hash ` set (tb_txs tb) \<Longrightarrow> r \<in> set (tb_txs (ins_tx r tb))"
      "t_hash ` set (tb_txs (ins_tx r tb)) = insert (t_hash r) (t_hash ` set (tb_txs tb))"
      by (auto simp: ins_tx_def)
    note grow = fold_ins_tx_rows [THEN conjunct1, of "ins_tx r tb" rs]
    note IH = Cons.IH [OF below rest]
    have "t_hash r \<in> t_hash ` set (tb_txs (fold ins_tx (r # rs) tb))" using one(1) image_mono [OF grow, of t_hash] by auto
    moreover have "r \<in> set (tb_txs (fold ins_tx (r # rs) tb))" if "t_hash r \<notin> t_hash ` set (tb_txs tb)"
      using one(2) [OF that] grow by auto
    moreover have "t_hash u \<in> t_hash ` set (tb_txs (fold ins_tx (r # rs) tb)) \<and> (t_hash u \<notin> t_hash ` set (tb_txs tb) \<longrightarrow>
        (\<exists>r' \<in> set (r # rs). r' \<in> set (tb_txs (fold ins_tx (r # rs) tb)) \<and> t_hash r' = t_hash u))" if "u \<in> set rs" for u
      using IH that calculation one(3) by (cases "t_hash u = t_hash r") auto
    ultimately show ?case by auto
  qed simp
  from this [OF assms(1,2)] assms(3)
  show "t_hash r \<in> t_hash ` set (tb_txs (fold ins_tx rs tb))"
    "t_hash r \<notin> t_hash ` set (tb_txs tb) \<Longrightarrow> \<exists>r' \<in> set rs. r' \<in> set (tb_txs (fold ins_tx rs tb)) \<and> t_hash r' = t_hash r"
    by blast+
qed

lemma fold_ins_log_kept:
  "log_key ` set (tb_logs tb) \<subseteq> log_key ` set (tb_logs (fold ins_log ls tb))" "tb_txs (fold ins_log ls tb) = tb_txs tb"
  by (induction ls arbitrary: tb) (force simp: ins_log_def)+

text \<open>A log row whose transaction is stored, or that refers to none, is in the tables by its key.\<close>

lemma fold_ins_log_stored:
  assumes "l \<in> set ls" "l_transaction_id l = 0 \<or> l_transaction_id l \<in> t_id ` set (tb_txs tb)"
  shows "log_key l \<in> log_key ` set (tb_logs (fold ins_log ls tb))"
  using assms
proof (induction ls arbitrary: tb)
  case (Cons k ls)
  have txs: "tb_txs (ins_log k tb) = tb_txs tb" by (simp add: ins_log_def)
  show ?case
  proof (cases "l = k")
    case True
    then have "log_key l \<in> log_key ` set (tb_logs (ins_log k tb))" using Cons.prems(2) by (auto simp: ins_log_def)
    then show ?thesis using fold_ins_log_kept(1) [of "ins_log k tb" ls] by auto
  next
    case False
    then show ?thesis using Cons txs by simp
  qed
qed simp

text \<open>The same for the rows of a batch.\<close>

lemma data_tables_rows:
  "tb_txs (data_tables data tb) = tb_txs (fold ins_tx (d_Transactions data) (fold ins_block (d_Blocks data) tb))"
  "log_key ` set (tb_logs tb) \<subseteq> log_key ` set (tb_logs (data_tables data tb))"
  using fold_ins_log_kept(1) [of "fold ins_tx (d_Transactions data) (fold ins_block (d_Blocks data) tb)" "d_Logs data"]
    fold_ins_tx_rows [of "fold ins_block (d_Blocks data) tb" "d_Transactions data"]
  by (simp_all add: data_tables_def fold_ins_log_kept(2))

lemma log_stored_mono: "log_stored L l tb \<Longrightarrow> log_stored L l (data_tables data tb)"
  unfolding log_stored_def by (rule subsetD [OF data_tables_rows(2)])

lemma row_ext_key [simp]: "log_key (BuildDBLogFromRequestedLog L l t) = ext_log_key L l"
  by (simp add: log_key_def ext_log_key_def)

lemma data_log_stored:
  assumes "r \<in> set (d_Logs data)" "log_key r = ext_log_key L l"
    and "l_transaction_id r = 0 \<or> l_transaction_id r \<in> t_id ` set (tb_txs (data_tables data tb))"
  shows "log_stored L l (data_tables data tb)"
proof -
  let ?tb = "fold ins_tx (d_Transactions data) (fold ins_block (d_Blocks data) tb)"
  have "tb_txs (data_tables data tb) = tb_txs ?tb" by (rule data_tables_rows(1))
  with fold_ins_log_stored [OF assms(1), of ?tb] assms(2,3) show ?thesis
    by (simp add: log_stored_def data_tables_def)
qed

subsection \<open>The rows of a batch\<close>

text \<open>
  A batch of selected transactions of the chain: \<open>made\<close> says that each is a chosen one with its policy, and has its
  receipt when its events are collected.
\<close>

definition made :: "policies \<Rightarrow> (nat \<Rightarrow> ext_block) \<Rightarrow> (hash \<Rightarrow> ext_receipt) \<Rightarrow> transactionsBatch \<Rightarrow> nat \<Rightarrow> ext_tx \<Rightarrow> bool" where
  "made ts chain receipt_of txb j t \<longleftrightarrow>
     (\<exists>n. t \<in> set (bk_txs (chain n))) \<and> chosen ts t \<and> Tx_Hash (transactions txb ! j) = tx_hash t \<and>
     (collectEvents (policies txb ! j) \<longleftrightarrow> events_chosen ts t) \<and>
     (events_chosen ts t \<longrightarrow> (\<exists>r. receipts txb ! j = Some r \<and> Receipt_Logs r = rc_logs (receipt_of (tx_hash t))))"

lemma data_collected:
  assumes ids: "ids_below (unat id0) tb" and kept: "events_kept L ts chain receipt_of tb"
    and distinct: "txs_distinct chain" and law: "hash_hex_law L"
    and made: "\<And>j. j < length (transactions txb) \<Longrightarrow> \<exists>t. made ts chain receipt_of txb j t"
    and room: "unat id0 + length (transactions txb) < 18446744073709551616"
    and txs: "processTransactions L txb d0 id0 = (Inr d1, id1)"
    and d0: "d_Transactions d0 = []" "d_Logs d0 = []" "\<And>k. \<not> LogHashIndexCheck d0 k"
    and logs: "processLogs L lgs bs first d1 = Inr d2"
  defines "tb' \<equiv> data_tables d2 tb"
  shows "events_kept L ts chain receipt_of tb'" "ids_below (unat id1) tb'"
    "\<And>j t. j < length (transactions txb) \<Longrightarrow> made ts chain receipt_of txb j t \<Longrightarrow>
       tx_stored L t tb' \<and> (events_chosen ts t \<longrightarrow> (\<forall>l \<in> set (rc_logs (receipt_of (tx_hash t))). log_stored L l tb'))"
    "\<And>l. l \<in> set lgs \<Longrightarrow> log_stored L l tb'"
proof -
  let ?n = "length (transactions txb)"
  let ?receipt_rows = "concat (map (\<lambda>i. receipt_rows L txb (id0 + of_nat i) i) [0..<?n])"
  from processTransactions_prefix [OF txs [unfolded processTransactions_def]] d0 obtain rows where
    id1: "id1 = id0 + of_nat ?n" and rows: "d_Transactions d1 = rows" "length rows = ?n"
    and built: "\<And>i. i < ?n \<Longrightarrow> t_id (rows ! i) = id0 + of_nat i \<and> t_hash (rows ! i) = drop 2 (HashHex L (Tx_Hash (transactions txb ! i)))"
    and dlogs: "d_Logs d1 = ?receipt_rows" and check: "\<And>k. LogHashIndexCheck d1 k \<longleftrightarrow> k \<in> log_check_key ` set ?receipt_rows"
    by (fastforce dest: buildDBTx_Inr)
  note pl = processLogs_Inr [OF logs]
  have d2: "d_Transactions d2 = rows" "d_Logs d2 = ?receipt_rows @
      map (requested_row L bs first) (filter (\<lambda>l. \<not> LogHashIndexCheck d1 (log_check_key (requested_row L bs first l))) lgs)"
    using pl rows dlogs by simp_all
  have uid: "unat (t_id (rows ! i)) = unat id0 + i" if "i < ?n" for i
    using built [OF that] that room by (simp add: unat_offset)
  then have fresh: "map (unat \<circ> t_id) rows = [unat id0..<unat id0 + length rows]"
    using rows(2) by (intro nth_equalityI) auto
  let ?tb = "fold ins_block (d_Blocks d2) tb"
  have ids': "ids_below (unat id0) ?tb" using ids by (simp add: ids_below_def)
  have txs': "tb_txs tb' = tb_txs (fold ins_tx rows ?tb)" using data_tables_rows(1) [of d2 tb] by (simp add: tb'_def d2(1))
  have key: "t_hash (rows ! j) = tx_key L t" if "j < ?n" "made ts chain receipt_of txb j t" for j t
    using built [OF that(1)] that(2) by (simp add: made_def tx_key_def)
  have same: "t = u" if "t \<in> set (bk_txs (chain a))" "u \<in> set (bk_txs (chain b))" "tx_key L t = tx_key L u" for t u a b
    using that distinct hash_text_inject [OF law] unfolding txs_distinct_def tx_key_def by blast
  have events: "log_stored L l tb'"
    if j: "j < ?n" "made ts chain receipt_of txb j t" "events_chosen ts t" "l \<in> set (rc_logs (receipt_of (tx_hash t)))" for j t l
  proof (cases "tx_stored L t tb")
    case True
    with kept j(2-4) have "log_stored L l tb" unfolding events_kept_def made_def by blast
    then show ?thesis unfolding tb'_def by (rule log_stored_mono)
  next
    case False
    then have "t_hash (rows ! j) \<notin> t_hash ` set (tb_txs ?tb)" using key [OF j(1,2)] by (simp add: tx_stored_def)
    with fold_ins_tx_fresh(2) [OF ids' fresh] j(1) rows(2) obtain j' where
      j': "j' < ?n" "rows ! j' \<in> set (tb_txs tb')" "t_hash (rows ! j') = t_hash (rows ! j)"
      by (metis in_set_conv_nth txs')
    obtain u where u: "made ts chain receipt_of txb j' u" using made [OF j'(1)] by blast
    have "u = t" using same u j(2) j'(3) key [OF j'(1) u] key [OF j(1,2)] unfolding made_def by metis
    with u j(3) obtain r where r: "receipts txb ! j' = Some r" "Receipt_Logs r = rc_logs (receipt_of (tx_hash t))" "collectEvents (policies txb ! j')"
      unfolding made_def by blast
    let ?row = "(BuildDBLogFromRequestedLog L l (Block_Time (blocks txb ! j')))\<lparr>l_transaction_id := id0 + of_nat j'\<rparr>"
    have "?row \<in> set (receipt_rows L txb (id0 + of_nat j') j')" using r j(4) by (simp add: receipt_rows_def)
    then have "?row \<in> set (d_Logs d2)" using j'(1) d2(2) by auto
    moreover have "l_transaction_id ?row \<in> t_id ` set (tb_txs tb')" using j'(1,2) built by force
    ultimately show ?thesis unfolding tb'_def by (intro data_log_stored [of ?row]) simp_all
  qed
  have stored: "tx_stored L t tb'" if "j < ?n" "made ts chain receipt_of txb j t" for j t
    using fold_ins_tx_fresh(1) [OF ids' fresh, of "rows ! j"] rows(2) that key [OF that] by (simp add: tx_stored_def txs')
  show "tx_stored L t tb' \<and> (events_chosen ts t \<longrightarrow> (\<forall>l \<in> set (rc_logs (receipt_of (tx_hash t))). log_stored L l tb'))"
    if "j < ?n" "made ts chain receipt_of txb j t" for j t
    using stored [OF that] events [OF that] by blast
  show "log_stored L l tb'" if l: "l \<in> set lgs" for l
  proof (cases "LogHashIndexCheck d1 (log_check_key (requested_row L bs first l))")
    case False
    then have "requested_row L bs first l \<in> set (d_Logs d2)" using l d2(2) by simp
    then show ?thesis unfolding tb'_def by (rule data_log_stored) (simp_all add: requested_row_def)
  next
    case True
    then obtain j row where j: "j < ?n" "row \<in> set (receipt_rows L txb (id0 + of_nat j) j)"
      "log_check_key row = log_check_key (requested_row L bs first l)" using check by fastforce
    obtain t where t: "made ts chain receipt_of txb j t" using made [OF j(1)] by blast
    from j(2) obtain r k time where k: "receipts txb ! j = Some r" "collectEvents (policies txb ! j)" "k \<in> set (Receipt_Logs r)"
      "row = (BuildDBLogFromRequestedLog L k time)\<lparr>l_transaction_id := id0 + of_nat j\<rparr>"
      by (cases "receipts txb ! j") (auto simp: receipt_rows_def split: if_splits)
    with t have "events_chosen ts t" "k \<in> set (rc_logs (receipt_of (tx_hash t)))" unfolding made_def by auto
    with events [OF j(1) t] have "log_stored L k tb'" by blast
    moreover have "ext_log_key L k = ext_log_key L l"
      using j(3) log_text_keys(1) [OF law] by (simp add: k(4) requested_row_def ext_log_key_def)
    ultimately show ?thesis by (simp add: log_stored_def)
  qed
  have "unat id1 = unat id0 + ?n" using room by (simp add: id1 unat_offset)
  moreover have "unat (t_id t) < unat id0 + ?n" if "t \<in> set (tb_txs tb')" for t
  proof -
    have "t \<in> set (tb_txs tb) \<or> t \<in> set rows" using that fold_ins_tx_rows [of ?tb rows] by (auto simp: txs')
    with ids uid rows(2) show ?thesis unfolding ids_below_def in_set_conv_nth [of t rows] by auto
  qed
  ultimately show "ids_below (unat id1) tb'" by (simp add: ids_below_def)
  show "events_kept L ts chain receipt_of tb'"
    unfolding events_kept_def
  proof (intro allI ballI impI)
    fix n t l assume t: "t \<in> set (bk_txs (chain n))" "events_chosen ts t" "tx_stored L t tb'"
      and l: "l \<in> set (rc_logs (receipt_of (tx_hash t)))"
    show "log_stored L l tb'"
    proof (cases "tx_stored L t tb")
      case True
      with kept t l have "log_stored L l tb" unfolding events_kept_def by blast
      then show ?thesis unfolding tb'_def by (rule log_stored_mono)
    next
      case False
      with t(3) fold_ins_tx_rows [of ?tb rows] obtain row where "row \<in> set rows" "t_hash row = tx_key L t"
        unfolding tx_stored_def txs' by fastforce
      then obtain j where j: "j < ?n" "t_hash (rows ! j) = tx_key L t" using rows(2) by (auto simp: in_set_conv_nth)
      obtain u where u: "made ts chain receipt_of txb j u" using made [OF j(1)] by blast
      have "u = t" using same t(1) u j(2) key [OF j(1) u] unfolding made_def by metis
      with events [OF j(1) u] t(2) l show ?thesis by simp
    qed
  qed
qed

subsection \<open>What a batch fetches\<close>

lemma chosen_tx:
  assumes "untag tx = Some t"
  shows "(case Tx_To tx of None \<Rightarrow> False
      | Some a \<Rightarrow> \<not> (length (Tx_Data tx) < 4 \<or> \<not> fst (match_policy ts a (take 4 (Tx_Data tx))))) \<longleftrightarrow> chosen ts t"
    "chosen ts t \<Longrightarrow> collectEvents (snd (match_policy ts (the (Tx_To tx)) (take 4 (Tx_Data tx)))) \<longleftrightarrow> events_chosen ts t"
  using untag_tx [OF assms] by (auto simp: chosen_def events_chosen_def not_less split: option.splits)

lemma selected_mem:
  "(tx, b', i, p) \<in> set (selected ts b) \<longleftrightarrow>
     b' = b \<and> (\<exists>k a. (k, tx) \<in> set (enumerate 0 (Block_Transactions b)) \<and> i = of_nat k \<and> Tx_To tx = Some a \<and>
       4 \<le> length (Tx_Data tx) \<and> fst (match_policy ts a (take 4 (Tx_Data tx))) \<and> p = snd (match_policy ts a (take 4 (Tx_Data tx))))"
  by (force simp: selected_def not_less split: option.splits if_splits)

lemma block_txs:
  assumes "untag b = Some x"
  shows "tx \<in> set (Block_Transactions b) \<Longrightarrow> \<exists>t \<in> set (bk_txs x). untag tx = Some t"
    "t \<in> set (bk_txs x) \<Longrightarrow> \<exists>tx \<in> set (Block_Transactions b). untag tx = Some t"
    "length (Block_Transactions b) = length (bk_txs x)"
proof -
  have m: "map untag (Block_Transactions b) = map Some (bk_txs x)" using untag_reads [OF assms] by blast
  from arg_cong [OF m, of set] have img: "untag ` set (Block_Transactions b) = Some ` set (bk_txs x)" by simp
  show "tx \<in> set (Block_Transactions b) \<Longrightarrow> \<exists>t \<in> set (bk_txs x). untag tx = Some t" using img by (metis image_iff)
  show "t \<in> set (bk_txs x) \<Longrightarrow> \<exists>tx \<in> set (Block_Transactions b). untag tx = Some t" using img by (metis image_iff)
  show "length (Block_Transactions b) = length (bk_txs x)" using arg_cong [OF m, of length] by simp
qed

lemma selected_chain:
  assumes "untag b = Some x"
  shows "(tx, b', i, p) \<in> set (selected ts b) \<Longrightarrow>
      \<exists>t \<in> set (bk_txs x). untag tx = Some t \<and> chosen ts t \<and> (collectEvents p \<longleftrightarrow> events_chosen ts t)"
    "t \<in> set (bk_txs x) \<Longrightarrow> chosen ts t \<Longrightarrow> \<exists>tx i p. (tx, b, i, p) \<in> set (selected ts b) \<and> untag tx = Some t"
    "length (selected ts b) \<le> length (bk_txs x)"
proof -
  assume "(tx, b', i, p) \<in> set (selected ts b)"
  then obtain k a where tx: "(k, tx) \<in> set (enumerate 0 (Block_Transactions b))" "Tx_To tx = Some a" "4 \<le> length (Tx_Data tx)"
    "fst (match_policy ts a (take 4 (Tx_Data tx)))" "p = snd (match_policy ts a (take 4 (Tx_Data tx)))" by (auto simp: selected_mem)
  from tx(1) have "tx \<in> set (Block_Transactions b)" by (auto simp: in_set_enumerate_eq)
  then obtain t where t: "t \<in> set (bk_txs x)" "untag tx = Some t" using block_txs(1) [OF assms] by blast
  with tx chosen_tx [OF t(2), of ts] show "\<exists>t \<in> set (bk_txs x). untag tx = Some t \<and> chosen ts t \<and> (collectEvents p \<longleftrightarrow> events_chosen ts t)"
    by auto
next
  assume t: "t \<in> set (bk_txs x)" "chosen ts t"
  then obtain tx where tx: "tx \<in> set (Block_Transactions b)" "untag tx = Some t" using block_txs(2) [OF assms] by blast
  then obtain k where "k < length (Block_Transactions b)" "tx = Block_Transactions b ! k" by (auto simp: in_set_conv_nth)
  then have "(k, tx) \<in> set (enumerate 0 (Block_Transactions b))" by (simp add: in_set_enumerate_eq)
  with tx t(2) chosen_tx(1) [OF tx(2), of ts] show "\<exists>tx i p. (tx, b, i, p) \<in> set (selected ts b) \<and> untag tx = Some t"
    by (fastforce simp: selected_mem not_less split: option.splits)
next
  have "length (concat (map f xs)) \<le> length xs" if "\<And>x. length (f x) \<le> 1" for f :: "nat \<times> transaction \<Rightarrow> 'a list" and xs
    by (induction xs) (use that le_trans in \<open>auto intro: add_le_mono [of _ 1, simplified]\<close>)
  from this [of _ "enumerate 0 (Block_Transactions b)"] show "length (selected ts b) \<le> length (bk_txs x)"
    unfolding selected_def block_txs(3) [OF assms, symmetric] by (force split: option.splits)
qed

context indexing
begin

text \<open>The transactions of a range.\<close>

abbreviation tx_count :: "nat \<Rightarrow> nat \<Rightarrow> nat" where
  "tx_count a b \<equiv> (\<Sum>n \<in> {a..<b}. length (bk_txs (chain n)))"

lemma blocksStream_made:
  assumes run: "blocksStream D ci f l x = (Inr (bs, txb), x')" and range: "f \<le> l" "unat l < 18446744073709551615"
  defines "ts \<equiv> e_transactions ci"
  shows "j < length (transactions txb) \<Longrightarrow> \<exists>t. made ts chain receipt_of txb j t"
    "unat f \<le> n \<Longrightarrow> n \<le> unat l \<Longrightarrow> t \<in> set (bk_txs (chain n)) \<Longrightarrow> chosen ts t \<Longrightarrow>
       \<exists>j < length (transactions txb). made ts chain receipt_of txb j t"
    "length (transactions txb) \<le> tx_count (unat f) (Suc (unat l))"
proof -
  from run obtain x1 where b: "obtainBlocksBatch D ci f l x = (Inr bs, x1)"
    and p: "processTransactionsBatch D ci (processBlocksBatch ci bs) x1 = (Inr txb, x')"
    by (auto simp: blocksStream_def bindE_Inr_iff)
  define tb where "tb = processBlocksBatch ci bs"
  let ?n = "length (transactions tb)"
  have cb: "chain_batch chain f (Suc (unat l) - unat f) bs" by (rule obtainBlocksBatch_chain [OF b schedule_law range])
  have "receipts empty_txBatch = replicate (length (transactions empty_txBatch)) None" by (simp add: empty_txBatch_def)
  from processBlocks_entries [OF _ this, of ci bs] have ok: "batch_ok tb" "receipts tb = replicate ?n None"
    and ent: "entries tb = concat (map (selected ts) bs)" by (simp_all add: tb_def processBlocksBatch_def ts_def)
  have len: "length (receipts tb) = ?n" "length (entries tb) = ?n" using ok(1) by (simp_all add: batch_ok_def entries_def)
  from fetchReceipts_Inr [OF p [unfolded processTransactionsBatch_def tb_def [symmetric]]] fair_set [OF schedule_law, of ?n] len(1)
  obtain rs where txb: "txb = tb\<lparr>receipts := rs\<rparr>" "length rs = ?n"
    and rs: "\<And>j. j < ?n \<Longrightarrow> wanted_receipt (policies tb ! j) \<Longrightarrow>
      \<exists>r. rs ! j = Some r \<and> untag r = Some (receipt_of (Tx_Hash (transactions tb ! j)))" by auto
  have nth: "entries tb ! j = (transactions tb ! j, blocks tb ! j, indices tb ! j, policies tb ! j)" if "j < ?n" for j
    using that ok(1) by (simp add: entries_def batch_ok_def)
  have is_made: "made ts chain receipt_of txb j t"
    if j: "j < ?n" and t: "t \<in> set (bk_txs (chain n))" "untag (transactions tb ! j) = Some t" "chosen ts t"
      "collectEvents (policies tb ! j) \<longleftrightarrow> events_chosen ts t" for j t n
  proof -
    have h: "Tx_Hash (transactions tb ! j) = tx_hash t" using untag_tx [OF t(2)] by blast
    have "\<exists>r. rs ! j = Some r \<and> Receipt_Logs r = rc_logs (receipt_of (tx_hash t))" if "events_chosen ts t"
      using rs [OF j] that t(4) h by (auto simp: wanted_receipt_def dest: untag_receipt)
    with t h show ?thesis unfolding made_def txb(1) by auto
  qed
  have block: "\<exists>n. unat f \<le> n \<and> n \<le> unat l \<and> untag b = Some (chain n)" if b: "b \<in> set bs" for b
  proof -
    obtain i where "i < length bs" "b = bs ! i" using b by (auto simp: in_set_conv_nth)
    with cb range(1) show ?thesis by (intro exI [of _ "unat f + i"]) (auto simp: chain_batch_def word_le_nat_alt)
  qed
  have of_entry: "\<exists>n t. t \<in> set (bk_txs (chain n)) \<and> untag (transactions tb ! j) = Some t \<and> chosen ts t \<and>
      (collectEvents (policies tb ! j) \<longleftrightarrow> events_chosen ts t)" if j: "j < ?n" for j
  proof -
    have "entries tb ! j \<in> set (entries tb)" using j len(2) by simp
    then obtain b where "b \<in> set bs" "entries tb ! j \<in> set (selected ts b)" unfolding ent by auto
    with block selected_chain(1) show ?thesis unfolding nth [OF j] by blast
  qed
  show "j < length (transactions txb) \<Longrightarrow> \<exists>t. made ts chain receipt_of txb j t"
    using of_entry is_made by (fastforce simp: txb(1))
  show "\<exists>j < length (transactions txb). made ts chain receipt_of txb j t"
    if n: "unat f \<le> n" "n \<le> unat l" "t \<in> set (bk_txs (chain n))" "chosen ts t"
  proof -
    let ?b = "bs ! (n - unat f)"
    have b: "?b \<in> set bs" "untag ?b = Some (chain n)" using cb n(1,2) by (auto simp: chain_batch_def)
    from selected_chain(2) [OF b(2) n(3,4)] obtain tx i q where e: "(tx, ?b, i, q) \<in> set (selected ts ?b)" "untag tx = Some t" by blast
    then have "(tx, ?b, i, q) \<in> set (entries tb)" using b(1) unfolding ent by auto
    then obtain j where j: "j < ?n" "entries tb ! j = (tx, ?b, i, q)" by (auto simp: in_set_conv_nth len(2))
    from selected_chain(1) [OF b(2) e(1)] e(2) have "collectEvents q \<longleftrightarrow> events_chosen ts t" by auto
    with is_made [OF j(1) n(3) _ n(4)] nth [OF j(1)] j e(2) show ?thesis by (auto simp: txb(1))
  qed
  have "length (selected ts (bs ! i)) \<le> length (bk_txs (chain (unat f + i)))" if "i < length bs" for i
    using that cb by (intro selected_chain(3)) (simp add: chain_batch_def)
  then have "(\<Sum>i < length bs. length (selected ts (bs ! i))) \<le> (\<Sum>i < length bs. length (bk_txs (chain (unat f + i))))"
    by (intro sum_mono) simp
  moreover have "length (entries tb) = (\<Sum>i < length bs. length (selected ts (bs ! i)))"
    unfolding ent by (simp add: length_concat sum_list_sum_nth atLeast0LessThan)
  moreover have "(\<Sum>i < length bs. length (bk_txs (chain (unat f + i)))) = tx_count (unat f) (Suc (unat l))"
    using cb range(1) sum.shift_bounds_nat_ivl [of "\<lambda>n. length (bk_txs (chain n))" 0 "unat f" "length bs"]
    by (simp add: chain_batch_def word_le_nat_alt add.commute atLeast0LessThan)
  ultimately show "length (transactions txb) \<le> tx_count (unat f) (Suc (unat l))" using len(2) by (simp add: txb(1))
qed

lemma obtainLogsBatch_all:
  assumes run: "obtainLogsBatch D ci f l x = (Inr lgs, x')"
    and R: "0 < LogRange (params ci)" "unat (LogRange (params ci)) \<le> 2 ^ 62" and range: "f \<le> l" "unat l < 2 ^ 62"
    and lg: "info \<in> set (CollectLogs (params ci))" "unat f \<le> n" "n \<le> unat l" "g \<in> set (logs_at n)" "log_filter (lib D) info g"
  shows "g \<in> set lgs"
proof -
  have tip: "unat l + unat (LogRange (params ci)) < 18446744073709551616" "unat f \<le> Suc (unat l)"
    using R range by (auto simp: word_le_nat_alt)
  have "set acc \<subseteq> set lgs \<and> (info \<in> set infos \<longrightarrow> g \<in> set lgs)"
    if "foldE (\<lambda>acc info. requestLogs D ci acc info f (l + 1) l) acc infos x = (Inr lgs, x')" for acc infos x
    using that
  proof (induction infos arbitrary: acc x)
    case (Cons i infos)
    then obtain acc' x1 where one: "requestLogs D ci acc i f (l + 1) l x = (Inr acc', x1)"
      and rest: "foldE (\<lambda>acc info. requestLogs D ci acc info f (l + 1) l) acc' infos x1 = (Inr lgs, x')"
      by (auto simp: bindE_Inr_iff)
    have "acc' = acc @ logs_between logs_at (log_filter (lib D) i) (unat f) (Suc (unat l))"
      by (rule requestLogs_tiles [OF one [unfolded requestLogs_def] R(1) tip])
    then have "set acc \<subseteq> set acc'" "i = info \<Longrightarrow> g \<in> set acc'" using lg(2-5) by (auto simp: logs_between_set simp del: upt_Suc)
    with Cons.IH [OF rest] show ?case by auto
  qed simp
  from this [OF run [unfolded obtainLogsBatch_def]] lg(1) show ?thesis by blast
qed

end

subsection \<open>A batch\<close>

text \<open>What is asked for depends on the rows of transactions and logs only, and stays stored when rows are added.\<close>

definition same_rows :: "tables \<Rightarrow> tables \<Rightarrow> bool" where
  "same_rows a b \<longleftrightarrow> tb_txs a = tb_txs b \<and> tb_logs a = tb_logs b"

lemma same_rows_cong:
  assumes "same_rows a b"
  shows "events_kept L ts chain receipt_of a \<longleftrightarrow> events_kept L ts chain receipt_of b"
    "collected L ts infos chain logs_at receipt_of n a \<longleftrightarrow> collected L ts infos chain logs_at receipt_of n b"
    "ids_below m a \<longleftrightarrow> ids_below m b"
  using assms by (simp_all add: same_rows_def events_kept_def collected_def ids_below_def tx_stored_def log_stored_def)

lemma saved_same_rows: "same_rows (saved_tables data li lt tb) (data_tables data tb)"
  by (simp add: same_rows_def saved_tables_def coverage_tables_def lower_floor_tables_def split: option.split)

lemma data_tx_stored: "tx_stored L t tb \<Longrightarrow> tx_stored L t (data_tables data tb)"
  using fold_ins_tx_rows [of "fold ins_block (d_Blocks data) tb" "d_Transactions data"]
  by (auto simp: tx_stored_def data_tables_rows(1))

lemma data_collected_mono:
  "collected L ts infos chain logs_at receipt_of n tb \<Longrightarrow> collected L ts infos chain logs_at receipt_of n (data_tables data tb)"
  using data_tx_stored log_stored_mono unfolding collected_def by blast

lemma tip_same_rows: "tb = tb' \<or> (\<exists>k t. tb = upsert_state ChainTip k t tb') \<Longrightarrow> same_rows tb tb'"
  by (auto simp: same_rows_def)

context indexing
begin

text \<open>What follows the fetching of a batch: a failure that leaves the tables, or the rows of its transactions and logs.\<close>

lemma save_stage_rows:
  assumes bs: "chain_batch chain first n bs"
    and run: "processAndSave D ci bs txb lgs first lastIx ts w = (r, w')"
  shows "tabs (ext w') = tabs (ext w) \<and> r \<noteq> Inr () \<or>
    (\<exists>d1 d2. processTransactions (lib D) txb (newDatabaseStructData\<lparr>d_Blocks := batch_blocks (lib D) chain first n\<rparr>)
        (TransactionId w) = (Inr d1, TransactionId w') \<and>
       processLogs (lib D) lgs bs first d1 = Inr d2 \<and> same_rows (tabs (ext w')) (data_tables d2 (tabs (ext w))))"
proof -
  let ?data0 = "newDatabaseStructData\<lparr>d_Blocks := batch_blocks (lib D) chain first n\<rparr>"
  note conv = chain_batch_rows [OF bs, of "lib D"]
  obtain r1 t1 where tx: "processTransactions (lib D) txb ?data0 (TransactionId w) = (r1, t1)" by force
  let ?w1 = "w\<lparr>TransactionId := t1\<rparr>"
  show ?thesis
  proof (cases "\<exists>d1 d2. r1 = Inr d1 \<and> processLogs (lib D) lgs bs first d1 = Inr d2")
    case False
    with run have "tabs (ext w') = tabs (ext w) \<and> r \<noteq> Inr ()"
      by (cases r1) (auto simp: processAndSave_def conv tx bindE_def wrapE_def liftT_def split: sum.splits)
    then show ?thesis by simp
  next
    case True
    then obtain d1 d2 where d: "r1 = Inr d1" "processLogs (lib D) lgs bs first d1 = Inr d2" by blast
    with run have "wrapE ''ci.saveData'' (liftX (saveData (e_db ci) d2 lastIx ts)) ?w1 = (r, w')"
      by (simp add: processAndSave_def conv tx bindE_def wrapE_def liftT_def)
    then obtain r2 x' where s: "saveData (e_db ci) d2 lastIx ts (ext w) = (r2, x')"
      and r: "r = wrapR ''ci.saveData'' r2" "w' = ?w1\<lparr>ext := x'\<rparr>"
      by (auto simp: wrapE_def liftX_def split: prod.splits)
    from saveData_outcomes [OF s] saved_same_rows show ?thesis
      using tx d r by (auto simp: same_rows_def)
  qed
qed

text \<open>The rows of a batch are those that are asked for in its range.\<close>

lemma batch_collected:
  defines "ts \<equiv> e_transactions ci" and "infos \<equiv> CollectLogs (params ci)"
  assumes streams: "bothStreams D ci f l x = (Inr ((bs, txb), lgs), x')"
    and R: "0 < LogRange (params ci)" "unat (LogRange (params ci)) \<le> 2 ^ 62" and range: "f \<le> l" "unat l < 2 ^ 62"
    and distinct: "txs_distinct chain"
    and st: "ids_below (unat id0) tb" "events_kept (lib D) ts chain receipt_of tb"
    and room: "unat id0 + tx_count (unat f) (Suc (unat l)) < 18446744073709551616"
    and txs: "processTransactions (lib D) txb (newDatabaseStructData\<lparr>d_Blocks := bls\<rparr>) id0 = (Inr d1, id1)"
    and logs: "processLogs (lib D) lgs bs f d1 = Inr d2"
  shows "events_kept (lib D) ts chain receipt_of (data_tables d2 tb)" "ids_below (unat id1) (data_tables d2 tb)"
    "unat id1 \<le> unat id0 + tx_count (unat f) (Suc (unat l))"
    "unat f \<le> n \<Longrightarrow> n \<le> unat l \<Longrightarrow> collected (lib D) ts infos chain logs_at receipt_of n (data_tables d2 tb)"
proof -
  obtain x0 x1 y0 y1 where b: "blocksStream D ci f l x0 = (Inr (bs, txb), x1)" and g: "obtainLogsBatch D ci f l y0 = (Inr lgs, y1)"
    using streams by (auto simp: bothStreams_def bindE_Inr_iff split: if_splits)
  have l: "unat l < 18446744073709551615" using range(2) by simp
  note made = blocksStream_made [OF b range(1) l, folded ts_def]
  have room': "unat id0 + length (transactions txb) < 18446744073709551616" using made(3) room by linarith
  note data = data_collected [OF st distinct hash_law made(1) room' txs _ _ _ logs, simplified newDatabaseStructData_def, simplified]
  show "events_kept (lib D) ts chain receipt_of (data_tables d2 tb)" "ids_below (unat id1) (data_tables d2 tb)"
    by (fact data(1,2))+
  have "unat id1 = unat id0 + length (transactions txb)"
    using processTransactions_prefix [OF txs [unfolded processTransactions_def]] room' by (simp add: unat_offset)
  with made(3) show "unat id1 \<le> unat id0 + tx_count (unat f) (Suc (unat l))" by simp
  show "collected (lib D) ts infos chain logs_at receipt_of n (data_tables d2 tb)" if n: "unat f \<le> n" "n \<le> unat l"
    unfolding collected_def
  proof (intro conjI ballI impI)
    fix t assume t: "t \<in> set (bk_txs (chain n))" "chosen ts t"
    from made(2) [OF n t] data(3) show "tx_stored (lib D) t (data_tables d2 tb)" by blast
  next
    fix t g assume t: "t \<in> set (bk_txs (chain n))" "events_chosen ts t" and g: "g \<in> set (rc_logs (receipt_of (tx_hash t)))"
    from t(2) have "chosen ts t" by (simp add: events_chosen_def)
    from made(2) [OF n t(1) this] data(3) t(2) g show "log_stored (lib D) g (data_tables d2 tb)" by blast
  next
    fix info h assume "info \<in> set infos" "h \<in> set (logs_at n)" "log_filter (lib D) info h"
    with obtainLogsBatch_all [OF g R range _ n] have "h \<in> set lgs" by (simp add: infos_def)
    with data(4) show "log_stored (lib D) h (data_tables d2 tb)" by blast
  qed
qed

text \<open>What the loop keeps: the counter is above all ids and has room for the transactions that are left.\<close>

definition counted :: "u64 \<Rightarrow> 'x world \<Rightarrow> bool" where
  "counted i w \<longleftrightarrow> ids_below (unat (TransactionId w)) (tabs (ext w)) \<and>
     unat (TransactionId w) + tx_count (unat i) (2 ^ 62) < 18446744073709551616"

abbreviation kept_events :: "'x world \<Rightarrow> bool" where
  "kept_events w \<equiv> events_kept (lib D) (e_transactions ci) chain receipt_of (tabs (ext w))"

abbreviation all_collected :: "nat \<Rightarrow> 'x world \<Rightarrow> bool" where
  "all_collected n w \<equiv> collected (lib D) (e_transactions ci) (CollectLogs (params ci)) chain logs_at receipt_of n (tabs (ext w))"

lemma tx_count_split:
  assumes "a \<le> b" "b \<le> c" "b \<le> d"
  shows "tx_count a b + tx_count d c \<le> tx_count a c"
proof -
  have "tx_count d c \<le> tx_count b c" using assms(3) by (intro sum_mono2) auto
  moreover have "tx_count a b + tx_count b c = tx_count a c" using assms(1,2) by (rule sum.atLeastLessThan_concat)
  ultimately show ?thesis by linarith
qed

lemma indexBatch_collected:
  assumes B: "0 < BatchSize (params ci)" "unat (BatchSize (params ci)) \<le> 2 ^ 62"
    and R: "0 < LogRange (params ci)" "unat (LogRange (params ci)) \<le> 2 ^ 62"
    and distinct: "txs_distinct chain"
    and rg: "unat (r_end rg) < 2 ^ 62" "i \<le> r_end rg"
    and st: "counted i w" "kept_events w"
    and run: "indexBatch D ci i rg w = (r, w')"
  defines "i' \<equiv> i + BatchSize (params ci)"
  shows "kept_events w' \<and> (r = Inr () \<longrightarrow> counted i' w' \<and>
    (\<forall>n. unat i \<le> n \<longrightarrow> n < unat i' \<longrightarrow> n \<le> unat (r_end rg) \<longrightarrow> all_collected n w') \<and>
    (\<forall>n. all_collected n w \<longrightarrow> all_collected n w'))"
proof -
  define l where "l = min (i + BatchSize (params ci) - 1) (r_end rg)"
  note last = batch_last [OF B rg, folded l_def i'_def]
  have l62: "unat l < 2 ^ 62" "unat l < 18446744073709551615" using last(2) rg(1) by (auto simp: word_le_nat_alt)
  obtain r1 x1 where b: "bothStreams D ci i l (ext w) = (r1, x1)" by force
  have t1: "tabs x1 = tabs (ext w)" using keepsD [OF bothStreams_keeps b] by blast
  show ?thesis
  proof (cases r1)
    case (Inl e)
    with run b have "r = Inl e" "w' = w\<lparr>ext := x1\<rparr>"
      by (auto simp: indexBatch_def Let_def l_def [symmetric] bindE_def liftX_def)
    with t1 st(2) show ?thesis by simp
  next
    case (Inr y)
    obtain bs txb lgs where y: "y = ((bs, txb), lgs)" by (metis prod.exhaust)
    note streams = b [unfolded Inr y]
    have cb: "chain_batch chain i (Suc (unat l) - unat i) bs"
      by (rule bothStreams_chain [OF streams last(1) l62(2)])
    then have len: "\<not> length bs \<le> unat (min (BatchSize (params ci) - 1) (r_end rg - i))"
      using last(1,5) by (auto simp: chain_batch_def word_le_nat_alt)
    let ?ts = "Block_Time (bs ! unat (min (BatchSize (params ci) - 1) (r_end rg - i)))"
    from run b len have "processAndSave D ci bs txb lgs i l ?ts (w\<lparr>ext := x1\<rparr>) = (r, w')"
      by (simp add: indexBatch_def Let_def l_def [symmetric] bindE_def liftX_def Inr y)
    from save_stage_rows [OF cb this] t1 consider
        "tabs (ext w') = tabs (ext w)" "r \<noteq> Inr ()"
      | d1 d2 where "processTransactions (lib D) txb (newDatabaseStructData\<lparr>d_Blocks := batch_blocks (lib D) chain i (Suc (unat l) - unat i)\<rparr>)
          (TransactionId w) = (Inr d1, TransactionId w')"
        "processLogs (lib D) lgs bs i d1 = Inr d2" "same_rows (tabs (ext w')) (data_tables d2 (tabs (ext w)))"
      by auto
    then show ?thesis
    proof cases
      case 1
      with st(2) show ?thesis by simp
    next
      case 2
      have i: "unat i \<le> Suc (unat l)" "Suc (unat l) \<le> unat i'" "Suc (unat l) \<le> 2 ^ 62"
        using last(1,3,4) l62(1) by (auto simp: word_le_nat_alt)
      have count: "tx_count (unat i) (Suc (unat l)) + tx_count (unat i') (2 ^ 62) \<le> tx_count (unat i) (2 ^ 62)"
        by (rule tx_count_split [OF i(1,3,2)])
      have ids: "ids_below (unat (TransactionId w)) (tabs (ext w))"
        and room: "unat (TransactionId w) + tx_count (unat i) (2 ^ 62) < 18446744073709551616"
        using st(1) by (simp_all add: counted_def)
      then have room': "unat (TransactionId w) + tx_count (unat i) (Suc (unat l)) < 18446744073709551616" using count by linarith
      note batch = batch_collected [OF streams R last(1) l62(1) distinct ids st(2) room' 2(1,2)]
      note same = same_rows_cong [OF 2(3)]
      have "counted i' w'" unfolding counted_def same(3) using batch(2,3) count room by linarith
      moreover have "all_collected n w'" if "unat i \<le> n" "n < unat i'" "n \<le> unat (r_end rg)" for n
        unfolding same(2) using that last(3,4) by (intro batch(4)) auto
      moreover have "all_collected n w'" if "all_collected n w" for n
        unfolding same(2) by (rule data_collected_mono [OF that])
      ultimately show ?thesis using batch(1) same(1) by blast
    qed
  qed
qed

lemma IndexHistory_collected:
  assumes B: "0 < BatchSize (params ci)" "unat (BatchSize (params ci)) \<le> 2 ^ 62"
    and R: "0 < LogRange (params ci)" "unat (LogRange (params ci)) \<le> 2 ^ 62"
    and distinct: "txs_distinct chain" and st: "counted s w" "kept_events w"
    and run: "IndexHistory D ci s w = (r, w')"
  shows "kept_events w' \<and> (\<forall>e. r = Inr e \<longrightarrow> (\<forall>n. unat s \<le> n \<longrightarrow> n \<le> unat e \<longrightarrow> all_collected n w'))"
proof -
  define P where "P = (\<lambda>(i::u64) (e::u64) w. counted i w \<and> kept_events w \<and>
    (\<forall>n. unat s \<le> n \<longrightarrow> n < unat i \<longrightarrow> n \<le> unat e \<longrightarrow> all_collected n w))"
  have "kept_events w' \<and> (\<forall>e. r = Inr e \<longrightarrow> unat e < 2 ^ 62 \<and> (\<exists>i'. e < i' \<and> P i' e w'))"
  proof (rule IndexHistory_world_rule [of P kept_events, OF _ _ _ _ _ run])
    fix i rg w r w'
    assume P: "P i (r_end rg) w" and e62: "unat (r_end rg) < 2 ^ 62" and i: "i \<le> r_end rg" and b: "indexBatch D ci i rg w = (r, w')"
    have "counted i w" "kept_events w" using P by (simp_all add: P_def)
    from indexBatch_collected [OF B R distinct e62 i this b] P
    show "kept_events w' \<and> (r = Inr () \<longrightarrow> P (i + BatchSize (params ci)) (r_end rg) w')"
      unfolding P_def by (meson not_le)
  next
    fix i e w x' assume P: "P i e w" and "tabs x' = tabs (ext w) \<or> (\<exists>k t. tabs x' = upsert_state ChainTip k t (tabs (ext w)))"
    from same_rows_cong [OF tip_same_rows [OF this(2)]] P show "P i e (w\<lparr>ext := x'\<rparr>)" by (simp add: P_def counted_def)
  next
    fix i e e' w assume "P i e w" "i \<le> e"
    then show "P i e' w" by (simp add: P_def word_le_nat_alt)
  qed (use st in \<open>auto simp: P_def\<close>)
  then show ?thesis unfolding P_def by (simp add: word_less_nat_alt) (metis le_less_trans)
qed

end

text \<open>
  C30: what the indexer is for. A history pass that returns \<open>e\<close> has stored everything that the configuration asks for
  in the blocks from its start to \<open>e\<close>: every transaction that an entry selects, every log of the receipt of a transaction
  whose events are wanted, and every log that matches a collector of logs. Nothing is lost to the batching, to the order of the
  goroutines, to the removal of duplicate logs, or to rows that are there already. And
  on every outcome no stored transaction of the chain misses events that are wanted, which is what the next pass needs: a
  transaction that is stored already gets no second row, so the logs of its receipt, which refer to
  the id of a new row, would be skipped with it. The counter must be above all ids, with room for the transactions to come, as a
  start of the program leaves it, and the hash of a transaction must identify it.
\<close>

theorem history_collects:
  assumes ix: "indexing D ci chain logs_at receipt_of tabs"
    and B: "0 < BatchSize (params ci)" "unat (BatchSize (params ci)) \<le> 2 ^ 62"
    and R: "0 < LogRange (params ci)" "unat (LogRange (params ci)) \<le> 2 ^ 62"
    and distinct: "txs_distinct chain"
    and ids: "ids_below (unat (TransactionId w)) (tabs (ext w))"
      "unat (TransactionId w) + (\<Sum>n \<in> {unat s..<2 ^ 62}. length (bk_txs (chain n))) < 18446744073709551616"
    and kept: "events_kept (lib D) (e_transactions ci) chain receipt_of (tabs (ext w))"
    and run: "IndexHistory D ci s w = (r, w')"
  shows "events_kept (lib D) (e_transactions ci) chain receipt_of (tabs (ext w')) \<and>
    (\<forall>e. r = Inr e \<longrightarrow> (\<forall>n. unat s \<le> n \<longrightarrow> n \<le> unat e \<longrightarrow>
       collected (lib D) (e_transactions ci) (CollectLogs (params ci)) chain logs_at receipt_of n (tabs (ext w'))))"
  using indexing.IndexHistory_collected [OF ix B R distinct _ kept run] ids
  unfolding indexing.counted_def [OF ix] by blast

subsection \<open>On the concrete world\<close>

text \<open>
  Block 1 holds a call whose events are wanted, with a log in its receipt; block 2 a log that a collector of
  logs asks for.
\<close>

definition wanted_call :: ext_tx where
  "wanted_call = example_tx 7 (Some 0xaa) [0xb5, 0x95, 0x89, 0xd1]"

definition event_log :: "u64 \<Rightarrow> hash \<Rightarrow> ext_log" where
  "event_log k h = \<lparr>lg_address = 0xaa, lg_topics = [], lg_data = [1], lg_block_number = k, lg_tx_hash = h, lg_index = 0\<rparr>"

definition call_txs :: "nat \<Rightarrow> ext_tx list" where
  "call_txs k = (if k = 1 then [wanted_call] else [])"

definition call_logs :: "nat \<Rightarrow> ext_log list" where
  "call_logs k = (if k = 2 then [event_log 2 9] else [])"

definition call_receipt :: "hash \<Rightarrow> ext_receipt" where
  "call_receipt h = \<lparr>rc_status = 1, rc_logs = [event_log 1 7]\<rparr>"

definition call_policies :: policies where
  "call_policies = store_policy 0xaa [0xb5, 0x95, 0x89, 0xd1] \<lparr>status = True, collectEvents = True\<rparr> (\<lambda>_. None)"

definition call_engine :: "mem engine" where
  "call_engine = mem_engine ((Indexer defaultConfig)\<lparr>BatchSize := 2, LogRange := 2, Confirmations := 0, StopIndex := 2,
       CollectLogs := [named_log '''' '''']\<rparr>)
     call_policies (\<lambda>k. of_nat (10 * k)) call_txs call_logs call_receipt"

abbreviation call_chain :: "nat \<Rightarrow> ext_block" where
  "call_chain \<equiv> make_chain (\<lambda>k. of_nat (10 * k)) call_txs"

lemma call_indexing: "indexing (mem_deps k n) call_engine call_chain (make_logs call_logs) call_receipt m_tabs"
  unfolding call_engine_def by (rule mem_indexing.indexing_axioms)

lemma make_chain_txs: "bk_txs (make_chain time txs n) = txs n"
  by (simp add: make_chain_def)

lemma call_run:
  "case IndexHistory (mem_deps 1 10) call_engine 1 (fresh_world 2) of
     (Inr e, w) \<Rightarrow> e = 2 \<and> length (tb_txs (m_tabs (ext w))) = 1 \<and> length (tb_logs (m_tabs (ext w))) = 2 | (Inl _, _) \<Rightarrow> False"
  by code_simp

theorem history_collects_witness:
  "\<exists>w'. IndexHistory (mem_deps 1 10) call_engine 1 (fresh_world 2) = (Inr 2, w') \<and>
     tx_stored plain_lib wanted_call (m_tabs (ext w')) \<and> log_stored plain_lib (event_log 1 7) (m_tabs (ext w')) \<and>
     log_stored plain_lib (event_log 2 9) (m_tabs (ext w'))"
proof -
  obtain w' where run: "IndexHistory (mem_deps 1 10) call_engine 1 (fresh_world 2) = (Inr 2, w')"
    using call_run by (cases "IndexHistory (mem_deps 1 10) call_engine 1 (fresh_world 2)") (auto split: sum.splits)
  have params: "BatchSize (params call_engine) = 2" "LogRange (params call_engine) = 2" "CollectLogs (params call_engine) = [named_log '''' '''']"
    "e_transactions call_engine = call_policies" by (simp_all add: call_engine_def)
  have distinct: "txs_distinct call_chain"
    by (auto simp: txs_distinct_def make_chain_txs call_txs_def split: if_splits)
  have "(\<Sum>n \<in> {1..<2 ^ 62}. length (bk_txs (call_chain n))) = (\<Sum>n \<in> {1..<2 ^ 62::nat}. if n = 1 then 1 else 0)"
    by (intro sum.cong) (simp_all add: make_chain_txs call_txs_def)
  also have "\<dots> = 1" by (subst sum.delta) simp_all
  finally have room: "(\<Sum>n \<in> {1..<2 ^ 62}. length (bk_txs (call_chain n))) = 1" .
  have fresh: "tb_txs (m_tabs (ext (fresh_world 2))) = []" "TransactionId (fresh_world 2) = 1"
    by (simp_all add: fresh_world_def head_at_def empty_mem_def empty_tables_def)
  have "ids_below 1 (m_tabs (ext (fresh_world 2)))" "events_kept plain_lib call_policies call_chain call_receipt (m_tabs (ext (fresh_world 2)))"
    by (simp_all add: ids_below_def events_kept_def tx_stored_def fresh)
  with history_collects [OF call_indexing _ _ _ _ distinct _ _ _ run] room
  have all: "collected plain_lib call_policies [named_log '''' ''''] call_chain (make_logs call_logs) call_receipt n (m_tabs (ext w'))"
    if "1 \<le> n" "n \<le> 2" for n using that by (simp add: params fresh)
  have "match_policy call_policies 0xaa [0xb5, 0x95, 0x89, 0xd1] = (True, \<lparr>status = True, collectEvents = True\<rparr>)" by code_simp
  then have wanted: "chosen call_policies wanted_call" "events_chosen call_policies wanted_call"
    by (simp_all add: chosen_def events_chosen_def wanted_call_def example_tx_def)
  have filter: "log_filter plain_lib (named_log '''' '''') (event_log 2 9)" by code_simp
  from all [of 1] wanted have "tx_stored plain_lib wanted_call (m_tabs (ext w'))" "log_stored plain_lib (event_log 1 7) (m_tabs (ext w'))"
    by (simp_all add: collected_def make_chain_txs call_txs_def call_receipt_def)
  moreover have "log_stored plain_lib (event_log 2 9) (m_tabs (ext w'))"
    using all [of 2] filter by (simp add: collected_def make_logs_def call_logs_def event_log_def)
  ultimately show ?thesis using run by blast
qed

end
