(* ===== verification/Rpc_Slots.thy ===== *)
theory Rpc_Slots
  imports Chain_Client
begin

text \<open>
  The semaphore of \<^verbatim>\<open>internal/chain/chain.go\<close> shared by all goroutines: \<open>Client.sem\<close> is a
  channel whose capacity is the number of RPC calls that may run at once. Any number of
  goroutines call methods of one client; which of them moves next, and whether a waiting
  one takes a free slot or sees its context cancelled, is not determined, so the steps are
  a relation. A method that has its slot ends in \<open>Ended\<close> with the slot given back on every path, since
  \<^verbatim>\<open>defer c.release()\<close> runs on each of them. \<^verbatim>\<open>ChainID\<close> takes no slot.
\<close>

subsection \<open>The methods of the client\<close>

datatype rpc_method =
    CallChainID
  | CallBlockByNumber "int option"
  | CallHeaderByNumber "int option"
  | CallTransactionReceipt hash
  | CallFilterLogs filter_query
  | CallCodeAt address "int option"
  | CallCallContract call_msg "int option"

datatype rpc_value =
    ChainIDValue int
  | BlockValue block
  | HeaderValue header
  | ReceiptValue receipt
  | LogsValue "ext_log list"
  | BytesValue "byte list"

fun takes_slot :: "rpc_method \<Rightarrow> bool" where
  "takes_slot CallChainID = False"
| "takes_slot _ = True"

fun invoke :: "'x client \<Rightarrow> rpc_method \<Rightarrow> ('x, rpc_value) io" where
  "invoke c CallChainID = mapE ChainIDValue (Client_ChainID c)"
| "invoke c (CallBlockByNumber n) = mapE BlockValue (BlockByNumber c n)"
| "invoke c (CallHeaderByNumber n) = mapE HeaderValue (HeaderByNumber c n)"
| "invoke c (CallTransactionReceipt h) = mapE ReceiptValue (TransactionReceipt c h)"
| "invoke c (CallFilterLogs q) = mapE LogsValue (FilterLogs c q)"
| "invoke c (CallCodeAt a n) = mapE BytesValue (CodeAt c a n)"
| "invoke c (CallCallContract msg n) = mapE BytesValue (CallContract c msg n)"

text \<open>What a method does once it has its slot: the method of a client without a semaphore.\<close>

definition body :: "'x client \<Rightarrow> rpc_method \<Rightarrow> ('x, rpc_value) io" where
  "body c = invoke (c\<lparr>c_sem := None\<rparr>)"

lemma acquire_nil [simp]: "client_acquire (c\<lparr>c_sem := None\<rparr>) = ret ()"
  by (simp add: client_acquire_def fun_eq_iff)

lemma invoke_slot: "takes_slot m \<Longrightarrow> invoke c m = bindE (client_acquire c) (\<lambda>_. body c m)"
  by (cases m) (simp_all add: body_def mapE_def bindE_assoc BlockByNumber_def HeaderByNumber_def TransactionReceipt_def
      FilterLogs_def CodeAt_def CallContract_def)

lemma invoke_no_slot: "\<not> takes_slot m \<Longrightarrow> invoke c m = body c m"
  by (cases m) (simp_all add: body_def Client_ChainID_def)

subsection \<open>Goroutines that share a client\<close>

datatype call_pc = NotCalled | Acquiring | InCall | Ended "go_error + rpc_value"

text \<open>
  The outside state, how many slots of the channel are taken, and the method and position of each goroutine.
\<close>

record 'x slots =
  outside :: 'x
  used :: nat
  calls :: "(rpc_method \<times> call_pc) list"

text \<open>Sending to a full channel and receiving from an empty one would block: \<open>None\<close>.\<close>

definition acquire_slot :: "nat option \<Rightarrow> nat \<Rightarrow> nat option" where
  "acquire_slot channel n =
     (case channel of None \<Rightarrow> Some n | Some capacity \<Rightarrow> if n < capacity then Some (Suc n) else None)"

definition release_slot :: "nat option \<Rightarrow> nat \<Rightarrow> nat option" where
  "release_slot channel n =
     (case channel of None \<Rightarrow> Some n | Some _ \<Rightarrow> (case n of 0 \<Rightarrow> None | Suc m \<Rightarrow> Some m))"

text \<open>
  In \<open>slot_step b c\<close> the context of a waiting goroutine may be cancelled, with any error, only if \<open>b\<close>. A
  call of the node changes the outside state when it returns.
\<close>

inductive slot_step :: "bool \<Rightarrow> 'x client \<Rightarrow> 'x slots \<Rightarrow> 'x slots \<Rightarrow> bool" for b c where
  call: "i < length (calls s) \<Longrightarrow> calls s ! i = (m, NotCalled) \<Longrightarrow>
    slot_step b c s (s\<lparr>calls := (calls s)[i := (m, if takes_slot m then Acquiring else InCall)]\<rparr>)"
| acquired: "i < length (calls s) \<Longrightarrow> calls s ! i = (m, Acquiring) \<Longrightarrow> acquire_slot (c_sem c) (used s) = Some u \<Longrightarrow>
    slot_step b c s (s\<lparr>used := u, calls := (calls s)[i := (m, InCall)]\<rparr>)"
| cancelled: "i < length (calls s) \<Longrightarrow> calls s ! i = (m, Acquiring) \<Longrightarrow> c_sem c \<noteq> None \<Longrightarrow> b \<Longrightarrow>
    slot_step b c s (s\<lparr>calls := (calls s)[i := (m, Ended (Inl e))]\<rparr>)"
| returned: "i < length (calls s) \<Longrightarrow> calls s ! i = (m, InCall) \<Longrightarrow> body c m (outside s) = (r, x) \<Longrightarrow>
    (if takes_slot m then release_slot (c_sem c) (used s) else Some (used s)) = Some u \<Longrightarrow>
    slot_step b c s (s\<lparr>outside := x, used := u, calls := (calls s)[i := (m, Ended r)]\<rparr>)"

inductive_cases slot_stepE: "slot_step b c s s'"

definition init_slots :: "'x \<Rightarrow> rpc_method list \<Rightarrow> 'x slots" where
  "init_slots x ms = \<lparr>outside = x, used = 0, calls = map (\<lambda>m. (m, NotCalled)) ms\<rparr>"

text \<open>The calls in flight that take a slot.\<close>

definition in_flight :: "rpc_method \<times> call_pc \<Rightarrow> bool" where
  "in_flight = (\<lambda>(m, p). takes_slot m \<and> p = InCall)"

definition in_calls :: "'x slots \<Rightarrow> nat" where
  "in_calls s = length (filter in_flight (calls s))"

text \<open>
  One goroutine alone does what the sequential method does: with a free slot, the steps of a call lead
  to its result and outside state, and leave the slots as they were.
\<close>

lemma invoke_by_steps:
  assumes i: "i < length (calls s)" "calls s ! i = (m, NotCalled)"
    and free: "\<And>capacity. c_sem c = Some capacity \<Longrightarrow> used s < capacity"
    and run: "invoke c m (outside s) = (r, x)"
    and live: "takes_slot m \<Longrightarrow> fst (client_acquire c (outside s)) = Inr ()"
  shows "(slot_step False c)\<^sup>*\<^sup>* s (s\<lparr>outside := x, calls := (calls s)[i := (m, Ended r)]\<rparr>)"
proof -
  let ?at = "\<lambda>p. s\<lparr>calls := (calls s)[i := (m, p)]\<rparr>"
  have first: "slot_step False c s (?at (if takes_slot m then Acquiring else InCall))"
    by (rule slot_step.call [OF i])
  show ?thesis
  proof (cases "takes_slot m")
    case True
    have "client_acquire c (outside s) = (Inr (), outside s)"
      using live [OF True] client_acquire_state by (metis prod.collapse)
    with run True have run': "body c m (outside s) = (r, x)" by (simp add: invoke_slot bindE_run_Inr)
    obtain u where u: "acquire_slot (c_sem c) (used s) = Some u"
      using free by (cases "c_sem c") (auto simp: acquire_slot_def)
    let ?in = "s\<lparr>used := u, calls := (calls s)[i := (m, InCall)]\<rparr>"
    have "slot_step False c (?at Acquiring) ?in"
      using slot_step.acquired [of i "?at Acquiring" m c u False] i(1) u by simp
    moreover have "release_slot (c_sem c) u = Some (used s)"
      using u by (auto simp: acquire_slot_def release_slot_def split: option.splits if_splits)
    then have "slot_step False c ?in (s\<lparr>outside := x, calls := (calls s)[i := (m, Ended r)]\<rparr>)"
      using slot_step.returned [of i ?in m c r x "used s" False] i(1) run' True by simp
    ultimately show ?thesis using first True by (auto intro: rtranclp.rtrancl_into_rtrancl)
  next
    case False
    have "slot_step False c (?at InCall) (s\<lparr>outside := x, calls := (calls s)[i := (m, Ended r)]\<rparr>)"
      using slot_step.returned [of i "?at InCall" m c r x "used s" False] i(1) run False by (simp add: invoke_no_slot)
    then show ?thesis using first False by (auto intro: rtranclp.rtrancl_into_rtrancl)
  qed
qed

subsection \<open>The invariant\<close>

definition slots_ok :: "'x client \<Rightarrow> 'x slots \<Rightarrow> bool" where
  "slots_ok c s \<longleftrightarrow> (\<forall>capacity. c_sem c = Some capacity \<longrightarrow> used s = in_calls s \<and> used s \<le> capacity) \<and>
     (\<forall>i < length (calls s). snd (calls s ! i) = Acquiring \<longrightarrow> takes_slot (fst (calls s ! i)))"

lemma count_update:
  "i < length ps \<Longrightarrow>
   length (filter P (ps[i := p])) + (if P (ps ! i) then 1 else 0) = length (filter P ps) + (if P p then 1 else 0)"
proof (induction ps arbitrary: i)
  case (Cons q ps)
  then show ?case using Cons.IH [of "i - 1"] by (cases i) auto
qed simp

lemma in_calls_update:
  assumes "i < length (calls s)" "calls s ! i = (m, p)" "calls s' = (calls s)[i := (m, q)]"
  shows "in_calls s' + (if takes_slot m \<and> p = InCall then 1 else 0) = in_calls s + (if takes_slot m \<and> q = InCall then 1 else 0)"
  using count_update [OF assms(1), of in_flight "(m, q)"] assms(2,3) by (simp add: in_calls_def in_flight_def)

lemma slot_step_ok:
  assumes "slot_step b c s s'" "slots_ok c s"
  shows "slots_ok c s'"
  using assms(1)
proof cases
  case (call i m)
  with in_calls_update [OF call(2,3), of s'] assms(2) show ?thesis by (auto simp: slots_ok_def nth_list_update split: if_splits)
next
  case (acquired i m u)
  then have "takes_slot m" using assms(2) by (auto simp: slots_ok_def dest: spec [of _ i])
  with in_calls_update [OF acquired(2,3), of s' InCall] acquired assms(2) show ?thesis
    by (auto simp: slots_ok_def acquire_slot_def nth_list_update split: if_splits)
next
  case (cancelled i m e)
  with in_calls_update [OF cancelled(2,3), of s'] assms(2) show ?thesis by (auto simp: slots_ok_def nth_list_update)
next
  case (returned i m r x u)
  with in_calls_update [OF returned(2,3), of s' "Ended r"] assms(2) show ?thesis
    by (auto simp: slots_ok_def release_slot_def nth_list_update split: if_splits nat.splits)
qed

lemma slot_steps_ok: "(slot_step b c)\<^sup>*\<^sup>* s s' \<Longrightarrow> slots_ok c s \<Longrightarrow> slots_ok c s'"
  by (induction rule: rtranclp_induct) (auto dest: slot_step_ok)

lemma init_slots_ok: "slots_ok c (init_slots x ms)"
  by (auto simp: slots_ok_def init_slots_def in_calls_def in_flight_def filter_empty_conv)

lemma dialled_sem:
  "DialRPCNode avx_dial eth_dial nil_rpc ctx_err url chainType maxConcurrency = Inr c \<Longrightarrow>
   c_sem c = Some (nat (max 1 maxConcurrency))"
  by (auto simp: DialRPCNode_def Let_def bindR_def max_def split: if_splits sum.splits)

lemma in_calls_pos: "i < length (calls s) \<Longrightarrow> calls s ! i = (m, InCall) \<Longrightarrow> takes_slot m \<Longrightarrow> 0 < in_calls s"
  by (force simp: in_calls_def in_flight_def filter_empty_conv in_set_conv_nth)

text \<open>
  C34: of the methods of the client that take a slot, which are all but \<^verbatim>\<open>ChainID\<close>, the number of calls that
  run at once never exceeds \<^verbatim>\<open>rpc_concurrency\<close> (one if that is less than one), however the goroutines are
  scheduled and cancelled; the slots taken are exactly those of the calls that run, so none is lost and none
  is given back twice; and giving a slot back never blocks.
\<close>

theorem rpc_calls_capped:
  assumes "DialRPCNode avx_dial eth_dial nil_rpc ctx_err url chainType maxConcurrency = Inr c"
    and "(slot_step b c)\<^sup>*\<^sup>* (init_slots x ms) s"
  shows "int (in_calls s) \<le> max 1 maxConcurrency \<and> used s = in_calls s \<and>
    (\<forall>i < length (calls s). \<forall>m. calls s ! i = (m, InCall) \<longrightarrow> takes_slot m \<longrightarrow> release_slot (c_sem c) (used s) \<noteq> None)"
proof -
  have "slots_ok c s" by (rule slot_steps_ok [OF assms(2) init_slots_ok])
  then have "used s = in_calls s" "used s \<le> nat (max 1 maxConcurrency)" using dialled_sem [OF assms(1)] by (simp_all add: slots_ok_def)
  moreover have "release_slot (c_sem c) (used s) \<noteq> None" if "0 < used s"
    using that by (auto simp: release_slot_def split: option.splits nat.splits)
  ultimately show ?thesis using in_calls_pos [of _ s] by auto
qed

subsection \<open>Progress\<close>

primrec pc_left :: "call_pc \<Rightarrow> nat" where
  "pc_left NotCalled = 3"
| "pc_left Acquiring = 2"
| "pc_left InCall = 1"
| "pc_left (Ended r) = 0"

definition steps_left :: "'x slots \<Rightarrow> nat" where
  "steps_left s = sum_list (map (pc_left \<circ> snd) (calls s))"

lemma steps_left_update:
  "i < length ps \<Longrightarrow> f p < f (ps ! i) \<Longrightarrow> sum_list (map f (ps[i := p])) < sum_list (map (f :: _ \<Rightarrow> nat) ps)"
proof (induction ps arbitrary: i)
  case (Cons q ps)
  then show ?case using Cons.IH [of "i - 1"] by (cases i) auto
qed simp

lemma slot_step_decreases: "slot_step b c s s' \<Longrightarrow> steps_left s' < steps_left s"
  by (elim slot_stepE) (auto simp: steps_left_def intro!: steps_left_update)

lemma slot_progress:
  assumes ok: "slots_ok c s" "c_sem c = Some capacity" "0 < capacity" and left: "steps_left s \<noteq> 0"
  shows "\<exists>s'. slot_step b c s s'"
proof -
  from left have "\<exists>(m, p) \<in> set (calls s). pc_left p \<noteq> 0" by (auto simp: steps_left_def)
  then obtain i m p where i: "i < length (calls s)" "calls s ! i = (m, p)" "pc_left p \<noteq> 0"
    by (auto simp: in_set_conv_nth)
  have returns: "\<exists>s'. slot_step b c s s'" if j: "j < length (calls s)" "calls s ! j = (m', InCall)" for j m'
  proof -
    obtain r x where run: "body c m' (outside s) = (r, x)" by force
    have "\<exists>u. (if takes_slot m' then release_slot (c_sem c) (used s) else Some (used s)) = Some u"
      using ok(1,2) in_calls_pos [OF j] by (cases "in_calls s") (auto simp: slots_ok_def release_slot_def)
    with slot_step.returned [OF j run] show ?thesis by blast
  qed
  show ?thesis
  proof (cases p)
    case NotCalled
    with slot_step.call [of i s m b c] i show ?thesis by blast
  next
    case Acquiring
    show ?thesis
    proof (cases "\<exists>j m'. j < length (calls s) \<and> calls s ! j = (m', InCall)")
      case False
      then have "in_calls s = 0" by (auto simp: in_calls_def in_flight_def filter_empty_conv in_set_conv_nth)
      then have "acquire_slot (c_sem c) (used s) = Some 1" using ok by (simp add: slots_ok_def acquire_slot_def)
      with slot_step.acquired [of i s m c 1 b] i Acquiring show ?thesis by blast
    qed (use returns in blast)
  qed (use returns i in auto)
qed

lemma slot_steps_end:
  assumes "slots_ok c s" "c_sem c = Some capacity" "0 < capacity"
  shows "\<exists>s'. (slot_step b c)\<^sup>*\<^sup>* s s' \<and> steps_left s' = 0"
  using assms
proof (induction "steps_left s" arbitrary: s rule: less_induct)
  case less
  show ?case
  proof (cases "steps_left s = 0")
    case False
    with slot_progress less.prems obtain s1 where s1: "slot_step b c s s1" by blast
    from less.hyps [OF slot_step_decreases [OF s1]] slot_step_ok [OF s1] less.prems
    show ?thesis using s1 by (metis converse_rtranclp_into_rtranclp)
  qed blast
qed

lemma steps_bounded: "(slot_step b c ^^ k) s s' \<Longrightarrow> k + steps_left s' \<le> steps_left s"
  by (induction k arbitrary: s') (fastforce dest: slot_step_decreases)+

text \<open>
  C35: no call waits for a slot for ever: from every reachable state, and without any
  cancellation, all calls that remain can run to their end; and every run of \<open>n\<close> calls ends,
  after at most three steps of each. The client may be dialled with any concurrency.
\<close>

theorem rpc_calls_end:
  assumes "DialRPCNode avx_dial eth_dial nil_rpc ctx_err url chainType maxConcurrency = Inr c"
    and "(slot_step b c ^^ k) (init_slots x ms) s"
  shows "k \<le> 3 * length ms \<and>
    (\<exists>s'. (slot_step False c)\<^sup>*\<^sup>* s s' \<and> (\<forall>(m, p) \<in> set (calls s'). \<exists>r. p = Ended r))"
proof -
  have "steps_left (init_slots x ms) = 3 * length ms"
    by (simp add: steps_left_def init_slots_def comp_def sum_list_triv)
  then have k: "k \<le> 3 * length ms" using steps_bounded [OF assms(2)] by linarith
  have "slots_ok c s" by (rule slot_steps_ok [OF relpowp_imp_rtranclp [OF assms(2)] init_slots_ok])
  from slot_steps_end [OF this dialled_sem [OF assms(1)], of False] obtain s' where
    s': "(slot_step False c)\<^sup>*\<^sup>* s s'" "steps_left s' = 0"
    by (auto simp: less_max_iff_disj)
  have "\<exists>r. p = Ended r" if "(m, p) \<in> set (calls s')" for m p
    using s'(2) that by (cases p) (auto simp: steps_left_def)
  with k s'(1) show ?thesis by blast
qed

text \<open>Two goroutines on a client of one slot: while the first is in its call, the second waits.\<close>

definition two_calls :: "rpc_method list" where
  "two_calls = [CallFilterLogs \<lparr>fq_from = 0, fq_to = 1, fq_addresses = [], fq_topics = []\<rparr>, CallHeaderByNumber None]"

definition one_waits :: "unit slots" where
  "one_waits = \<lparr>outside = (), used = 1, calls = zip two_calls [InCall, Acquiring]\<rparr>"

lemma one_waits_reached:
  assumes "c_sem c = Some 1"
  shows "(slot_step b c ^^ 3) (init_slots () two_calls) one_waits"
proof -
  let ?s = "\<lambda>u p q. \<lparr>outside = (), used = u, calls = zip two_calls [p, q]\<rparr>"
  have "init_slots () two_calls = ?s 0 NotCalled NotCalled" by (simp add: init_slots_def two_calls_def)
  moreover have "slot_step b c (?s 0 NotCalled NotCalled) (?s 0 Acquiring NotCalled)"
    using slot_step.call [of 0 "?s 0 NotCalled NotCalled" "two_calls ! 0" b c] by (simp add: two_calls_def)
  moreover have "slot_step b c (?s 0 Acquiring NotCalled) (?s 1 InCall NotCalled)"
    using slot_step.acquired [of 0 "?s 0 Acquiring NotCalled" "two_calls ! 0" c 1 b] assms
    by (simp add: acquire_slot_def two_calls_def)
  moreover have "slot_step b c (?s 1 InCall NotCalled) one_waits"
    using slot_step.call [of 1 "?s 1 InCall NotCalled" "two_calls ! 1" b c] by (simp add: one_waits_def two_calls_def)
  ultimately show ?thesis by (auto simp: numeral_3_eq_3 intro!: relcomppI)
qed

definition no_dial :: "string \<Rightarrow> go_error + unit rpc" where
  "no_dial url = Inl (ErrMsg ''unreachable'')"

definition idle_rpc :: "unit rpc" where
  "idle_rpc =
     \<lparr>rpc_chain_id = ret 14, rpc_block_by_number = (\<lambda>_. throw (ErrMsg ''not found'')),
      rpc_header_by_number = (\<lambda>_. throw (ErrMsg ''not found'')),
      rpc_transaction_receipt = (\<lambda>_. throw (ErrMsg ''not found'')), rpc_filter_logs = (\<lambda>_. ret []),
      rpc_code_at = (\<lambda>_ _. ret []), rpc_call_contract = (\<lambda>_ _. ret [])\<rparr>"

lemma dialled_one:
  "\<exists>c. DialRPCNode (\<lambda>_. Inr idle_rpc) no_dial idle_rpc (\<lambda>_. None) ''http://node'' ChainTypeAvax 0 = Inr c \<and>
     c_sem c = Some 1"
  by (simp add: DialRPCNode_def)

theorem rpc_calls_capped_witness: "int (in_calls one_waits) \<le> max 1 0 \<and> used one_waits = in_calls one_waits"
proof -
  obtain c where c: "DialRPCNode (\<lambda>_. Inr idle_rpc) no_dial idle_rpc (\<lambda>_. None) ''http://node'' ChainTypeAvax 0 = Inr c"
    "c_sem c = Some 1" using dialled_one by blast
  from rpc_calls_capped [OF c(1) relpowp_imp_rtranclp [OF one_waits_reached [OF c(2)]]] show ?thesis by blast
qed

theorem rpc_calls_end_witness:
  "\<exists>c s'. (slot_step False c)\<^sup>*\<^sup>* one_waits s' \<and> (\<forall>(m, p) \<in> set (calls s'). \<exists>r. p = Ended r)"
proof -
  obtain c where c: "DialRPCNode (\<lambda>_. Inr idle_rpc) no_dial idle_rpc (\<lambda>_. None) ''http://node'' ChainTypeAvax 0 = Inr c"
    "c_sem c = Some 1" using dialled_one by blast
  from rpc_calls_end [OF c(1) one_waits_reached [OF c(2)]] show ?thesis by blast
qed

end
