(* ===== verification/Spec2Isabelle.thy ===== *)
theory Spec2Isabelle
  imports Program Collected Rpc_Slots
begin

text \<open>
  \<^bold>\<open>The C-chain indexer.\<close>  The program copies blocks, selected transactions and selected logs
  of an EVM chain from an RPC node into MySQL tables, and keeps, in the table of states, a claim of
  what the tables cover: every block from \<^verbatim>\<open>first_database_block\<close> (\<open>BlockFloor\<close>) to
  \<^verbatim>\<open>last_database_block\<close> (\<open>LastIndexed\<close>). At a start it indexes the history up to the confirmed
  tip in batches, then follows the chain block by block; old rows are dropped in the background.
  In FSP mode it indexes a window that depends on the reward epochs of a contract, and backfills
  selected events below it.

  \<^bold>\<open>How the parts interact.\<close>  \<^verbatim>\<open>main.go\<close> (\<open>Runtime.run\<close>) builds the configuration (\<open>Config\<close>), dials
  the node (\<open>Chain_Client\<close>), resolves contract names (\<open>Contracts\<close>), connects to the database and
  restores the counter of transaction ids (\<open>Runtime\<close>), and runs the full mode
  (\<open>runIndexer\<close>) or the FSP mode (\<open>RunIndexer\<close>, \<open>Fsp_Startup\<close>, \<open>Fsp_Epochs\<close>). Both use the engine
  (\<open>Engine\<close>): \<open>Indexing\<close> fetches a batch (\<open>Blocks\<close>, \<open>Transactions\<close>, \<open>Logs\<close>) and saves it (\<open>Save\<close>), which
  updates the coverage states (\<open>States\<close>) over the statements of the database (\<open>Store\<close>).

  \<^bold>\<open>Theories and files.\<close>
  \<^item> \<open>Prelude\<close>: 64-bit words, Go errors as values, operations with effects (\<open>io\<close>) and their Hoare
    triples; \<open>Go_Text\<close>: the functions of \<^verbatim>\<open>strings\<close>, \<^verbatim>\<open>encoding/hex\<close> and \<^verbatim>\<open>fmt\<close> that the code uses.
  \<^item> \<open>Chain_Types\<close>, \<open>Chain_Client\<close>, \<open>Rpc_Slots\<close>: \<^verbatim>\<open>internal/chain/chain.go\<close>; \<open>Block_Search\<close>:
    \<^verbatim>\<open>block_search.go\<close>; \<open>Boff\<close>: \<^verbatim>\<open>internal/boff\<close>.
  \<^item> \<open>Store\<close>: \<^verbatim>\<open>internal/database/entities.go\<close>, the rows, tables and statements; \<open>States\<close>: \<^verbatim>\<open>states.go\<close>;
    \<open>History_Drop\<close>: \<^verbatim>\<open>history_drop.go\<close>.
  \<^item> \<open>Config\<close>: \<^verbatim>\<open>internal/config\<close> without \<^verbatim>\<open>address_resolution.go\<close>; \<open>Contracts\<close>: that file and
    \<^verbatim>\<open>internal/contracts\<close>; \<open>Contract_Registry\<close>: the read-only binding in \<^verbatim>\<open>contractregistry/autogen.go\<close>.
  \<^item> \<open>Engine\<close>, \<open>Blocks\<close>, \<open>Logs\<close>, \<open>Transactions\<close>, \<open>Save\<close>, \<open>Indexing\<close>: \<^verbatim>\<open>internal/core\<close> (\<open>Engine\<close> also the
    printed lines of \<^verbatim>\<open>internal/diagnostics\<close>); \<open>Index_Loops\<close>: lemmas on the two loops of \<open>Indexing\<close>;
    \<open>Collected\<close>: that a history pass stores the transactions and logs that are asked for.
  \<^item> \<open>Fsp_Epochs\<close>: \<^verbatim>\<open>internal/fsp/epochs.go\<close>; \<open>Fsp_Startup\<close>: \<^verbatim>\<open>startup.go\<close>, \<^verbatim>\<open>backfill_events.go\<close>,
    \<^verbatim>\<open>fsp_resolver.go\<close>.
  \<^item> \<open>Runtime\<close>: \<^verbatim>\<open>cmd/indexer/main.go\<close>, \<^verbatim>\<open>internal/fsp/runtime.go\<close>, \<^verbatim>\<open>internal/database/database.go\<close>,
    \<^verbatim>\<open>internal/ready\<close>, \<^verbatim>\<open>internal/health\<close>; \<open>Restart\<close>: lemmas on whole lives of the process.
  \<^item> \<open>Goroutines\<close>: the history drop and continuous indexing as steps, one per statement or transaction of the
    database; \<open>Live\<close>: their interleaving (\<open>live_step\<close>) and its invariant.
  \<^item> \<open>Retention\<close>: what lives of the process keep while history is dropped (\<open>retained\<close>), in full mode;
    \<open>Full_Run\<close>: a run of the full mode is such lives; \<open>Fsp_Lives\<close>: lives in FSP mode, and the two mixed;
    \<open>Program\<close>: starts of the whole program, \<^verbatim>\<open>run\<close>, are such lives.
  \<^item> \<open>Node\<close>, \<open>Reference_World\<close>: what is relied on of a node, and a concrete store and node.

  \<^bold>\<open>State and operations.\<close>  An operation with effects maps a state to a result or an error and the
  state it leaves; an error does not undo effects. The outside state is a type variable; the database and the node
  are records of operations on it (\<open>store\<close>, \<open>client\<close>), and \<open>tabs\<close> reads the tables from it. \<open>world\<close>
  adds the state of the process: the counter \<^verbatim>\<open>database.TransactionId\<close>, the flag of \<^verbatim>\<open>ready\<close>, the cache
  of the contract resolver. Definitions have the names of the Go functions; a loop or closure of a
  function has a definition of its own. Integers are 64-bit words and wrap around as in Go.

  \<^bold>\<open>Interfaces.\<close>  What the code relies on of others are the laws of locales: \<open>relational_store\<close> (each
  statement takes effect, or fails without effect, or fails after it took effect; a transaction is all or nothing),
  \<open>canonical_node\<close> (successful answers are about one chain; the head may be any block below
  2^62), \<open>retrier\<close> (a retried call is a number of attempts), \<open>fsm_reader\<close> and \<open>fsp_host\<close> (the contract binding and the
  registry leave the tables alone), \<open>fsm_records\<close> and \<open>fsp_start\<close> (the binding reads one record of epochs), \<open>database_driver\<close>; \<open>collectors\<close> and
  \<open>named_entry\<close> state what two merges and two resolutions share. \<open>indexer\<close>, \<open>indexing\<close> and \<open>full_mode\<close>
  combine them, \<open>following\<close> adds a chain whose times do not decrease, \<open>dropping_mode\<close> and \<open>fsp_mode\<close> the
  retriers and hosts of the two modes, \<open>program\<close> what a start of the program is given. \<open>abi_calls\<close> states what the
  registry's binding relies on of the packages \<^verbatim>\<open>abi\<close> and \<^verbatim>\<open>bind\<close>. Each is interpreted on the concrete world, whose statements and calls fail by a
  schedule of faults, or on the code's own functions.

  \<^bold>\<open>What the lemmas show.\<close>  \<open>covers\<close> is the claim of the states and \<open>sound\<close> the invariant of the
  indexing loops: \<open>Save\<close> shows that a save keeps it on every outcome, \<open>Indexing\<close> that a batch does
  (\<open>batch_effect\<close>) and what else indexing preserves (\<open>grows\<close>), \<open>Index_Loops\<close> that the loops do, with
  their termination, \<open>Restart\<close> that it survives restarts (\<open>resumable\<close>) and what the health endpoint
  says, \<open>Live\<close> what it becomes while old blocks are dropped at the same time (from the end of the
  history pass on; its claim is about blocks, not about logs). \<open>Retention\<close> and \<open>Fsp_Lives\<close> carry this over restarts:
  what is missing is older than a mark, the highest boundary of a drop or the time above which a life started
  anew; \<open>Full_Run\<close> and \<open>Fsp_Lives\<close> show that the functions of the two modes do nothing that the lives do not, and \<open>Program\<close> that the
  program does not, from the configuration on. \<open>History_Drop\<close> shows what a
  drop deletes and keeps, \<open>Fsp_Startup\<close> which blocks and events are stored after an FSP start. \<open>Collected\<close> states what a history pass stores beside the blocks (\<open>collected\<close>): the selected transactions, the logs
  of their receipts and the requested logs. The searches, the parsing of collectors, the selection of transactions,
  the rows of logs and transactions, the configuration and the slots of the RPC client have their properties in
  their theories; \<open>Rpc_Slots\<close> also shows that the steps of one goroutine are the sequential method of \<open>Chain_Client\<close>
  (\<open>invoke_by_steps\<close>). Where the code does less than it promises, a theorem gives the counterexample.

  \<^bold>\<open>Bounds and fuel.\<close>  Loops without a structural bound take fuel, and running out of it is the error
  \<open>OutOfFuel\<close>: \<open>history_terminates\<close> (2^61 + 2 rounds for batches of two or more), \<open>delete_in_batches_terminates\<close>
  (a round per 1000 rows and one more), \<open>backfill_fuel\<close> and the lemmas of \<open>Logs\<close> and \<open>Fsp_Epochs\<close> say how much is
  enough. Continuous indexing may run for ever; its properties hold for every fuel. Block numbers of
  chains are below 2^62, so that sums with batch sizes do not wrap.

  \<^bold>\<open>Not modelled.\<close>  Logging, pauses and timeouts, the signal handler and the HTTP listener; the
  generated bindings that write to the registry contract or filter its events, which no code uses; third-party
  packages, which are parameters;
  tests, benchmarks and container files. The goroutines of a batch run in an arbitrary order, each without interruption; they share no state but their own slots.
\<close>

end
